(* ===== verification/AESD_Prelude.thy ===== *)
theory AESD_Prelude
  imports Main "HOL-Library.Word"
begin

text \<open>
  Vocabulary shared by the component theories: names for the C integer types of the
  64-bit Linux target, the errno values the code returns, the kinds of undefined
  behaviour the models report, and generic facts about lists and words.

  A C integer is kept at its width as a word. \<open>size_t\<close> and \<open>loff_t\<close> have 64 bits,
  \<open>int\<close> and \<open>uint32_t\<close> 32 bits, \<open>uint8_t\<close> 8 bits; a signed variable is the same
  word read by \<open>sint\<close>. A conversion to a narrower type is \<open>ucast\<close>, a sign extension
  is \<open>scast\<close>.
\<close>

section \<open>C types\<close>

type_synonym byte = "8 word"
type_synonym uint8_t = "8 word"
type_synonym uint32_t = "32 word"
type_synonym c_int = "32 word"
type_synonym size_t = "64 word"
type_synonym loff_t = "64 word"

abbreviation newline :: byte where
  "newline \<equiv> 10"

text \<open>The errno values (Linux numbering) that the driver and its callers use.\<close>

abbreviation EFAULT :: "'a::numeral" where "EFAULT \<equiv> 14"
abbreviation EINVAL :: "'a::numeral" where "EINVAL \<equiv> 22"
abbreviation ENOMEM :: "'a::numeral" where "ENOMEM \<equiv> 12"
abbreviation ERESTARTSYS :: "'a::numeral" where "ERESTARTSYS \<equiv> 512"

text \<open>
  What can go wrong in a C step that has no defined result. A model returns
  \<open>Inl fault\<close> exactly where the code would execute the offending access.
\<close>

datatype fault =
    NullDeref        \<comment> \<open>access through a null pointer\<close>
  | OutOfBounds      \<comment> \<open>access outside the object a pointer points into\<close>
  | UseAfterFree     \<comment> \<open>access through, or reallocation of, a released block\<close>
  | DoubleFree       \<comment> \<open>release of a block that is not live\<close>
  | SelfDeadlock     \<comment> \<open>a mutex locked again by its holder\<close>
  | UnlockNotOwner   \<comment> \<open>a mutex unlocked by a thread that does not hold it\<close>
  | NoReturn         \<comment> \<open>a loop that does not end, or an index outside a fixed array\<close>

section \<open>Named collections\<close>

named_theorems ring_simps "facts about the slots of the circular buffer"
named_theorems dev_simps "defining equations of the driver's file operations"
named_theorems proc_simps "defining equations of the process helpers"

section \<open>Lists\<close>

text \<open>The last \<open>n\<close> elements of a list: what a bounded history keeps.\<close>

definition keep_last :: "nat \<Rightarrow> 'a list \<Rightarrow> 'a list" where
  "keep_last n xs = drop (length xs - n) xs"

lemma length_keep_last [simp]: "length (keep_last n xs) = min n (length xs)"
  by (simp add: keep_last_def)

lemma keep_last_short [simp]: "length xs \<le> n \<Longrightarrow> keep_last n xs = xs"
  by (simp add: keep_last_def)

lemma keep_last_Nil [simp]: "keep_last n [] = []"
  by (simp add: keep_last_def)

lemma set_keep_last_subset: "set (keep_last n xs) \<subseteq> set xs"
  by (simp add: keep_last_def set_drop_subset)

lemma keep_last_map: "keep_last n (map f xs) = map f (keep_last n xs)"
  by (simp add: keep_last_def drop_map)

lemma keep_last_append: "keep_last n (keep_last n xs @ ys) = keep_last n (xs @ ys)"
  by (cases "length xs \<le> n") (auto simp: keep_last_def add.commute)

lemma keep_last_full_snoc: "length xs = n \<Longrightarrow> 0 < n \<Longrightarrow> keep_last n (xs @ [x]) = tl xs @ [x]"
  by (cases xs) (auto simp: keep_last_def)

lemma tl_map_upt: "tl (map f [0..<Suc n]) = map (\<lambda>i. f (Suc i)) [0..<n]"
proof -
  have "[0..<Suc n] = 0 # map Suc [0..<n]"
    by (simp add: map_Suc_upt upt_conv_Cons del: upt_Suc)
  then show ?thesis by simp
qed

text \<open>Which element of a list of block lengths a position falls into, and where in it.\<close>

fun locate :: "nat list \<Rightarrow> nat \<Rightarrow> (nat \<times> nat) option" where
  "locate [] p = None"
| "locate (s # ss) p =
     (if p < s then Some (0, p)
      else map_option (\<lambda>(k, q). (Suc k, q)) (locate ss (p - s)))"

lemma locate_None_iff: "locate ss p = None \<longleftrightarrow> sum_list ss \<le> p"
  by (induction ss p rule: locate.induct) auto

lemma locate_Some:
  "locate ss p = Some (k, q) \<Longrightarrow>
    k < length ss \<and> q < ss ! k \<and> p = sum_list (take k ss) + q"
proof (induction ss p arbitrary: k rule: locate.induct)
  case (1 p)
  then show ?case by simp
next
  case (2 s ss p)
  then show ?case
    by (cases "p < s") (fastforce split: prod.splits)+
qed

lemma locate_concat:
  "locate (map length xss) p = Some (k, q) \<Longrightarrow>
    drop p (concat xss) = drop q (xss ! k) @ concat (drop (Suc k) xss)"
proof (induction xss arbitrary: p k)
  case Nil
  then show ?case by simp
next
  case (Cons xs xss)
  show ?case
  proof (cases "p < length xs")
    case True
    with Cons.prems show ?thesis by auto
  next
    case False
    with Cons.prems obtain k' where "k = Suc k'"
      and "locate (map length xss) (p - length xs) = Some (k', q)"
      by auto
    with False Cons.IH [of "p - length xs" k'] show ?thesis by simp
  qed
qed

lemma take_drop_take: "take m (drop k xs) @ take n (drop (k + m) xs) = take (m + n) (drop k xs)"
  by (simp only: take_add drop_drop add.commute [of k m])

lemma length_concat_map: "length (concat xss) = sum_list (map length xss)"
  by (rule length_concat)

lemma sum_list_take_le: "sum_list (take k xs) \<le> sum_list (xs :: nat list)"
  by (metis append_take_drop_id le_add1 sum_list_append)

lemma sum_list_take_Suc:
  "k < length xs \<Longrightarrow> sum_list (take (Suc k) xs) = sum_list (take k xs) + (xs ! k :: nat)"
  by (simp add: take_Suc_conv_app_nth)

text \<open>Modular positions within one round are distinct.\<close>

lemma mod_shift_inj:
  fixes x i j n :: nat
  assumes "(x + i) mod n = (x + j) mod n" and "i < n" and "j < n"
  shows "i = j"
proof -
  have "int (x + i) mod int n = int (x + j) mod int n"
    using assms(1) by (metis of_nat_mod)
  then have "(int (x + i) - int x) mod int n = (int (x + j) - int x) mod int n"
    by (rule mod_diff_cong) simp
  then show ?thesis using assms(2,3) by simp
qed

section \<open>Words\<close>

lemma unat_of_nat_less [simp]: "n < 2 ^ LENGTH('a) \<Longrightarrow> unat (of_nat n :: 'a::len word) = n"
  by (simp add: unat_of_nat take_bit_nat_eq_self)

lemma word_of_unat: "of_nat (unat w) = (w :: 'a::len word)"
  by simp

lemma unat_less_64: "unat (w :: 64 word) < 2 ^ 64"
  using unsigned_less [of w, where ?'a = nat] by simp

lemma unat_add_no_wrap:
  "unat a + unat b < 2 ^ LENGTH('a) \<Longrightarrow> unat (a + b) = unat a + unat (b :: 'a::len word)"
  by (simp add: unat_word_ariths)

text \<open>Conversions between \<open>int\<close> and \<open>size_t\<close>.\<close>

lemma ucast_add_32: "(ucast (a + b :: 64 word) :: 32 word) = ucast a + ucast b"
proof (transfer)
  fix a b :: int
  have "take_bit 32 (take_bit 64 a + take_bit 64 b)
      = take_bit 32 (take_bit 32 (take_bit 64 a) + take_bit 32 (take_bit 64 b))"
    by (simp only: take_bit_add)
  then show "take_bit LENGTH(32) (take_bit LENGTH(64) (a + b))
      = take_bit LENGTH(32) (take_bit LENGTH(64) a + take_bit LENGTH(64) b)"
    by (simp add: take_bit_add take_bit_take_bit)
qed

lemma ucast_scast_32: "(ucast (scast (a :: 32 word) :: 64 word) :: 32 word) = a"
  by (simp add: bit_eq_iff bit_simps)

lemma narrow_minus_1 [simp]: "(ucast (- 1 :: 64 word) :: 32 word) = - 1"
  by (simp add: bit_eq_iff bit_simps)

lemma narrow_add: "(ucast (scast (a :: 32 word) + (b :: 64 word)) :: 32 word) = a + ucast b"
  by (simp add: ucast_add_32 ucast_scast_32)

lemma scast_of_nat_minus_1:
  assumes "n < 2 ^ 31"
  shows "(scast (of_nat n - 1 :: 32 word) :: 64 word) = of_int (int n - 1)"
proof -
  have "of_nat n - 1 = (word_of_int (int n - 1) :: 32 word)" by simp
  then have "sint (of_nat n - 1 :: 32 word) = int n - 1"
    using assms by (simp only: signed_of_int) (simp add: signed_take_bit_int_eq_self)
  then show ?thesis by (metis of_int_sint)
qed

lemma scast_of_nat_32:
  assumes "n < 2 ^ 31"
  shows "(scast (of_nat n :: 32 word) :: 64 word) = of_nat n"
proof -
  have "sint (of_nat n :: 32 word) = int n"
    using assms by (simp add: signed_of_nat signed_take_bit_int_eq_self)
  then show ?thesis by (metis of_int_of_nat_eq of_int_sint)
qed

lemma sint_of_nat_32: "n < 2 ^ 31 \<Longrightarrow> sint (of_nat n :: 32 word) = int n"
  by (simp add: signed_of_nat signed_take_bit_int_eq_self)

lemma unat_sub_no_wrap: "b \<le> a \<Longrightarrow> unat (a - b) = unat a - unat (b :: 'a::len word)"
  by (rule unat_sub)

lemma le_minus_one_iff:
  assumes "0 < b"
  shows "a \<le> b - 1 \<longleftrightarrow> a < (b :: 'a::len word)"
proof -
  from assms have "b \<noteq> 0" by auto
  then have "unat (b - 1) = unat b - 1" and "0 < unat b"
    by (simp_all add: unat_minus_one unat_gt_0)
  then show ?thesis
    by (simp add: word_le_nat_alt word_less_nat_alt) arith
qed

end
