(* ===== verification/Kernel_Memory.thy ===== *)
theory Kernel_Memory
  imports AESD_Prelude
begin

text \<open>
  Memory as the driver sees it: pointers, a heap of live blocks, checked accesses, and
  the kernel services the driver calls. The kernel is not part of the repository, so its
  services are the fields of a record \<open>kernel\<close> that every driver operation takes as an
  argument; \<open>kernel_ok\<close> collects what their documentation promises and is a hypothesis
  wherever a theorem relies on it. \<open>demo_kernel\<close> is a concrete kernel that meets it.
\<close>

section \<open>Pointers and blocks\<close>

text \<open>
  \<open>ZERO_SIZE_PTR\<close> is the non-null pointer the kernel allocator returns for a request of
  size zero; nothing may be read through it.
\<close>

datatype ptr = NULL | ZERO_SIZE_PTR | Ptr nat

type_synonym heap = "nat \<rightharpoonup> byte list"

text \<open>A pointer that may be handed back to the allocator.\<close>

fun valid_ptr :: "heap \<Rightarrow> ptr \<Rightarrow> bool" where
  "valid_ptr h NULL = True"
| "valid_ptr h ZERO_SIZE_PTR = True"
| "valid_ptr h (Ptr a) = (h a \<noteq> None)"

fun block :: "heap \<Rightarrow> ptr \<Rightarrow> byte list" where
  "block h NULL = []"
| "block h ZERO_SIZE_PTR = []"
| "block h (Ptr a) = (case h a of None \<Rightarrow> [] | Some bs \<Rightarrow> bs)"

fun release :: "heap \<Rightarrow> ptr \<Rightarrow> heap" where
  "release h NULL = h"
| "release h ZERO_SIZE_PTR = h"
| "release h (Ptr a) = h(a := None)"

text \<open>The address a pointer keeps alive, as a set.\<close>

fun addr_of :: "ptr \<Rightarrow> nat set" where
  "addr_of NULL = {}"
| "addr_of ZERO_SIZE_PTR = {}"
| "addr_of (Ptr a) = {a}"

text \<open>Reading \<open>n\<close> bytes at \<open>p + off\<close>; an empty read touches nothing.\<close>

definition load_bytes :: "heap \<Rightarrow> ptr \<Rightarrow> nat \<Rightarrow> nat \<Rightarrow> fault + byte list" where
  "load_bytes h p off n =
     (if n = 0 then Inr []
      else case p of
          NULL \<Rightarrow> Inl NullDeref
        | ZERO_SIZE_PTR \<Rightarrow> Inl NullDeref
        | Ptr a \<Rightarrow>
            (case h a of
               None \<Rightarrow> Inl UseAfterFree
             | Some bs \<Rightarrow>
                 if off + n \<le> length bs then Inr (take n (drop off bs)) else Inl OutOfBounds))"

text \<open>Writing the bytes \<open>xs\<close> at \<open>p + off\<close>.\<close>

definition store_bytes :: "heap \<Rightarrow> ptr \<Rightarrow> nat \<Rightarrow> byte list \<Rightarrow> fault + heap" where
  "store_bytes h p off xs =
     (if xs = [] then Inr h
      else case p of
          NULL \<Rightarrow> Inl NullDeref
        | ZERO_SIZE_PTR \<Rightarrow> Inl NullDeref
        | Ptr a \<Rightarrow>
            (case h a of
               None \<Rightarrow> Inl UseAfterFree
             | Some bs \<Rightarrow>
                 if off + length xs \<le> length bs
                 then Inr (h(a \<mapsto> take off bs @ xs @ drop (off + length xs) bs))
                 else Inl OutOfBounds))"

lemma load_bytes_0 [simp]: "load_bytes h p off 0 = Inr []"
  by (simp add: load_bytes_def)

lemma load_bytes_ok:
  "off + n \<le> length (block h p) \<Longrightarrow> load_bytes h p off n = Inr (take n (drop off (block h p)))"
  by (cases p) (auto simp: load_bytes_def split: option.splits)

lemma store_bytes_ok:
  "h a = Some bs \<Longrightarrow> off + length xs \<le> length bs \<Longrightarrow>
    store_bytes h (Ptr a) off xs = Inr (h(a \<mapsto> take off bs @ xs @ drop (off + length xs) bs))"
  by (auto simp: store_bytes_def)

lemma store_bytes_Nil [simp]: "store_bytes h p off [] = Inr h"
  by (simp add: store_bytes_def)

lemma dom_release: "dom (release h p) = dom h - addr_of p"
  by (cases p) auto

lemma valid_ptr_iff: "valid_ptr h p \<longleftrightarrow> addr_of p \<subseteq> dom h"
  by (cases p) auto

lemma in_addr_of [simp]: "a \<in> addr_of p \<longleftrightarrow> p = Ptr a"
  by (cases p) auto

text \<open>Only a live block has contents.\<close>

lemma block_nonempty:
  assumes "block h p \<noteq> []"
  obtains a bs where "p = Ptr a" and "h a = Some bs" and "block h p = bs"
  using assms by (cases p) (auto split: option.splits)

lemma block_frame: "(\<And>a. a \<in> addr_of p \<Longrightarrow> h' a = h a) \<Longrightarrow> block h' p = block h p"
  by (cases p) auto

section \<open>Kernel services\<close>

text \<open>
  \<open>mutex_lock_interruptible\<close> is the value the call returns (0 when the lock was taken,
  an error when a signal arrived first). \<open>copy_from_user src n\<close> gives the \<open>n\<close> bytes the
  destination holds afterwards and the number of bytes that could not be copied;
  \<open>copy_to_user\<close> gives that number.
\<close>

record kernel =
  mutex_lock_interruptible :: int
  krealloc :: "heap \<Rightarrow> ptr \<Rightarrow> nat \<Rightarrow> ptr \<times> heap"
  kfree :: "heap \<Rightarrow> ptr \<Rightarrow> heap"
  copy_from_user :: "byte list \<Rightarrow> nat \<Rightarrow> byte list \<times> nat"
  copy_to_user :: "byte list \<Rightarrow> nat"

text \<open>
  \<open>krealloc\<close>: on failure it returns null and leaves the old block alone; a request of
  size 0 releases the block; otherwise the result is a block of the requested size, at a
  fresh address or in place, that starts with the old contents, and no other block
  changes.
\<close>

definition krealloc_ok :: "(heap \<Rightarrow> ptr \<Rightarrow> nat \<Rightarrow> ptr \<times> heap) \<Rightarrow> bool" where
  "krealloc_ok f \<longleftrightarrow>
     (\<forall>h p n q h'. valid_ptr h p \<longrightarrow> f h p n = (q, h') \<longrightarrow>
        (if q = NULL then h' = h
         else if n = 0 then q = ZERO_SIZE_PTR \<and> h' = release h p
         else \<exists>a bs. q = Ptr a \<and> (h a = None \<or> p = Ptr a) \<and> length bs = n
                \<and> take (length (block h p)) bs = take n (block h p)
                \<and> h' = (release h p)(a \<mapsto> bs)))"

definition kfree_ok :: "(heap \<Rightarrow> ptr \<Rightarrow> heap) \<Rightarrow> bool" where
  "kfree_ok f \<longleftrightarrow> (\<forall>h p. valid_ptr h p \<longrightarrow> f h p = release h p)"

definition copy_from_user_ok :: "(byte list \<Rightarrow> nat \<Rightarrow> byte list \<times> nat) \<Rightarrow> bool" where
  "copy_from_user_ok f \<longleftrightarrow>
     (\<forall>src n bs r. f src n = (bs, r) \<longrightarrow>
        length bs = n \<and> r \<le> n \<and> (r = 0 \<longrightarrow> n \<le> length src \<and> bs = take n src))"

definition kernel_ok :: "kernel \<Rightarrow> bool" where
  "kernel_ok K \<longleftrightarrow> krealloc_ok (krealloc K) \<and> kfree_ok (kfree K) \<and> copy_from_user_ok (copy_from_user K)"

lemma krealloc_cases:
  assumes "kernel_ok K" and "valid_ptr h p" and "krealloc K h p n = (q, h')"
  obtains (failed) "q = NULL" and "h' = h"
    | (empty) "q = ZERO_SIZE_PTR" and "n = 0" and "h' = release h p"
    | (moved) a bs where "q = Ptr a" and "0 < n" and "h a = None \<or> p = Ptr a" and "length bs = n"
        and "take (length (block h p)) bs = take n (block h p)"
        and "h' = (release h p)(a \<mapsto> bs)"
proof -
  have "if q = NULL then h' = h
      else if n = 0 then q = ZERO_SIZE_PTR \<and> h' = release h p
      else \<exists>a bs. q = Ptr a \<and> (h a = None \<or> p = Ptr a) \<and> length bs = n
             \<and> take (length (block h p)) bs = take n (block h p)
             \<and> h' = (release h p)(a \<mapsto> bs)"
    using assms unfolding kernel_ok_def krealloc_ok_def by blast
  then show thesis
    using that by (auto split: if_splits)
qed

lemma kfree_release: "kernel_ok K \<Longrightarrow> valid_ptr h p \<Longrightarrow> kfree K h p = release h p"
  by (auto simp: kernel_ok_def kfree_ok_def)

lemma copy_from_user_result:
  "kernel_ok K \<Longrightarrow> copy_from_user K src n = (bs, r) \<Longrightarrow>
    length bs = n \<and> (r = 0 \<longrightarrow> n \<le> length src \<and> bs = take n src)"
  by (auto simp: kernel_ok_def copy_from_user_ok_def)

text \<open>Calls with a stale pointer are undefined; the checks below stand for that.\<close>

definition call_krealloc :: "kernel \<Rightarrow> heap \<Rightarrow> ptr \<Rightarrow> nat \<Rightarrow> fault + (ptr \<times> heap)" where
  "call_krealloc K h p n = (if valid_ptr h p then Inr (krealloc K h p n) else Inl UseAfterFree)"

definition call_kfree :: "kernel \<Rightarrow> heap \<Rightarrow> ptr \<Rightarrow> fault + heap" where
  "call_kfree K h p = (if valid_ptr h p then Inr (kfree K h p) else Inl DoubleFree)"

section \<open>A concrete kernel\<close>

text \<open>
  An allocator that scans 32 addresses, moves the block when it grows and fails when all
  addresses are taken; user copies succeed when the source is long enough.
\<close>

definition demo_krealloc :: "heap \<Rightarrow> ptr \<Rightarrow> nat \<Rightarrow> ptr \<times> heap" where
  "demo_krealloc h p n =
     (if n = 0 then (ZERO_SIZE_PTR, release h p)
      else case find (\<lambda>a. h a = None) [0..<32] of
          None \<Rightarrow> (NULL, h)
        | Some a \<Rightarrow>
            (let old = take n (block h p)
             in (Ptr a, (release h p)(a \<mapsto> old @ replicate (n - length old) 0))))"

definition demo_copy :: "byte list \<Rightarrow> nat \<Rightarrow> byte list \<times> nat" where
  "demo_copy src n = (take n src @ replicate (n - length src) 0, n - length src)"

definition demo_kernel :: kernel where
  "demo_kernel = \<lparr>mutex_lock_interruptible = 0, krealloc = demo_krealloc, kfree = release,
     copy_from_user = demo_copy, copy_to_user = (\<lambda>_. 0)\<rparr>"

lemma demo_krealloc_ok: "krealloc_ok demo_krealloc"
proof -
  have block_grown: "\<exists>bs. length bs = n \<and> take (length old) bs = take n old
      \<and> m(i \<mapsto> take n old @ replicate (n - min (length old) n) 0) = m(i \<mapsto> bs)"
    for n i :: nat and old :: "byte list" and m :: heap
    by (rule exI [of _ "take n old @ replicate (n - min (length old) n) 0"]) (simp add: min_def)
  show ?thesis
    unfolding krealloc_ok_def demo_krealloc_def
    by (auto simp: Let_def find_Some_iff block_grown split: option.splits if_splits)
qed

lemma demo_copy_ok: "copy_from_user_ok demo_copy"
  by (auto simp: copy_from_user_ok_def demo_copy_def)

lemma demo_kernel_ok: "kernel_ok demo_kernel"
  by (simp add: kernel_ok_def demo_kernel_def demo_krealloc_ok kfree_ok_def demo_copy_ok)

text \<open>The same kernel with no memory left, and one whose lock call is interrupted.\<close>

definition oom_kernel :: kernel where
  "oom_kernel = demo_kernel\<lparr>krealloc := (\<lambda>h p n. (NULL, h))\<rparr>"

lemma oom_kernel_ok: "kernel_ok oom_kernel"
  using demo_kernel_ok
  by (simp add: kernel_ok_def oom_kernel_def krealloc_ok_def)

end
