(* ===== verification/Interfaces.thy ===== *)
theory Interfaces
  imports AESD_Prelude
begin

text \<open>
  The contracts between components, as locales: a bounded log (what the driver asks of the
  circular buffer), a log with lookup by position, and a step function that refines a
  specification (what the users of the driver rely on). Each is interpreted in the
  theory of the component that provides it.
\<close>

section \<open>Bounded logs\<close>

fun add_all :: "('b \<Rightarrow> 'e \<Rightarrow> 'b option) \<Rightarrow> 'b \<Rightarrow> 'e list \<Rightarrow> 'b option" where
  "add_all add b [] = Some b"
| "add_all add b (e # es) = (case add b e of None \<Rightarrow> None | Some b' \<Rightarrow> add_all add b' es)"

locale bounded_log =
  fixes add :: "'b \<Rightarrow> 'e \<Rightarrow> 'b option"
    and items :: "'b \<Rightarrow> 'e list"
    and inv :: "'b \<Rightarrow> bool"
    and cap :: nat
  assumes add_ok: "inv b \<Longrightarrow>
      \<exists>b'. add b e = Some b' \<and> inv b' \<and> items b' = keep_last cap (items b @ [e])"
    and items_bound: "inv b \<Longrightarrow> length (items b) \<le> cap"
    and cap_pos: "0 < cap"
begin

lemma add_SomeD:
  assumes "inv b" and "add b e = Some b'"
  shows "inv b'" and "items b' = keep_last cap (items b @ [e])"
  using add_ok [OF assms(1), of e] assms(2) by auto

lemma add_all_ok:
  "inv b \<Longrightarrow> \<exists>b'. add_all add b es = Some b' \<and> inv b' \<and> items b' = keep_last cap (items b @ es)"
proof (induction es arbitrary: b)
  case Nil
  then show ?case using items_bound by simp
next
  case (Cons e es)
  obtain b1 where b1: "add b e = Some b1" "inv b1" "items b1 = keep_last cap (items b @ [e])"
    using add_ok [OF Cons.prems] by blast
  with Cons.IH [OF b1(2)] show ?case
    by (simp add: keep_last_append)
qed

text \<open>A log that is not full keeps everything; a full one drops its oldest item.\<close>

lemma add_not_full:
  "inv b \<Longrightarrow> length (items b) < cap \<Longrightarrow> add b e = Some b' \<Longrightarrow> items b' = items b @ [e]"
  using add_SomeD(2) by simp

lemma add_full:
  "inv b \<Longrightarrow> length (items b) = cap \<Longrightarrow> add b e = Some b' \<Longrightarrow> items b' = tl (items b) @ [e]"
  using add_SomeD(2) cap_pos by (simp add: keep_last_full_snoc)

end

text \<open>
  Lookup by byte position: the item that covers the position when the items are laid end
  to end, and the offset in it.
\<close>

locale indexed_log = bounded_log add items inv cap
  for add :: "'b \<Rightarrow> 'e \<Rightarrow> 'b option" and items :: "'b \<Rightarrow> 'e list" and inv :: "'b \<Rightarrow> bool" and cap :: nat +
  fixes weight :: "'e \<Rightarrow> nat"
    and find :: "'b \<Rightarrow> nat \<Rightarrow> ('e \<times> nat) option option"
  assumes find_ok: "inv b \<Longrightarrow> items b \<noteq> [] \<Longrightarrow> \<forall>e \<in> set (items b). 0 < weight e \<Longrightarrow>
      sum_list (map weight (items b)) < 2 ^ 64 \<Longrightarrow> p < 2 ^ 64 \<Longrightarrow>
      find b p = Some (map_option (\<lambda>(k, q). (items b ! k, q)) (locate (map weight (items b)) p))"
begin

lemma find_end_iff:
  assumes "inv b" and "items b \<noteq> []" and "\<forall>e \<in> set (items b). 0 < weight e"
    and "sum_list (map weight (items b)) < 2 ^ 64" and "p < 2 ^ 64"
  shows "find b p = Some None \<longleftrightarrow> sum_list (map weight (items b)) \<le> p"
  using find_ok [OF assms] by (simp add: locate_None_iff)

lemma find_hit:
  assumes "inv b" and "items b \<noteq> []" and "\<forall>e \<in> set (items b). 0 < weight e"
    and "sum_list (map weight (items b)) < 2 ^ 64" and "p < 2 ^ 64"
    and "find b p = Some (Some (e, q))"
  shows "\<exists>k < length (items b). e = items b ! k \<and> q < weight e
      \<and> p = sum_list (take k (map weight (items b))) + q"
proof -
  obtain k where "locate (map weight (items b)) p = Some (k, q)" and "e = items b ! k"
    using find_ok [OF assms(1-5)] assms(6) by (auto dest!: sym [of "Some (e, q)"])
  with locate_Some show ?thesis by fastforce
qed

end

section \<open>Refinement of a specification\<close>

text \<open>
  A concrete step may fault; a specification step never does. \<open>run\<close> and \<open>run_spec\<close>
  collect the replies of a sequence of operations.
\<close>

fun run :: "('s \<Rightarrow> 'o \<Rightarrow> fault + 's \<times> 'r) \<Rightarrow> 's \<Rightarrow> 'o list \<Rightarrow> fault + 's \<times> 'r list" where
  "run f s [] = Inr (s, [])"
| "run f s (x # xs) =
     (case f s x of
        Inl e \<Rightarrow> Inl e
      | Inr (s', r) \<Rightarrow>
          (case run f s' xs of Inl e \<Rightarrow> Inl e | Inr (s'', rs) \<Rightarrow> Inr (s'', r # rs)))"

fun run_spec :: "('a \<Rightarrow> 'o \<Rightarrow> 'a \<times> 'r) \<Rightarrow> 'a \<Rightarrow> 'o list \<Rightarrow> 'a \<times> 'r list" where
  "run_spec g a [] = (a, [])"
| "run_spec g a (x # xs) =
     (let (a', r) = g a x; (a'', rs) = run_spec g a' xs in (a'', r # rs))"

text \<open>Every operation is allowed in the specification state in which it runs.\<close>

fun allowed_run :: "('a \<Rightarrow> 'o \<Rightarrow> 'a \<times> 'r) \<Rightarrow> ('a \<Rightarrow> 'o \<Rightarrow> bool) \<Rightarrow> 'a \<Rightarrow> 'o list \<Rightarrow> bool" where
  "allowed_run g ok a [] = True"
| "allowed_run g ok a (x # xs) = (ok a x \<and> allowed_run g ok (fst (g a x)) xs)"

locale refines =
  fixes cstep :: "'s \<Rightarrow> 'o \<Rightarrow> fault + 's \<times> 'r"
    and astep :: "'a \<Rightarrow> 'o \<Rightarrow> 'a \<times> 'r"
    and abs :: "'s \<Rightarrow> 'a"
    and inv :: "'s \<Rightarrow> bool"
    and ok :: "'a \<Rightarrow> 'o \<Rightarrow> bool"
  assumes step: "inv s \<Longrightarrow> ok (abs s) x \<Longrightarrow>
      \<exists>s'. cstep s x = Inr (s', snd (astep (abs s) x)) \<and> inv s' \<and> abs s' = fst (astep (abs s) x)"
begin

lemma run_refines:
  "inv s \<Longrightarrow> allowed_run astep ok (abs s) xs \<Longrightarrow>
    \<exists>s'. run cstep s xs = Inr (s', snd (run_spec astep (abs s) xs)) \<and> inv s'
      \<and> abs s' = fst (run_spec astep (abs s) xs)"
proof (induction xs arbitrary: s)
  case Nil
  then show ?case by simp
next
  case (Cons x xs)
  obtain s1 where s1: "cstep s x = Inr (s1, snd (astep (abs s) x))" "inv s1"
      "abs s1 = fst (astep (abs s) x)"
    using step [OF Cons.prems(1), of x] Cons.prems(2) by auto
  with Cons.IH [OF s1(2)] Cons.prems(2) obtain s2 where
      "run cstep s1 xs = Inr (s2, snd (run_spec astep (abs s1) xs))" "inv s2"
      "abs s2 = fst (run_spec astep (abs s1) xs)"
    by auto
  with s1 show ?case by (auto simp: Let_def split: prod.splits)
qed

lemma run_no_fault: "inv s \<Longrightarrow> allowed_run astep ok (abs s) xs \<Longrightarrow> \<not> (\<exists>f. run cstep s xs = Inl f)"
  using run_refines by fastforce

end

end
