(* ===== verification/Circular_Buffer.thy ===== *)
theory Circular_Buffer
  imports Kernel_Memory Interfaces
begin

text \<open>
  The circular buffer of \<^verbatim>\<open>aesd-char-driver/aesd-circular-buffer.{h,c}\<close>: ten slots, an
  input and an output offset of type \<open>uint8_t\<close> and a full flag. The abstraction
  \<open>ring_entries\<close> lists the stored entries, oldest first.
\<close>

section \<open>Data and operations\<close>

abbreviation AESDCHAR_MAX_WRITE_OPERATIONS_SUPPORTED :: nat where
  "AESDCHAR_MAX_WRITE_OPERATIONS_SUPPORTED \<equiv> 10"

record aesd_buffer_entry =
  buffptr :: ptr
  entry_size :: size_t

record aesd_circular_buffer =
  entry :: "aesd_buffer_entry list"
  in_offs :: uint8_t
  out_offs :: uint8_t
  full :: bool

text \<open>All bytes zero: a null pointer and size 0.\<close>

definition zero_entry :: aesd_buffer_entry where
  "zero_entry = \<lparr>buffptr = NULL, entry_size = 0\<rparr>"

definition aesd_circular_buffer_init :: "aesd_circular_buffer \<Rightarrow> aesd_circular_buffer" where
  "aesd_circular_buffer_init buffer =
     \<lparr>entry = replicate AESDCHAR_MAX_WRITE_OPERATIONS_SUPPORTED zero_entry,
      in_offs = 0, out_offs = 0, full = False\<rparr>"

text \<open>\<open>(offs + 1) % 10\<close>: the promotion to \<open>int\<close> cannot overflow.\<close>

definition next_offs :: "uint8_t \<Rightarrow> uint8_t" where
  "next_offs offs = of_nat ((unat offs + 1) mod AESDCHAR_MAX_WRITE_OPERATIONS_SUPPORTED)"

text \<open>\<open>None\<close> where the store would fall outside the array.\<close>

definition aesd_circular_buffer_add_entry ::
    "aesd_circular_buffer \<Rightarrow> aesd_buffer_entry \<Rightarrow> aesd_circular_buffer option" where
  "aesd_circular_buffer_add_entry buffer add_entry =
     (if length (entry buffer) \<le> unat (in_offs buffer) then None
      else
        let b1 = buffer\<lparr>entry := (entry buffer)[unat (in_offs buffer) := add_entry]\<rparr>;
            b2 = (if full b1 then b1\<lparr>out_offs := next_offs (out_offs b1)\<rparr> else b1);
            b3 = b2\<lparr>in_offs := next_offs (in_offs b2)\<rparr>
        in Some (b3\<lparr>full := (in_offs b3 = out_offs b3)\<rparr>))"

text \<open>
  The search loop. The result is the slot whose entry holds the byte and the offset in
  that entry (the returned pointer and \<open>*entry_offset_byte_rtn\<close>), or \<open>Some None\<close> for
  \<open>NULL\<close>. The outer \<open>None\<close> stands for a loop that does not end or leaves the array.
\<close>

partial_function (option) find_loop ::
    "aesd_circular_buffer \<Rightarrow> size_t \<Rightarrow> size_t \<Rightarrow> uint8_t \<Rightarrow> (uint8_t \<times> size_t) option option" where
  "find_loop buffer char_offset current_string_size offset =
     (if length (entry buffer) \<le> unat offset then None
      else
        let sz = entry_size (entry buffer ! unat offset);
            current = current_string_size + sz
        in if char_offset \<le> current - 1
           then Some (Some (offset, char_offset - (current - sz)))
           else
             let offset' = next_offs offset
             in if offset' \<noteq> in_offs buffer then find_loop buffer char_offset current offset'
                else Some None)"

declare find_loop.simps [code]

definition aesd_circular_buffer_find_entry_offset_for_fpos ::
    "aesd_circular_buffer \<Rightarrow> size_t \<Rightarrow> (uint8_t \<times> size_t) option option" where
  "aesd_circular_buffer_find_entry_offset_for_fpos buffer char_offset =
     find_loop buffer char_offset 0 (out_offs buffer)"

text \<open>
  \<^verbatim>\<open>AESD_CIRCULAR_BUFFER_FOREACH\<close>: the body, which may fail and change a state, runs on
  every slot in array order, used or not.
\<close>

function foreach_from ::
    "(aesd_buffer_entry \<Rightarrow> 's \<Rightarrow> fault + 's) \<Rightarrow> aesd_circular_buffer \<Rightarrow> nat \<Rightarrow> 's \<Rightarrow> fault + 's" where
  "foreach_from body buffer index s =
     (if index < AESDCHAR_MAX_WRITE_OPERATIONS_SUPPORTED
      then if length (entry buffer) \<le> index then Inl OutOfBounds
           else case body (entry buffer ! index) s of
                  Inl f \<Rightarrow> Inl f
                | Inr s' \<Rightarrow> foreach_from body buffer (index + 1) s'
      else Inr s)"
  by pat_completeness auto
termination
  by (relation "measure (\<lambda>(body, buffer, index, s). 10 - index)") auto

declare foreach_from.simps [simp del]

section \<open>Abstraction and invariant\<close>

definition ring_inv :: "aesd_circular_buffer \<Rightarrow> bool" where
  "ring_inv b \<longleftrightarrow> length (entry b) = 10 \<and> unat (in_offs b) < 10 \<and> unat (out_offs b) < 10
     \<and> (full b \<longrightarrow> in_offs b = out_offs b)"

definition ring_count :: "aesd_circular_buffer \<Rightarrow> nat" where
  "ring_count b = (if full b then 10 else (unat (in_offs b) + 10 - unat (out_offs b)) mod 10)"

definition ring_slot :: "aesd_circular_buffer \<Rightarrow> nat \<Rightarrow> nat" where
  "ring_slot b i = (unat (out_offs b) + i) mod 10"

definition ring_entries :: "aesd_circular_buffer \<Rightarrow> aesd_buffer_entry list" where
  "ring_entries b = map (\<lambda>i. entry b ! ring_slot b i) [0..<ring_count b]"

definition entry_len :: "aesd_buffer_entry \<Rightarrow> nat" where
  "entry_len e = unat (entry_size e)"

text \<open>The slots after the used ones are still as \<open>memset\<close> left them.\<close>

definition ring_fresh :: "aesd_circular_buffer \<Rightarrow> bool" where
  "ring_fresh b \<longleftrightarrow> (\<not> full b \<longrightarrow> out_offs b = 0
     \<and> (\<forall>i < 10. unat (in_offs b) \<le> i \<longrightarrow> entry b ! i = zero_entry))"

lemma unat_next_offs [ring_simps]: "unat (next_offs x) = (unat x + 1) mod 10"
  by (simp add: next_offs_def)

lemma ring_slot_less [simp]: "ring_slot b i < 10"
  by (simp add: ring_slot_def)

lemma unat_ring_slot [simp]: "unat (of_nat (ring_slot b i) :: uint8_t) = ring_slot b i"
  by (rule unat_of_nat_less) (rule less_trans [OF ring_slot_less], simp)

lemma ring_slot_0: "unat (out_offs b) < 10 \<Longrightarrow> ring_slot b 0 = unat (out_offs b)"
  by (simp add: ring_slot_def)

lemma ring_slot_Suc: "ring_slot b (Suc i) = (ring_slot b i + 1) mod 10"
  by (simp add: ring_slot_def mod_simps)

lemma ring_slot_inj: "i < 10 \<Longrightarrow> j < 10 \<Longrightarrow> ring_slot b i = ring_slot b j \<Longrightarrow> i = j"
  unfolding ring_slot_def by (rule mod_shift_inj)

lemma ring_count_le: "ring_inv b \<Longrightarrow> ring_count b \<le> 10"
  by (auto simp: ring_count_def)

lemma ring_count_in_offs: "ring_inv b \<Longrightarrow> ring_slot b (ring_count b) = unat (in_offs b)"
  by (auto simp: ring_slot_def ring_count_def ring_inv_def mod_simps)

lemma ring_count_not_full: "ring_inv b \<Longrightarrow> \<not> full b \<Longrightarrow> ring_count b < 10"
  by (simp add: ring_count_def)

lemma length_ring_entries [simp]: "length (ring_entries b) = ring_count b"
  by (simp add: ring_entries_def)

lemma nth_ring_entries: "i < ring_count b \<Longrightarrow> ring_entries b ! i = entry b ! ring_slot b i"
  by (simp add: ring_entries_def)

section \<open>Adding an entry\<close>

lemma add_entry_eq:
  assumes "ring_inv b"
  shows "aesd_circular_buffer_add_entry b e = Some (b\<lparr>
      entry := (entry b)[unat (in_offs b) := e],
      in_offs := next_offs (in_offs b),
      out_offs := (if full b then next_offs (out_offs b) else out_offs b),
      full := (next_offs (in_offs b) = (if full b then next_offs (out_offs b) else out_offs b))\<rparr>)"
  using assms by (simp add: aesd_circular_buffer_add_entry_def ring_inv_def Let_def)

lemma add_entry_total: "ring_inv b \<Longrightarrow> \<exists>b'. aesd_circular_buffer_add_entry b e = Some b'"
  by (simp add: add_entry_eq)

lemma add_entry_inv:
  "ring_inv b \<Longrightarrow> aesd_circular_buffer_add_entry b e = Some b' \<Longrightarrow> ring_inv b'"
  by (auto simp: add_entry_eq ring_inv_def ring_simps)

lemma add_entry_slot:
  assumes "ring_inv b" and "aesd_circular_buffer_add_entry b e = Some b'"
  shows "ring_slot b' i = (if full b then ring_slot b (Suc i) else ring_slot b i)"
  using assms by (auto simp: add_entry_eq ring_slot_def ring_simps mod_simps)

lemma add_entry_nth:
  assumes "ring_inv b" and "aesd_circular_buffer_add_entry b e = Some b'" and "j < 10"
  shows "entry b' ! j = (if j = unat (in_offs b) then e else entry b ! j)"
  using assms by (auto simp: add_entry_eq ring_inv_def nth_list_update)

lemma next_offs_eq_iff: "next_offs x = y \<longleftrightarrow> (unat x + 1) mod 10 = unat y"
  by (simp add: word_unat_eq_iff ring_simps)

lemma add_entry_count:
  assumes "ring_inv b" and "aesd_circular_buffer_add_entry b e = Some b'"
  shows "ring_count b' = (if full b then 10 else Suc (ring_count b))"
proof (cases "full b")
  case True
  with assms show ?thesis by (auto simp: add_entry_eq ring_inv_def ring_count_def)
next
  case False
  define i o' where io: "i = unat (in_offs b)" "o' = unat (out_offs b)"
  from assms(1) have bounds: "i < 10" "o' < 10" by (simp_all add: ring_inv_def io)
  have "(if (i + 1) mod 10 = o' then 10 else ((i + 1) mod 10 + 10 - o') mod 10)
      = Suc ((i + 10 - o') mod 10)"
    using bounds by (cases "i = 9"; cases "o' \<le> i") (auto simp: mod_if)
  with False assms show ?thesis
    by (auto simp: add_entry_eq ring_count_def next_offs_eq_iff ring_simps io)
qed

lemma ring_entries_add:
  assumes inv: "ring_inv b" and add: "aesd_circular_buffer_add_entry b e = Some b'"
  shows "ring_entries b' = keep_last 10 (ring_entries b @ [e])"
proof (cases "full b")
  case True
  then have c: "ring_count b = 10" by (simp add: ring_count_def)
  have in0: "unat (in_offs b) = ring_slot b 0" and in10: "ring_slot b 10 = unat (in_offs b)"
    using inv True ring_count_in_offs [OF inv] by (simp_all add: ring_inv_def ring_slot_def c)
  have "ring_entries b' = tl (ring_entries b) @ [e]"
  proof (rule nth_equalityI)
    show "length (ring_entries b') = length (tl (ring_entries b) @ [e])"
      using True add_entry_count [OF inv add] by (simp add: c)
    fix i assume "i < length (ring_entries b')"
    then have i: "i < 10" using True add_entry_count [OF inv add] by simp
    have "ring_slot b (Suc i) = unat (in_offs b) \<longleftrightarrow> i = 9"
      using i ring_slot_inj [of "Suc i" 0 b] in10 unfolding in0 by (cases "i = 9") auto
    then show "ring_entries b' ! i = (tl (ring_entries b) @ [e]) ! i"
      using i True add_entry_count [OF inv add] add_entry_slot [OF inv add] add_entry_nth [OF inv add]
      by (simp add: nth_ring_entries nth_append c nth_tl)
  qed
  then show ?thesis by (simp add: keep_last_full_snoc c)
next
  case False
  with inv have c: "ring_count b < 10" by (rule ring_count_not_full)
  have "ring_entries b' = ring_entries b @ [e]"
  proof (rule nth_equalityI)
    show "length (ring_entries b') = length (ring_entries b @ [e])"
      using False add_entry_count [OF inv add] by simp
    fix i assume "i < length (ring_entries b')"
    then have i: "i \<le> ring_count b" using False add_entry_count [OF inv add] by simp
    have "ring_slot b i = unat (in_offs b) \<longleftrightarrow> i = ring_count b"
      using i c ring_slot_inj [of i "ring_count b" b] ring_count_in_offs [OF inv] by auto
    then show "ring_entries b' ! i = (ring_entries b @ [e]) ! i"
      using i False add_entry_count [OF inv add] add_entry_slot [OF inv add] add_entry_nth [OF inv add]
      by (auto simp: nth_ring_entries nth_append)
  qed
  with c show ?thesis by simp
qed

lemma add_entry_fresh:
  assumes "ring_inv b" and "ring_fresh b" and "aesd_circular_buffer_add_entry b e = Some b'"
  shows "ring_fresh b'"
proof (cases "full b \<or> unat (in_offs b) = 9")
  case True
  with assms have "full b'"
    by (auto simp: add_entry_eq ring_fresh_def ring_inv_def next_offs_eq_iff ring_simps)
  then show ?thesis by (simp add: ring_fresh_def)
next
  case False
  then have "unat (in_offs b) < 9" and "out_offs b = 0" and "\<not> full b"
    using assms(1,2) by (auto simp: ring_inv_def ring_fresh_def)
  with assms show ?thesis
    by (auto simp: add_entry_eq ring_fresh_def ring_inv_def ring_simps)
qed

lemma ring_inv_init [simp]: "ring_inv (aesd_circular_buffer_init b)"
  by (simp add: ring_inv_def aesd_circular_buffer_init_def)

lemma ring_entries_init [simp]: "ring_entries (aesd_circular_buffer_init b) = []"
  by (simp add: ring_entries_def ring_count_def aesd_circular_buffer_init_def)

lemma ring_fresh_init [simp]: "ring_fresh (aesd_circular_buffer_init b)"
  by (simp add: ring_fresh_def aesd_circular_buffer_init_def)

section \<open>Searching for a position\<close>

text \<open>The sizes of the stored entries, and a buffer in which no entry is empty.\<close>

abbreviation ring_sizes :: "aesd_circular_buffer \<Rightarrow> nat list" where
  "ring_sizes b \<equiv> map entry_len (ring_entries b)"

definition ring_sized :: "aesd_circular_buffer \<Rightarrow> bool" where
  "ring_sized b \<longleftrightarrow> (\<forall>e \<in> set (ring_entries b). 0 < entry_len e) \<and> sum_list (ring_sizes b) < 2 ^ 64"

definition ring_hit :: "aesd_circular_buffer \<Rightarrow> nat \<Rightarrow> (nat \<times> nat) option \<Rightarrow> (uint8_t \<times> size_t) option" where
  "ring_hit b k r = map_option (\<lambda>(j, q). (of_nat (ring_slot b (k + j)), of_nat q)) r"

lemma ring_hit_shift: "ring_hit b k (map_option (\<lambda>(j, q). (Suc j, q)) r) = ring_hit b (Suc k) r"
  by (cases r) (auto simp: ring_hit_def)

lemma find_loop_step:
  assumes inv: "ring_inv b" and sized: "ring_sized b" and k: "k < ring_count b"
    and cur: "unat current = sum_list (take k (ring_sizes b))"
  shows "find_loop b off current (of_nat (ring_slot b k)) =
    (if unat off < sum_list (take (Suc k) (ring_sizes b))
     then Some (Some (of_nat (ring_slot b k), off - current))
     else if Suc k < ring_count b
     then find_loop b off (current + entry_size (ring_entries b ! k)) (of_nat (ring_slot b (Suc k)))
     else Some None)"
proof -
  let ?sz = "entry_size (ring_entries b ! k)"
  have sum: "sum_list (take (Suc k) (ring_sizes b)) = unat current + unat ?sz"
    using k cur by (simp add: sum_list_take_Suc entry_len_def)
  have "unat current + unat ?sz < 2 ^ 64"
    using sized sum_list_take_le [of "Suc k" "ring_sizes b"] unfolding ring_sized_def sum by linarith
  then have add: "unat (current + ?sz) = unat current + unat ?sz"
    by (intro unat_add_no_wrap) simp
  have "0 < unat ?sz"
    using sized k nth_mem [of k "ring_entries b"] by (auto simp: ring_sized_def entry_len_def)
  then have pos: "0 < current + ?sz"
    using add by (simp add: word_less_nat_alt)
  have test: "off \<le> current + ?sz - 1 \<longleftrightarrow> unat off < sum_list (take (Suc k) (ring_sizes b))"
    unfolding le_minus_one_iff [OF pos] by (simp add: word_less_nat_alt add sum)
  have nxt: "next_offs (of_nat (ring_slot b k)) = of_nat (ring_slot b (Suc k))"
    by (simp add: next_offs_def ring_slot_Suc)
  have c: "ring_count b \<le> 10" using inv by (rule ring_count_le)
  have "ring_slot b (Suc k) = unat (in_offs b) \<longleftrightarrow> Suc k = ring_count b"
  proof (cases "Suc k = ring_count b")
    case False
    with k c have "Suc k < ring_count b" by simp
    moreover have "full b \<longrightarrow> unat (in_offs b) = ring_slot b 0"
      using inv by (auto simp: ring_inv_def ring_slot_def)
    ultimately show ?thesis
      using c ring_slot_inj [of "Suc k" "ring_count b" b] ring_slot_inj [of "Suc k" 0 b]
        ring_count_in_offs [OF inv] ring_count_not_full [OF inv]
      by (cases "full b") auto
  qed (simp add: ring_count_in_offs [OF inv])
  then have stop: "(of_nat (ring_slot b (Suc k)) :: uint8_t) = in_offs b \<longleftrightarrow> Suc k = ring_count b"
    by (simp add: word_unat_eq_iff)
  have "entry b ! ring_slot b k = ring_entries b ! k"
    using k by (simp add: nth_ring_entries)
  moreover have "ring_slot b k < length (entry b)"
    using inv by (simp add: ring_inv_def)
  ultimately show ?thesis
    using k by (subst find_loop.simps) (auto simp: Let_def nxt stop test)
qed

lemma find_loop_correct:
  assumes inv: "ring_inv b" and sized: "ring_sized b"
  shows "k < ring_count b \<Longrightarrow> unat current = sum_list (take k (ring_sizes b)) \<Longrightarrow>
    sum_list (take k (ring_sizes b)) \<le> unat off \<Longrightarrow>
    find_loop b off current (of_nat (ring_slot b k)) =
      Some (ring_hit b k (locate (drop k (ring_sizes b)) (unat off - sum_list (take k (ring_sizes b)))))"
proof (induction "ring_count b - k" arbitrary: k current)
  case 0
  then show ?case by simp
next
  case (Suc n)
  let ?ss = "ring_sizes b"
  have k: "k < ring_count b" by fact
  have drop: "drop k ?ss = ?ss ! k # drop (Suc k) ?ss"
    using k by (subst Cons_nth_drop_Suc [symmetric]) auto
  have take: "sum_list (take (Suc k) ?ss) = sum_list (take k ?ss) + ?ss ! k"
    using k by (simp add: sum_list_take_Suc)
  note step = find_loop_step [OF inv sized k Suc.prems(2)]
  show ?case
  proof (cases "unat off < sum_list (take (Suc k) ?ss)")
    case True
    have "current \<le> off" using Suc.prems by (simp add: word_le_nat_alt)
    then have "off - current = of_nat (unat off - sum_list (take k ?ss))"
      using Suc.prems(2) by (metis unat_sub_no_wrap word_of_unat)
    with True Suc.prems(3) show ?thesis
      unfolding step drop by (simp add: take ring_hit_def)
  next
    case False
    then have past: "\<not> unat off - sum_list (take k ?ss) < ?ss ! k"
      using Suc.prems(3) by (simp add: take)
    show ?thesis
    proof (cases "Suc k < ring_count b")
      case True
      have "unat (current + entry_size (ring_entries b ! k)) = sum_list (take (Suc k) ?ss)"
        using k Suc.prems(2) sized sum_list_take_le [of "Suc k" ?ss]
        by (subst unat_add_no_wrap) (auto simp: take entry_len_def ring_sized_def)
      then have "find_loop b off (current + entry_size (ring_entries b ! k)) (of_nat (ring_slot b (Suc k))) =
          Some (ring_hit b (Suc k) (locate (drop (Suc k) ?ss) (unat off - sum_list (take (Suc k) ?ss))))"
        using Suc.hyps(2) False True by (intro Suc.hyps(1)) auto
      with False True past show ?thesis
        unfolding step drop by (simp add: take ring_hit_shift)
    next
      case last: False
      then have "drop (Suc k) ?ss = []" using k by simp
      with False last past show ?thesis
        unfolding step drop by (simp add: ring_hit_def)
    qed
  qed
qed

text \<open>The whole search, against the list of sizes.\<close>

lemma find_entry_correct:
  assumes "ring_inv b" and "ring_sized b" and "ring_entries b \<noteq> []"
  shows "aesd_circular_buffer_find_entry_offset_for_fpos b off =
    Some (ring_hit b 0 (locate (ring_sizes b) (unat off)))"
proof -
  have "0 < ring_count b"
    using assms(3) by (metis length_greater_0_conv length_ring_entries)
  moreover have "of_nat (ring_slot b 0) = out_offs b"
    using assms(1) by (simp add: ring_slot_0 ring_inv_def)
  ultimately show ?thesis
    using find_loop_correct [OF assms(1,2), of 0 0 off]
    by (simp add: aesd_circular_buffer_find_entry_offset_for_fpos_def)
qed

text \<open>
  An empty buffer: the first slot has size 0, \<open>current_string_size - 1\<close> wraps to the
  largest \<open>size_t\<close>, and every position is reported as found in that slot.
\<close>

lemma find_entry_empty:
  assumes "ring_inv b" and "ring_fresh b" and "ring_entries b = []"
  shows "aesd_circular_buffer_find_entry_offset_for_fpos b off = Some (Some (0, off))"
proof -
  have "ring_count b = 0" using assms(3) by (metis length_ring_entries list.size(3))
  then have "\<not> full b" and "in_offs b = 0" and "out_offs b = 0" and "entry b ! 0 = zero_entry"
    using assms(1,2) ring_count_in_offs [OF assms(1)]
    by (auto simp: ring_count_def ring_fresh_def ring_slot_def split: if_splits)
       (auto simp: ring_inv_def unat_eq_zero)
  moreover have "0 < length (entry b)" using assms(1) by (simp add: ring_inv_def)
  ultimately show ?thesis
    by (simp add: aesd_circular_buffer_find_entry_offset_for_fpos_def find_loop.simps zero_entry_def)
qed

text \<open>The search ends after at most ten slots, whatever the sizes are.\<close>

lemma find_loop_ends:
  assumes inv: "ring_inv b" and m: "m = (if ring_count b = 0 then 10 else ring_count b)"
  shows "k < m \<Longrightarrow> \<exists>r. find_loop b off current (of_nat (ring_slot b k)) = Some r"
proof (induction "m - k" arbitrary: k current)
  case 0
  then show ?case by simp
next
  case (Suc n)
  have wrap: "ring_slot b 10 = ring_slot b 0" by (simp add: ring_slot_def)
  have "of_nat (ring_slot b m) = in_offs b"
    using ring_count_in_offs [OF inv] wrap
    by (cases "ring_count b = 0") (simp_all add: m word_unat_eq_iff)
  then have last: "next_offs (of_nat (ring_slot b k)) = in_offs b" if "Suc k = m"
    using that by (simp add: next_offs_def) (metis Suc_eq_plus1 ring_slot_Suc)
  have "next_offs (of_nat (ring_slot b k)) = of_nat (ring_slot b (Suc k))"
    by (simp add: next_offs_def ring_slot_Suc)
  moreover have "ring_slot b k < length (entry b)" using inv by (simp add: ring_inv_def)
  moreover have "n = m - Suc k" using Suc.hyps(2) by simp
  ultimately show ?case
    using Suc.hyps(1) [of "Suc k"] Suc.prems last
    by (subst find_loop.simps) (cases "Suc k = m"; simp add: Let_def)
qed

lemma find_entry_ends:
  assumes "ring_inv b"
  shows "\<exists>r. aesd_circular_buffer_find_entry_offset_for_fpos b off = Some r"
proof -
  have "of_nat (ring_slot b 0) = out_offs b"
    using assms by (simp add: ring_slot_0 ring_inv_def)
  then show ?thesis
    using find_loop_ends [OF assms refl, of 0 off 0] ring_count_le [OF assms]
    by (simp add: aesd_circular_buffer_find_entry_offset_for_fpos_def split: if_splits)
qed

section \<open>The buffer as a bounded log with lookup\<close>

text \<open>The driver uses the buffer through these two contracts.\<close>

interpretation ring: bounded_log aesd_circular_buffer_add_entry ring_entries ring_inv 10
proof unfold_locales
  fix b e
  assume inv: "ring_inv b"
  obtain b' where "aesd_circular_buffer_add_entry b e = Some b'"
    using add_entry_total [OF inv] by blast
  then show "\<exists>b'. aesd_circular_buffer_add_entry b e = Some b' \<and> ring_inv b'
      \<and> ring_entries b' = keep_last 10 (ring_entries b @ [e])"
    using add_entry_inv [OF inv] ring_entries_add [OF inv] by blast
next
  show "length (ring_entries b) \<le> 10" if "ring_inv b" for b
    using ring_count_le [OF that] by simp
qed simp

interpretation ring: indexed_log aesd_circular_buffer_add_entry ring_entries ring_inv 10 entry_len
  "\<lambda>b p. map_option (map_option (\<lambda>(s, q). (entry b ! unat s, unat q)))
     (aesd_circular_buffer_find_entry_offset_for_fpos b (of_nat p))"
proof unfold_locales
  fix b and p :: nat
  assume inv: "ring_inv b" and ne: "ring_entries b \<noteq> []"
    and pos: "\<forall>e \<in> set (ring_entries b). 0 < entry_len e"
    and total: "sum_list (ring_sizes b) < 2 ^ 64" and p: "p < 2 ^ 64"
  have sized: "ring_sized b" using pos total by (simp add: ring_sized_def)
  have "map_option (\<lambda>(s, q). (entry b ! unat s, unat q)) (ring_hit b 0 (locate (ring_sizes b) p))
      = map_option (\<lambda>(k, q). (ring_entries b ! k, q)) (locate (ring_sizes b) p)"
  proof (cases "locate (ring_sizes b) p")
    case (Some kq)
    then obtain k q where kq: "locate (ring_sizes b) p = Some (k, q)" by (cases kq) auto
    have "k < ring_count b" and "q < 2 ^ 64"
      using locate_Some [OF kq] p by auto
    then show ?thesis using kq by (simp add: ring_hit_def nth_ring_entries)
  qed (simp add: ring_hit_def)
  then show "map_option (map_option (\<lambda>(s, q). (entry b ! unat s, unat q)))
      (aesd_circular_buffer_find_entry_offset_for_fpos b (of_nat p))
    = Some (map_option (\<lambda>(k, q). (ring_entries b ! k, q)) (locate (ring_sizes b) p))"
    using find_entry_correct [OF inv sized ne, of "of_nat p"] p by simp
qed

end
