(* ===== verification/Ring_Properties.thy ===== *)
theory Ring_Properties
  imports Circular_Buffer
begin

text \<open>The properties of the circular buffer on its own.\<close>

definition demo_entry :: "nat \<Rightarrow> aesd_buffer_entry" where
  "demo_entry n = \<lparr>buffptr = Ptr n, entry_size = of_nat n\<rparr>"

text \<open>Entries of 2 and 3 bytes after an initialisation.\<close>

definition demo_ring :: aesd_circular_buffer where
  "demo_ring = \<lparr>entry = demo_entry 2 # demo_entry 3 # replicate 8 zero_entry,
     in_offs = 2, out_offs = 0, full = False\<rparr>"

lemma demo_ring_facts:
  "ring_inv demo_ring" "ring_sized demo_ring" "ring_entries demo_ring = [demo_entry 2, demo_entry 3]"
proof -
  show "ring_entries demo_ring = [demo_entry 2, demo_entry 3]"
    by (simp add: demo_ring_def ring_entries_def ring_count_def ring_slot_def upt_rec)
  then show "ring_sized demo_ring"
    by (simp add: ring_sized_def entry_len_def demo_entry_def)
qed (simp add: ring_inv_def demo_ring_def)

text \<open>
  C12: Starting from \<open>aesd_circular_buffer_init\<close>, adding any list of entries never leaves the
  array; afterwards the buffer holds the last ten of them in the order they were added, the
  offsets are in range, and the full flag is set exactly when ten or more were added.
\<close>

theorem ring_holds_last_ten:
  "\<exists>b'. add_all aesd_circular_buffer_add_entry (aesd_circular_buffer_init b) es = Some b'
    \<and> ring_inv b' \<and> ring_entries b' = keep_last 10 es \<and> (full b' \<longleftrightarrow> 10 \<le> length es)"
proof -
  obtain b' where b': "add_all aesd_circular_buffer_add_entry (aesd_circular_buffer_init b) es = Some b'"
    "ring_inv b'" "ring_entries b' = keep_last 10 es"
    using ring.add_all_ok [OF ring_inv_init, of b es] by auto
  have "ring_count b' = min 10 (length es)"
    using b'(3) by (metis length_keep_last length_ring_entries)
  then have "full b' \<longleftrightarrow> 10 \<le> length es"
    using ring_count_not_full [OF b'(2)] by (cases "full b'") (simp_all add: ring_count_def min_def split: if_splits)
  with b' show ?thesis by blast
qed

text \<open>
  C13: The search for a file position. In a buffer with entries, all of non-zero size, the
  result is \<open>NULL\<close> if the position lies at or past the total size; otherwise it is the slot of
  the one entry that covers the position when the entries are laid end to end from the
  oldest, with the offset of the position in that entry, whatever the wrap-around of the
  slots. In a buffer that never held an entry it is, wrongly, the first slot for every
  position.
\<close>

theorem find_entry_covers_position:
  assumes inv: "ring_inv b"
  shows "(ring_entries b \<noteq> [] \<and> ring_sized b \<longrightarrow>
      sum_list (ring_sizes b) \<le> unat off
        \<and> aesd_circular_buffer_find_entry_offset_for_fpos b off = Some None
      \<or> (\<exists>k q. k < ring_count b \<and> q < entry_len (ring_entries b ! k)
        \<and> unat off = sum_list (take k (ring_sizes b)) + q
        \<and> aesd_circular_buffer_find_entry_offset_for_fpos b off = Some (Some (of_nat (ring_slot b k), of_nat q))))
    \<and> (ring_entries b = [] \<and> ring_fresh b \<longrightarrow>
      aesd_circular_buffer_find_entry_offset_for_fpos b off = Some (Some (0, off)))"
proof (intro conjI impI; elim conjE)
  assume ne: "ring_entries b \<noteq> []" and sized: "ring_sized b"
  show "sum_list (ring_sizes b) \<le> unat off
        \<and> aesd_circular_buffer_find_entry_offset_for_fpos b off = Some None
      \<or> (\<exists>k q. k < ring_count b \<and> q < entry_len (ring_entries b ! k)
        \<and> unat off = sum_list (take k (ring_sizes b)) + q
        \<and> aesd_circular_buffer_find_entry_offset_for_fpos b off = Some (Some (of_nat (ring_slot b k), of_nat q)))"
  proof (cases "locate (ring_sizes b) (unat off)")
    case None
    then show ?thesis
      using find_entry_correct [OF inv sized ne, of off] by (simp add: locate_None_iff ring_hit_def)
  next
    case (Some kq)
    then obtain k q where kq: "locate (ring_sizes b) (unat off) = Some (k, q)" by (cases kq) auto
    with locate_Some [OF kq] find_entry_correct [OF inv sized ne, of off] show ?thesis
      by (auto simp: ring_hit_def)
  qed
qed (rule find_entry_empty [OF inv])

theorem find_entry_covers_position_witness:
  "aesd_circular_buffer_find_entry_offset_for_fpos demo_ring 3 = Some (Some (1, 1))"
proof -
  have lens: "entry_len (demo_entry 2) = 2" "entry_len (demo_entry 3) = 3"
    by (simp_all add: demo_entry_def entry_len_def)
  have "ring_count demo_ring = 2" by (simp add: demo_ring_def ring_count_def)
  with find_entry_covers_position [OF demo_ring_facts(1), of 3] demo_ring_facts(2)
  obtain k q where kq: "k < 2" "q < entry_len ([demo_entry 2, demo_entry 3] ! k)" "sum_list (take k [2, 3]) + q = 3"
    and found: "aesd_circular_buffer_find_entry_offset_for_fpos demo_ring 3 = Some (Some (of_nat (ring_slot demo_ring k), of_nat q))"
    by (auto simp: demo_ring_facts lens)
  from kq have "k = 1 \<and> q = 1" by (cases k) (simp_all add: lens)
  with found show ?thesis by (simp add: ring_slot_def demo_ring_def)
qed

end
