(* ===== verification/Char_Driver.thy ===== *)
theory Char_Driver
  imports Circular_Buffer
begin

text \<open>
  The character driver of \<^verbatim>\<open>aesd-char-driver/main.c\<close>, with \<^verbatim>\<open>aesdchar.h\<close> and
  \<^verbatim>\<open>aesd_ioctl.h\<close>: the device record, the file operations, and module load and unload.
  Each operation returns \<open>Inl\<close> of a fault or \<open>Inr\<close> of the new state and the C result.
  A file operation is one atomic step: it runs between \<open>mutex_lock_interruptible\<close> and
  \<open>mutex_unlock\<close> of the device.
\<close>

section \<open>State\<close>

record aesd_dev =
  p_write_buffer :: ptr
  write_buffer_size :: size_t
  lock_held :: bool
  circular_buffer :: aesd_circular_buffer

text \<open>The device and the kernel memory it allocates from.\<close>

record driver =
  dev :: aesd_dev
  mem :: heap

text \<open>\<open>private_data\<close> and \<open>i_cdev\<close> either point to the one device or are unset.\<close>

datatype dev_ref = no_device | aesd_device

record inode =
  i_cdev :: dev_ref

record kfile =
  private_data :: dev_ref
  f_pos :: loff_t

record aesd_seekto =
  write_cmd :: uint32_t
  write_cmd_offset :: uint32_t

text \<open>
  \<open>_IOWR(0x16, 1, struct aesd_seekto)\<close>: direction 3 in bits 30 and 31, the size 8 of the
  structure from bit 16, the magic number from bit 8, the command number from bit 0.
\<close>

definition AESDCHAR_IOCSEEKTO :: uint32_t where
  "AESDCHAR_IOCSEEKTO = 3 * 2 ^ 30 + 8 * 2 ^ 16 + 0x16 * 2 ^ 8 + 1"

text \<open>The structure in user memory, in the byte order of the target (little endian).\<close>

definition le32 :: "byte list \<Rightarrow> uint32_t" where
  "le32 bs = of_nat (unat (bs ! 0) + 256 * unat (bs ! 1) + 65536 * unat (bs ! 2)
     + 16777216 * unat (bs ! 3))"

definition bytes32 :: "uint32_t \<Rightarrow> byte list" where
  "bytes32 w = [of_nat (unat w), of_nat (unat w div 256), of_nat (unat w div 65536),
     of_nat (unat w div 16777216)]"

definition seekto_of_bytes :: "byte list \<Rightarrow> aesd_seekto" where
  "seekto_of_bytes bs = \<lparr>write_cmd = le32 bs, write_cmd_offset = le32 (drop 4 bs)\<rparr>"

definition bytes_of_seekto :: "aesd_seekto \<Rightarrow> byte list" where
  "bytes_of_seekto s = bytes32 (write_cmd s) @ bytes32 (write_cmd_offset s)"

section \<open>Locking\<close>

definition set_lock :: "bool \<Rightarrow> driver \<Rightarrow> driver" where
  "set_lock v d = d\<lparr>dev := (dev d)\<lparr>lock_held := v\<rparr>\<rparr>"

text \<open>Result and state after \<open>mutex_lock_interruptible(&p_dev->lock)\<close>.\<close>

definition lock_dev :: "kernel \<Rightarrow> driver \<Rightarrow> fault + (int \<times> driver)" where
  "lock_dev K d =
     (if mutex_lock_interruptible K \<noteq> 0 then Inr (mutex_lock_interruptible K, d)
      else if lock_held (dev d) then Inl SelfDeadlock
      else Inr (0, set_lock True d))"

section \<open>open, release, read, write\<close>

definition aesd_open :: "inode \<Rightarrow> kfile \<Rightarrow> int \<times> kfile" where
  "aesd_open inode filp = (0, filp\<lparr>private_data := i_cdev inode\<rparr>)"

definition aesd_release :: "inode \<Rightarrow> kfile \<Rightarrow> int \<times> kfile" where
  "aesd_release inode filp = (0, filp)"

text \<open>
  The result lists the state, the file with its new position, the bytes placed in the
  user's buffer and the return value.
\<close>

definition aesd_read ::
    "kernel \<Rightarrow> driver \<Rightarrow> kfile \<Rightarrow> size_t \<Rightarrow> fault + (driver \<times> kfile \<times> byte list \<times> size_t)" where
  "aesd_read K d filp count =
     (if private_data filp = no_device then Inl NullDeref
      else case lock_dev K d of
        Inl e \<Rightarrow> Inl e
      | Inr (rc, d1) \<Rightarrow>
          if rc \<noteq> 0 then Inr (d1, filp, [], - ERESTARTSYS)
          else case aesd_circular_buffer_find_entry_offset_for_fpos (circular_buffer (dev d1)) (f_pos filp) of
              None \<Rightarrow> Inl NoReturn
            | Some None \<Rightarrow> Inr (set_lock False d1, filp, [], 0)
            | Some (Some (slot, offset)) \<Rightarrow>
                let p_entry = entry (circular_buffer (dev d1)) ! unat slot;
                    bytes_available = entry_size p_entry - offset;
                    bytes_to_copy = (if count < bytes_available then count else bytes_available)
                in case load_bytes (mem d1) (buffptr p_entry) (unat offset) (unat bytes_to_copy) of
                     Inl e \<Rightarrow> Inl e
                   | Inr bs \<Rightarrow>
                       if copy_to_user K bs \<noteq> 0
                       then Inr (set_lock False d1, filp, take (length bs - copy_to_user K bs) bs, 0)
                       else Inr (set_lock False d1, filp\<lparr>f_pos := f_pos filp + bytes_to_copy\<rparr>, bs,
                              bytes_to_copy))"

text \<open>A full buffer gives up its oldest block before the new entry overwrites the slot.\<close>

definition free_oldest :: "kernel \<Rightarrow> heap \<Rightarrow> aesd_circular_buffer \<Rightarrow> fault + heap" where
  "free_oldest K h cb =
     (if full cb then
        (if length (entry cb) \<le> unat (out_offs cb) then Inl OutOfBounds
         else call_kfree K h (buffptr (entry cb ! unat (out_offs cb))))
      else Inr h)"

text \<open>\<open>buf\<close> is the user memory the write starts at, \<open>count\<close> the requested length.\<close>

definition aesd_write ::
    "kernel \<Rightarrow> driver \<Rightarrow> kfile \<Rightarrow> byte list \<Rightarrow> size_t \<Rightarrow> fault + (driver \<times> size_t)" where
  "aesd_write K d filp buf count =
     (if private_data filp = no_device then Inl NullDeref
      else case lock_dev K d of
        Inl e \<Rightarrow> Inl e
      | Inr (rc, d1) \<Rightarrow>
          if rc \<noteq> 0 then Inr (d1, - ERESTARTSYS)
          else
          let dv = dev d1; old = p_write_buffer dv; wbs = write_buffer_size dv in
          case call_krealloc K (mem d1) old (unat (count + wbs)) of
            Inl e \<Rightarrow> Inl e
          | Inr (p_tmp, h1) \<Rightarrow>
            if p_tmp = NULL then
              (case call_kfree K h1 old of
                 Inl e \<Rightarrow> Inl e
               | Inr h2 \<Rightarrow> Inr (set_lock False (d1\<lparr>mem := h2\<rparr>), - ENOMEM))
            else
            let dv1 = dv\<lparr>p_write_buffer := p_tmp\<rparr>;
                (bs, left) = copy_from_user K buf (unat count)
            in case store_bytes h1 p_tmp (unat wbs) bs of
                 Inl e \<Rightarrow> Inl e
               | Inr h2 \<Rightarrow>
                 if left \<noteq> 0 then Inr (set_lock False \<lparr>dev = dv1, mem = h2\<rparr>, - EFAULT)
                 else
                 let dv2 = dv1\<lparr>write_buffer_size := wbs + count\<rparr> in
                 case load_bytes h2 p_tmp 0 (unat (wbs + count)) of
                   Inl e \<Rightarrow> Inl e
                 | Inr content \<Rightarrow>
                   if newline \<notin> set content then Inr (set_lock False \<lparr>dev = dv2, mem = h2\<rparr>, count)
                   else
                   let cb = circular_buffer dv2;
                       new = \<lparr>buffptr = p_tmp, entry_size = wbs + count\<rparr>
                   in case free_oldest K h2 cb of
                        Inl e \<Rightarrow> Inl e
                      | Inr h3 \<Rightarrow>
                        (case aesd_circular_buffer_add_entry cb new of
                           None \<Rightarrow> Inl OutOfBounds
                         | Some cb' \<Rightarrow>
                             Inr (set_lock False
                               \<lparr>dev = dv2\<lparr>circular_buffer := cb', write_buffer_size := 0,
                                  p_write_buffer := NULL\<rparr>, mem = h3\<rparr>, count)))"

section \<open>llseek and ioctl\<close>

text \<open>
  \<open>for (idx = from; idx != stop; idx = (idx + 1) % 10) acc += entry[idx].size;\<close> with an
  \<open>int\<close> accumulator: the sum is formed in \<open>size_t\<close> and converted back. \<open>None\<close> where the
  index leaves the array or the loop does not end.
\<close>

partial_function (option) sum_sizes ::
    "aesd_circular_buffer \<Rightarrow> nat \<Rightarrow> nat \<Rightarrow> c_int \<Rightarrow> c_int option" where
  "sum_sizes cb idx stop acc =
     (if idx = stop then Some acc
      else if length (entry cb) \<le> idx then None
      else sum_sizes cb ((idx + 1) mod AESDCHAR_MAX_WRITE_OPERATIONS_SUPPORTED) stop
             (ucast (scast acc + entry_size (entry cb ! idx))))"

declare sum_sizes.simps [code]

text \<open>The common end of the three cases: reject a negative position, else move the file.\<close>

definition set_pos :: "driver \<Rightarrow> kfile \<Rightarrow> loff_t \<Rightarrow> fault + (driver \<times> kfile \<times> loff_t)" where
  "set_pos d filp newpos =
     (if sint newpos < 0 then Inr (d, filp, - EINVAL)
      else Inr (d, filp\<lparr>f_pos := newpos\<rparr>, newpos))"

definition aesd_llseek ::
    "kernel \<Rightarrow> driver \<Rightarrow> kfile \<Rightarrow> loff_t \<Rightarrow> int \<Rightarrow> fault + (driver \<times> kfile \<times> loff_t)" where
  "aesd_llseek K d filp off whence =
     (if whence = 0 then set_pos d filp off
      else if whence = 1 then set_pos d filp (f_pos filp + off)
      else if whence = 2 then
        (if private_data filp = no_device then Inl NullDeref
         else case lock_dev K d of
           Inl e \<Rightarrow> Inl e
         | Inr (rc, d1) \<Rightarrow>
             if rc \<noteq> 0 then Inr (d1, filp, - ERESTARTSYS)
             else let cb = circular_buffer (dev d1) in
               case sum_sizes cb (unat (out_offs cb)) (unat (in_offs cb)) 0 of
                 None \<Rightarrow> Inl NoReturn
               | Some file_size \<Rightarrow> set_pos (set_lock False d1) filp (scast (file_size - 1) + off))
      else Inr (d, filp, - EINVAL))"

definition aesd_ioctl ::
    "kernel \<Rightarrow> driver \<Rightarrow> kfile \<Rightarrow> uint32_t \<Rightarrow> byte list \<Rightarrow> fault + (driver \<times> kfile \<times> c_int)" where
  "aesd_ioctl K d filp cmd arg =
     (if cmd = AESDCHAR_IOCSEEKTO then
        let (bs, left) = copy_from_user K arg 8; seekto = seekto_of_bytes bs in
        if left \<noteq> 0 then Inr (d, filp, - EFAULT)
        else if private_data filp = no_device then Inl NullDeref
        else case lock_dev K d of
            Inl e \<Rightarrow> Inl e
          | Inr (rc, d1) \<Rightarrow>
            if rc \<noteq> 0 then Inr (d1, filp, - ERESTARTSYS)
            else if of_nat AESDCHAR_MAX_WRITE_OPERATIONS_SUPPORTED < write_cmd seekto
            then Inr (set_lock False d1, filp, - EINVAL)
            else
            let cb = circular_buffer (dev d1);
                cmd_idx = unat (write_cmd seekto + ucast (out_offs cb))
                            mod AESDCHAR_MAX_WRITE_OPERATIONS_SUPPORTED
            in if length (entry cb) \<le> cmd_idx then Inl OutOfBounds
               else
               let cmd_size = (ucast (entry_size (entry cb ! cmd_idx)) :: c_int) in
               if write_cmd_offset seekto < cmd_size then
                 (case sum_sizes cb (unat (out_offs cb)) cmd_idx 0 of
                    None \<Rightarrow> Inl NoReturn
                  | Some start \<Rightarrow>
                      Inr (set_lock False d1,
                        filp\<lparr>f_pos := f_pos filp + scast (start + write_cmd_offset seekto)\<rparr>, 0))
               else Inr (set_lock False d1, filp, - EINVAL)
      else Inr (d, filp, - EINVAL))"

section \<open>The table of operations\<close>

record file_operations =
  read_op :: "kernel \<Rightarrow> driver \<Rightarrow> kfile \<Rightarrow> size_t \<Rightarrow> fault + (driver \<times> kfile \<times> byte list \<times> size_t)"
  write_op :: "kernel \<Rightarrow> driver \<Rightarrow> kfile \<Rightarrow> byte list \<Rightarrow> size_t \<Rightarrow> fault + (driver \<times> size_t)"
  open_op :: "inode \<Rightarrow> kfile \<Rightarrow> int \<times> kfile"
  release_op :: "inode \<Rightarrow> kfile \<Rightarrow> int \<times> kfile"
  llseek_op :: "kernel \<Rightarrow> driver \<Rightarrow> kfile \<Rightarrow> loff_t \<Rightarrow> int \<Rightarrow> fault + (driver \<times> kfile \<times> loff_t)"
  unlocked_ioctl :: "kernel \<Rightarrow> driver \<Rightarrow> kfile \<Rightarrow> uint32_t \<Rightarrow> byte list \<Rightarrow> fault + (driver \<times> kfile \<times> c_int)"

definition aesd_fops :: file_operations where
  "aesd_fops = \<lparr>read_op = aesd_read, write_op = aesd_write, open_op = aesd_open, release_op = aesd_release,
     llseek_op = aesd_llseek, unlocked_ioctl = aesd_ioctl\<rparr>"

lemma aesd_fops_sel [simp]:
  "read_op aesd_fops = aesd_read" "write_op aesd_fops = aesd_write" "open_op aesd_fops = aesd_open"
  "release_op aesd_fops = aesd_release" "llseek_op aesd_fops = aesd_llseek" "unlocked_ioctl aesd_fops = aesd_ioctl"
  by (simp_all add: aesd_fops_def)

section \<open>Module load and unload\<close>

text \<open>
  The kernel's registration services: the number region that \<open>alloc_chrdev_region\<close> assigns
  (with its result), the device-number macros, and the result of \<open>cdev_add\<close> for a number.
\<close>

record chrdev_api =
  alloc_chrdev_region :: "uint32_t \<Rightarrow> int \<times> uint32_t"
  MAJOR :: "uint32_t \<Rightarrow> uint32_t"
  MKDEV :: "uint32_t \<Rightarrow> uint32_t \<Rightarrow> uint32_t"
  cdev_add :: "uint32_t \<Rightarrow> int"

text \<open>The module's globals and what it has registered with the kernel.\<close>

record module =
  aesd_major :: uint32_t
  aesd_minor :: uint32_t
  region_held :: "uint32_t option"
  cdev_live :: "uint32_t option"
  drv :: driver

definition aesd_setup_cdev :: "chrdev_api \<Rightarrow> module \<Rightarrow> int \<times> module" where
  "aesd_setup_cdev C m =
     (let devno = MKDEV C (aesd_major m) (aesd_minor m); err = cdev_add C devno
      in (err, if err = 0 then m\<lparr>cdev_live := Some devno\<rparr> else m))"

text \<open>\<open>memset(&aesd_device, 0, sizeof(struct aesd_dev))\<close>\<close>

definition zero_dev :: aesd_dev where
  "zero_dev = \<lparr>p_write_buffer = NULL, write_buffer_size = 0, lock_held = False,
     circular_buffer = \<lparr>entry = replicate AESDCHAR_MAX_WRITE_OPERATIONS_SUPPORTED zero_entry,
       in_offs = 0, out_offs = 0, full = False\<rparr>\<rparr>"

definition aesd_init_module :: "chrdev_api \<Rightarrow> module \<Rightarrow> int \<times> module" where
  "aesd_init_module C m =
     (let (result, devno) = alloc_chrdev_region C (aesd_minor m);
          m1 = m\<lparr>aesd_major := MAJOR C devno\<rparr>
      in if result < 0 then (result, m1)
         else
           let dv = zero_dev\<lparr>circular_buffer := aesd_circular_buffer_init (circular_buffer zero_dev),
                      lock_held := False\<rparr>;
               (result', m2) = aesd_setup_cdev C (m1\<lparr>region_held := Some devno, drv := (drv m1)\<lparr>dev := dv\<rparr>\<rparr>)
           in (result', if result' \<noteq> 0 then m2\<lparr>region_held := None\<rparr> else m2))"

text \<open>\<open>cdev_del\<close>, then the region of the given number is released.\<close>

definition aesd_cleanup_module :: "chrdev_api \<Rightarrow> kernel \<Rightarrow> module \<Rightarrow> fault + module" where
  "aesd_cleanup_module C K m =
     (let devno = MKDEV C (aesd_major m) (aesd_minor m) in
      case foreach_from (\<lambda>e h. call_kfree K h (buffptr e)) (circular_buffer (dev (drv m))) 0 (mem (drv m)) of
        Inl e \<Rightarrow> Inl e
      | Inr h \<Rightarrow> Inr (m\<lparr>drv := (drv m)\<lparr>mem := h\<rparr>, cdev_live := None,
          region_held := (if region_held m = Some devno then None else region_held m)\<rparr>))"

end
