(* ===== verification/Driver_Heap.thy ===== *)
theory Driver_Heap
  imports Char_Driver
begin

text \<open>
  Ownership of kernel memory by the driver: the live blocks are exactly those of the stored
  entries and of the pending write buffer, each owned once. The lemmas follow the memory
  steps of \<open>aesd_write\<close>: enlarge the pending block, append to it, free the oldest entry,
  turn the pending block into an entry.
\<close>

section \<open>The ownership invariant\<close>

definition entry_ok :: "heap \<Rightarrow> aesd_buffer_entry \<Rightarrow> bool" where
  "entry_ok h e \<longleftrightarrow> length (block h (buffptr e)) = entry_len e \<and> newline \<in> set (block h (buffptr e))"

definition owned :: "aesd_buffer_entry list \<Rightarrow> ptr \<Rightarrow> nat set" where
  "owned es p = addr_of p \<union> (\<Union>e \<in> set es. addr_of (buffptr e))"

text \<open>\<open>n\<close> bytes of the block \<open>p\<close> are pending; they hold no newline.\<close>

definition heap_ok :: "heap \<Rightarrow> aesd_buffer_entry list \<Rightarrow> ptr \<Rightarrow> nat \<Rightarrow> bool" where
  "heap_ok h es p n \<longleftrightarrow>
     (\<forall>e \<in> set es. entry_ok h e) \<and> distinct (map buffptr es) \<and> p \<notin> buffptr ` set es
     \<and> dom h = owned es p \<and> n \<le> length (block h p) \<and> newline \<notin> set (take n (block h p))"

text \<open>The stored commands, oldest first.\<close>

definition blocks :: "heap \<Rightarrow> aesd_buffer_entry list \<Rightarrow> byte list list" where
  "blocks h es = map (\<lambda>e. block h (buffptr e)) es"

lemma entry_okE:
  assumes "entry_ok h e"
  obtains a bs where "buffptr e = Ptr a" and "h a = Some bs" and "length bs = entry_len e"
    and "newline \<in> set bs"
proof -
  have "block h (buffptr e) \<noteq> []"
    using assms by (auto simp: entry_ok_def)
  then obtain a bs where "buffptr e = Ptr a" and "h a = Some bs" and "block h (buffptr e) = bs"
    by (rule block_nonempty)
  with assms that [of a bs] show thesis by (auto simp: entry_ok_def)
qed

lemma entry_ok_pos: "entry_ok h e \<Longrightarrow> 0 < entry_len e"
  by (metis entry_ok_def length_pos_if_in_set)

lemma entry_ok_ptr: "entry_ok h e \<Longrightarrow> buffptr e \<noteq> NULL \<and> buffptr e \<noteq> ZERO_SIZE_PTR"
  by (auto simp: entry_ok_def)

lemma heap_okD:
  assumes "heap_ok h es p n"
  shows "\<And>e. e \<in> set es \<Longrightarrow> entry_ok h e" and "distinct (map buffptr es)"
    and "p \<notin> buffptr ` set es" and "dom h = owned es p" and "n \<le> length (block h p)"
    and "newline \<notin> set (take n (block h p))"
  using assms by (auto simp: heap_ok_def)

lemma heap_ok_valid: "heap_ok h es p n \<Longrightarrow> valid_ptr h p"
  by (auto simp: heap_ok_def valid_ptr_iff owned_def)

lemma heap_ok_entry_valid: "heap_ok h es p n \<Longrightarrow> e \<in> set es \<Longrightarrow> valid_ptr h (buffptr e)"
  by (auto simp: heap_ok_def valid_ptr_iff owned_def)

text \<open>No entry shares its address with the pending block or with another entry.\<close>

lemma heap_ok_disjoint:
  assumes "heap_ok h es p n" and "e \<in> set es"
  shows "addr_of (buffptr e) \<inter> addr_of p = {}"
proof -
  have "buffptr e \<noteq> p" using assms by (auto simp: heap_ok_def)
  then show ?thesis by auto
qed

lemma heap_ok_special:
  assumes "heap_ok h es p n"
  shows "NULL \<notin> buffptr ` set es" and "ZERO_SIZE_PTR \<notin> buffptr ` set es"
  using heap_okD(1) [OF assms] entry_ok_ptr by fastforce+

lemma entry_ok_cong: "block h' (buffptr e) = block h (buffptr e) \<Longrightarrow> entry_ok h' e = entry_ok h e"
  by (simp add: entry_ok_def)

lemma blocks_cong:
  "(\<And>e. e \<in> set es \<Longrightarrow> block h' (buffptr e) = block h (buffptr e)) \<Longrightarrow> blocks h' es = blocks h es"
  by (simp add: blocks_def)

text \<open>
  Changing only the pending block: a new heap that agrees on the entries and owns the new
  pending pointer instead of the old one.
\<close>

lemma heap_ok_replace:
  assumes ok: "heap_ok h es p n" and frame: "\<And>e. e \<in> set es \<Longrightarrow> block h' (buffptr e) = block h (buffptr e)"
    and dom: "dom h' = owned es q" and q: "q \<notin> buffptr ` set es"
    and n: "n' \<le> length (block h' q)" and nl: "newline \<notin> set (take n' (block h' q))"
  shows "heap_ok h' es q n'"
  unfolding heap_ok_def
proof (intro conjI ballI)
  show "entry_ok h' e" if "e \<in> set es" for e
    using that heap_okD(1) [OF ok that] frame [OF that] entry_ok_cong by blast
qed (use assms in \<open>auto simp: heap_ok_def\<close>)

section \<open>The memory steps of a write\<close>

lemma heap_ok_realloc:
  assumes K: "kernel_ok K" and ok: "heap_ok h es p n"
    and re: "krealloc K h p m = (q, h')" and q: "q \<noteq> NULL" and m: "n \<le> m"
  shows "heap_ok h' es q n" and "length (block h' q) = m"
    and "take n (block h' q) = take n (block h p)" and "blocks h' es = blocks h es"
proof -
  have frame: "block (release h p) (buffptr e) = block h (buffptr e)" if "e \<in> set es" for e
    using heap_ok_disjoint [OF ok that] by (intro block_frame) (cases p; auto)
  have rdom: "dom (release h p) = (\<Union>e \<in> set es. addr_of (buffptr e))"
    using heap_okD(4) [OF ok] heap_ok_disjoint [OF ok] unfolding dom_release owned_def by blast
  have "heap_ok h' es q n \<and> length (block h' q) = m \<and> take n (block h' q) = take n (block h p)
      \<and> blocks h' es = blocks h es"
    using K heap_ok_valid [OF ok] re
  proof (cases rule: krealloc_cases)
    case failed
    with q show ?thesis by simp
  next
    case empty
    then have "heap_ok h' es q n"
      using ok m frame by (intro heap_ok_replace [OF ok]) (auto simp: owned_def rdom heap_ok_special [OF ok])
    with empty m frame show ?thesis by (auto intro: blocks_cong)
  next
    case (moved a bs)
    have fresh: "a \<notin> addr_of (buffptr e)" if "e \<in> set es" for e
      using moved(3) heap_ok_entry_valid [OF ok that] heap_okD(3) [OF ok] that
      by (cases "buffptr e") (auto simp: image_iff)
    have frame': "block h' (buffptr e) = block h (buffptr e)" if "e \<in> set es" for e
    proof -
      have "block h' (buffptr e) = block (release h p) (buffptr e)"
        using moved(6) fresh [OF that] by (intro block_frame) auto
      with frame [OF that] show ?thesis by simp
    qed
    have "take n bs = take n (take (length (block h p)) bs)"
      using heap_okD(5) [OF ok] by (simp add: min_absorb1)
    then have tk: "take n bs = take n (block h p)"
      using moved(5) m by (simp add: min_absorb1)
    have "q \<notin> buffptr ` set es"
      using fresh moved(1) by fastforce
    then have "heap_ok h' es q n"
      using frame' rdom m moved heap_okD(6) [OF ok] tk
      by (intro heap_ok_replace [OF ok]) (auto simp: owned_def)
    with moved tk frame' show ?thesis by (auto intro: blocks_cong)
  qed
  then show "heap_ok h' es q n" and "length (block h' q) = m"
    and "take n (block h' q) = take n (block h p)" and "blocks h' es = blocks h es"
    by blast+
qed

lemma heap_ok_store:
  assumes ok: "heap_ok h es p n" and len: "length (block h p) = n + length xs"
  obtains h' where "store_bytes h p n xs = Inr h'" and "heap_ok h' es p n"
    and "block h' p = take n (block h p) @ xs" and "blocks h' es = blocks h es"
proof (cases "xs = []")
  case True
  with ok len that show thesis by simp
next
  case False
  with len have "block h p \<noteq> []" by auto
  then obtain a bs where a: "p = Ptr a" "h a = Some bs" and bs: "block h p = bs"
    by (rule block_nonempty)
  let ?h = "h(a \<mapsto> take n bs @ xs)"
  have st: "store_bytes h p n xs = Inr ?h"
    using a len bs by (simp add: store_bytes_ok)
  have frame: "block ?h (buffptr e) = block h (buffptr e)" if "e \<in> set es" for e
    using heap_ok_disjoint [OF ok that] a(1) by (intro block_frame) auto
  have "heap_ok ?h es p n"
    using frame a bs heap_okD(3-6) [OF ok] len by (intro heap_ok_replace [OF ok]) (auto simp: owned_def)
  then show thesis
    using st frame a(1) bs by (intro that [of ?h]) (auto intro: blocks_cong)
qed

lemma heap_ok_free_oldest:
  assumes ok: "heap_ok h (e # es) p n"
  shows "heap_ok (release h (buffptr e)) es p n"
    and "blocks (release h (buffptr e)) es = blocks h es"
    and "block (release h (buffptr e)) p = block h p"
proof -
  obtain a where a: "buffptr e = Ptr a"
    using heap_okD(1) [OF ok, of e] by (auto elim: entry_okE)
  have frame: "block (h(a := None)) (buffptr e') = block h (buffptr e')" if "e' \<in> set es" for e'
    using heap_okD(2) [OF ok] that a by (intro block_frame) (cases "buffptr e'"; auto simp: image_iff)
  have p: "block (h(a := None)) p = block h p"
    using heap_okD(3) [OF ok] a by (intro block_frame) (cases p; auto)
  have notin: "a \<notin> owned es p"
    using heap_okD(2,3) [OF ok] a by (auto simp: owned_def image_iff)
  show "heap_ok (release h (buffptr e)) es p n"
    using heap_okD [OF ok] a frame p notin
    unfolding heap_ok_def by (auto simp: entry_ok_def owned_def)
  show "blocks (release h (buffptr e)) es = blocks h es"
    and "block (release h (buffptr e)) p = block h p"
    using a frame p by (auto intro: blocks_cong)
qed

lemma heap_ok_commit:
  assumes ok: "heap_ok h es p n" and nl: "newline \<in> set (block h p)"
    and len: "unat sz = length (block h p)"
  shows "heap_ok h (es @ [\<lparr>buffptr = p, entry_size = sz\<rparr>]) NULL 0"
    and "blocks h (es @ [\<lparr>buffptr = p, entry_size = sz\<rparr>]) = blocks h es @ [block h p]"
proof -
  have "p \<noteq> NULL" using nl by auto
  then show "heap_ok h (es @ [\<lparr>buffptr = p, entry_size = sz\<rparr>]) NULL 0"
    using heap_okD [OF ok] heap_ok_special(1) [OF ok] nl len
    by (auto simp: heap_ok_def entry_ok_def owned_def entry_len_def)
qed (simp add: blocks_def)

text \<open>Pending bytes without a newline stay pending.\<close>

lemma heap_ok_extend:
  "heap_ok h es p n \<Longrightarrow> newline \<notin> set (block h p) \<Longrightarrow> heap_ok h es p (length (block h p))"
  by (simp add: heap_ok_def)

lemma heap_ok_init [simp]: "heap_ok Map.empty [] NULL 0"
  by (simp add: heap_ok_def owned_def)

end
