(* ===== verification/Driver_Spec.thy ===== *)
theory Driver_Spec
  imports Driver_Heap
begin

text \<open>
  What the driver promises: a device is the list of its last ten commands and an
  unfinished one. The invariant \<open>driver_inv\<close> relates this to the ring, the heap and the
  write buffer; the lemmas show each file operation on every branch.
\<close>

section \<open>The abstract device\<close>

record device =
  commands :: "byte list list"
  partial :: "byte list"

definition empty_device :: device where
  "empty_device = \<lparr>commands = [], partial = []\<rparr>"

text \<open>
  A write extends the unfinished command; a newline anywhere in it completes the command,
  and only the ten most recent commands are kept.
\<close>

definition spec_write :: "device \<Rightarrow> byte list \<Rightarrow> device" where
  "spec_write s data =
     (let p = partial s @ data in
      if newline \<in> set p then \<lparr>commands = keep_last 10 (commands s @ [p]), partial = []\<rparr>
      else \<lparr>commands = commands s, partial = p\<rparr>)"

definition contents :: "device \<Rightarrow> byte list" where
  "contents s = concat (commands s)"

text \<open>A read returns bytes of one command only.\<close>

definition spec_read :: "device \<Rightarrow> nat \<Rightarrow> nat \<Rightarrow> byte list" where
  "spec_read s pos n =
     (case locate (map length (commands s)) pos of
        None \<Rightarrow> []
      | Some (k, q) \<Rightarrow> take n (drop q (commands s ! k)))"

text \<open>Bytes held by the device, stored or pending.\<close>

definition device_bytes :: "device \<Rightarrow> nat" where
  "device_bytes s = length (contents s) + length (partial s)"

section \<open>Abstraction and invariant\<close>

abbreviation the_ring :: "driver \<Rightarrow> aesd_circular_buffer" where
  "the_ring d \<equiv> circular_buffer (dev d)"

abbreviation pending_len :: "driver \<Rightarrow> nat" where
  "pending_len d \<equiv> unat (write_buffer_size (dev d))"

definition dev_abs :: "driver \<Rightarrow> device" where
  "dev_abs d = \<lparr>commands = blocks (mem d) (ring_entries (the_ring d)),
     partial = take (pending_len d) (block (mem d) (p_write_buffer (dev d)))\<rparr>"

definition driver_inv :: "driver \<Rightarrow> bool" where
  "driver_inv d \<longleftrightarrow> ring_inv (the_ring d) \<and> ring_fresh (the_ring d) \<and> \<not> lock_held (dev d)
     \<and> heap_ok (mem d) (ring_entries (the_ring d)) (p_write_buffer (dev d)) (pending_len d)
     \<and> device_bytes (dev_abs d) < 2 ^ 63"

lemma driver_invD:
  assumes "driver_inv d"
  shows "ring_inv (the_ring d)" and "ring_fresh (the_ring d)" and "\<not> lock_held (dev d)"
    and "heap_ok (mem d) (ring_entries (the_ring d)) (p_write_buffer (dev d)) (pending_len d)"
    and "device_bytes (dev_abs d) < 2 ^ 63"
  using assms by (simp_all add: driver_inv_def)

lemma set_lock_sel [simp]:
  "the_ring (set_lock v d) = the_ring d" "p_write_buffer (dev (set_lock v d)) = p_write_buffer (dev d)"
  "write_buffer_size (dev (set_lock v d)) = write_buffer_size (dev d)" "mem (set_lock v d) = mem d"
  "lock_held (dev (set_lock v d)) = v" "set_lock v (set_lock w d) = set_lock v d"
  by (simp_all add: set_lock_def)

lemma set_lock_id [simp]: "\<not> lock_held (dev d) \<Longrightarrow> set_lock False d = d"
  by (simp add: set_lock_def)

lemma dev_abs_set_lock [simp]: "dev_abs (set_lock v d) = dev_abs d"
  by (simp add: dev_abs_def)

lemma lock_dev_ok: "\<not> lock_held (dev d) \<Longrightarrow> mutex_lock_interruptible K = 0 \<Longrightarrow>
    lock_dev K d = Inr (0, set_lock True d)"
  by (simp add: lock_dev_def)

lemma lock_dev_interrupted: "mutex_lock_interruptible K \<noteq> 0 \<Longrightarrow>
    lock_dev K d = Inr (mutex_lock_interruptible K, d)"
  by (simp add: lock_dev_def)

lemma commands_dev_abs: "commands (dev_abs d) = blocks (mem d) (ring_entries (the_ring d))"
  by (simp add: dev_abs_def)

lemma blocks_lengths:
  "(\<And>e. e \<in> set es \<Longrightarrow> entry_ok h e) \<Longrightarrow> map length (blocks h es) = map entry_len es"
  by (auto simp: blocks_def entry_ok_def)

lemma command_lengths:
  "driver_inv d \<Longrightarrow> map length (commands (dev_abs d)) = ring_sizes (the_ring d)"
  unfolding commands_dev_abs using driver_invD(4) heap_okD(1) by (blast intro: blocks_lengths)

lemma driver_inv_sized:
  assumes "driver_inv d"
  shows "ring_sized (the_ring d)"
proof -
  have "0 < entry_len e" if "e \<in> set (ring_entries (the_ring d))" for e
    using heap_okD(1) [OF driver_invD(4) [OF assms] that] by (rule entry_ok_pos)
  moreover have "sum_list (ring_sizes (the_ring d)) = length (contents (dev_abs d))"
    by (simp add: contents_def length_concat command_lengths [OF assms])
  ultimately show ?thesis
    using driver_invD(5) [OF assms] by (simp add: ring_sized_def device_bytes_def)
qed

text \<open>Freshly loaded: an empty device.\<close>

definition initial_driver :: driver where
  "initial_driver = \<lparr>dev = zero_dev, mem = Map.empty\<rparr>"

lemma zero_dev_ring: "circular_buffer zero_dev = aesd_circular_buffer_init b"
  by (simp add: zero_dev_def aesd_circular_buffer_init_def)

lemma driver_inv_initial: "driver_inv initial_driver" and dev_abs_initial: "dev_abs initial_driver = empty_device"
proof -
  have "the_ring initial_driver = aesd_circular_buffer_init (circular_buffer zero_dev)"
    by (simp add: initial_driver_def zero_dev_ring [symmetric])
  then show "driver_inv initial_driver" and "dev_abs initial_driver = empty_device"
    by (simp_all add: driver_inv_def dev_abs_def device_bytes_def contents_def empty_device_def
        blocks_def) (simp_all add: initial_driver_def zero_dev_def)
qed

section \<open>write\<close>

text \<open>The environment of a write that reaches its end: lock taken, memory there, data readable.\<close>

definition write_env_ok :: "kernel \<Rightarrow> driver \<Rightarrow> byte list \<Rightarrow> size_t \<Rightarrow> bool" where
  "write_env_ok K d buf count \<longleftrightarrow> mutex_lock_interruptible K = 0
     \<and> fst (krealloc K (mem d) (p_write_buffer (dev d)) (unat (count + write_buffer_size (dev d)))) \<noteq> NULL
     \<and> snd (copy_from_user K buf (unat count)) = 0"

lemma length_concat_keep_last: "length (concat (keep_last n xss)) \<le> length (concat xss)"
proof -
  have "concat xss = concat (take (length xss - n) xss) @ concat (keep_last n xss)"
    unfolding keep_last_def by (metis append_take_drop_id concat_append)
  then show ?thesis by (metis le_add2 length_append)
qed

lemma device_bytes_write: "device_bytes (spec_write s data) \<le> device_bytes s + length data"
  using length_concat_keep_last [of 10 "commands s @ [partial s @ data]"]
  by (auto simp: device_bytes_def spec_write_def contents_def Let_def)

lemma pending_len_le:
  assumes "driver_inv d"
  shows "length (partial (dev_abs d)) = pending_len d"
  using heap_okD(5) [OF driver_invD(4) [OF assms]] by (simp add: dev_abs_def min_absorb2)

lemma pending_add_no_wrap:
  assumes "driver_inv d" and "device_bytes (dev_abs d) + unat count < 2 ^ 63"
  shows "unat (count + write_buffer_size (dev d)) = pending_len d + unat count"
  using assms pending_len_le [OF assms(1)]
  by (subst unat_add_no_wrap) (auto simp: device_bytes_def)

text \<open>
  The common part of a write: lock, \<open>krealloc\<close>, \<open>copy_from_user\<close>. The pending block now ends
  with the new bytes.
\<close>

lemma write_prefix:
  assumes K: "kernel_ok K" and inv: "driver_inv d" and env: "write_env_ok K d buf count"
    and room: "device_bytes (dev_abs d) + unat count < 2 ^ 63"
  obtains p h1 h2 where
    "krealloc K (mem d) (p_write_buffer (dev d)) (unat (count + write_buffer_size (dev d))) = (p, h1)"
    and "p \<noteq> NULL"
    and "copy_from_user K buf (unat count) = (take (unat count) buf, 0)"
    and "length (take (unat count) buf) = unat count"
    and "store_bytes h1 p (pending_len d) (take (unat count) buf) = Inr h2"
    and "heap_ok h2 (ring_entries (the_ring d)) p (pending_len d)"
    and "block h2 p = partial (dev_abs d) @ take (unat count) buf"
    and "blocks h2 (ring_entries (the_ring d)) = commands (dev_abs d)"
proof -
  let ?es = "ring_entries (the_ring d)" and ?n = "pending_len d" and ?old = "p_write_buffer (dev d)"
  obtain p h1 where re: "krealloc K (mem d) ?old (unat (count + write_buffer_size (dev d))) = (p, h1)"
    and p: "p \<noteq> NULL"
    using env by (metis write_env_ok_def prod.collapse)
  obtain bs where "copy_from_user K buf (unat count) = (bs, 0)"
    using env by (metis write_env_ok_def prod.collapse)
  with copy_from_user_result [OF K this] have copy: "copy_from_user K buf (unat count) = (take (unat count) buf, 0)"
    and len: "length (take (unat count) buf) = unat count"
    by auto
  note m = pending_add_no_wrap [OF inv room]
  have "?n \<le> unat (count + write_buffer_size (dev d))" by (simp add: m)
  note h1 = heap_ok_realloc [OF K driver_invD(4) [OF inv] re p this]
  have "length (block h1 p) = ?n + length (take (unat count) buf)"
    using h1(2) m len by simp
  from heap_ok_store [OF h1(1) this] obtain h2 where
    "store_bytes h1 p ?n (take (unat count) buf) = Inr h2" and "heap_ok h2 ?es p ?n"
    and "block h2 p = take ?n (block h1 p) @ take (unat count) buf" and "blocks h2 ?es = blocks h1 ?es"
    by blast
  with re p copy len show thesis
    by (intro that [of p h1 h2]) (simp_all add: h1 dev_abs_def)
qed

lemma full_oldest:
  assumes "ring_inv b" and "full b"
  obtains e es where "ring_entries b = e # es" and "entry b ! unat (out_offs b) = e"
    and "unat (out_offs b) < length (entry b)"
proof -
  have "ring_entries b \<noteq> []" and "ring_entries b ! 0 = entry b ! unat (out_offs b)"
    using assms by (auto simp: ring_entries_def ring_count_def nth_append ring_slot_def ring_inv_def upt_rec)
  with assms(1) show thesis
    by (cases "ring_entries b") (auto intro: that simp: ring_inv_def)
qed

text \<open>The pending block becomes the newest entry; a full ring first frees its oldest one.\<close>

lemma commit_step:
  assumes K: "kernel_ok K" and ring: "ring_inv cb" and ok: "heap_ok h (ring_entries cb) p n"
    and nl: "newline \<in> set (block h p)" and len: "unat sz = length (block h p)"
    and add: "aesd_circular_buffer_add_entry cb \<lparr>buffptr = p, entry_size = sz\<rparr> = Some cb'"
  shows "\<exists>h3. free_oldest K h cb = Inr h3 \<and> heap_ok h3 (ring_entries cb') NULL 0
    \<and> blocks h3 (ring_entries cb') = keep_last 10 (blocks h (ring_entries cb) @ [block h p])"
proof (cases "full cb")
  case False
  then have c: "ring_count cb < 10" using ring_count_not_full [OF ring] by simp
  then have "ring_entries cb' = ring_entries cb @ [\<lparr>buffptr = p, entry_size = sz\<rparr>]"
    using ring.add_not_full [OF ring _ add] by simp
  then show ?thesis
    using False c heap_ok_commit [OF ok nl len] by (simp add: free_oldest_def blocks_def)
next
  case True
  then obtain e es where es: "ring_entries cb = e # es" and e: "entry cb ! unat (out_offs cb) = e"
    "unat (out_offs cb) < length (entry cb)"
    using full_oldest [OF ring] by metis
  have c: "length (ring_entries cb) = 10" using True by (simp add: ring_count_def)
  have cb': "ring_entries cb' = es @ [\<lparr>buffptr = p, entry_size = sz\<rparr>]"
    using ring.add_full [OF ring c add] es by simp
  have ok': "heap_ok h (e # es) p n" using ok es by simp
  note freed = heap_ok_free_oldest [OF ok']
  have "free_oldest K h cb = Inr (release h (buffptr e))"
    using True K e heap_ok_entry_valid [OF ok', of e]
    by (simp add: free_oldest_def call_kfree_def kfree_release)
  moreover have "keep_last 10 (blocks h (ring_entries cb) @ [block h p]) = blocks h es @ [block h p]"
    using c es by (subst keep_last_full_snoc) (simp_all add: blocks_def)
  ultimately show ?thesis
    using heap_ok_commit [OF freed(1)] nl len cb' freed(2,3) by simp
qed

lemma aesd_write_correct:
  assumes K: "kernel_ok K" and inv: "driver_inv d" and filp: "private_data filp = aesd_device"
    and env: "write_env_ok K d buf count"
    and room: "device_bytes (dev_abs d) + unat count < 2 ^ 63"
  shows "\<exists>d'. aesd_write K d filp buf count = Inr (d', count) \<and> driver_inv d'
    \<and> dev_abs d' = spec_write (dev_abs d) (take (unat count) buf)"
proof -
  let ?es = "ring_entries (the_ring d)" and ?data = "take (unat count) buf"
  let ?content = "partial (dev_abs d) @ ?data" and ?sz = "write_buffer_size (dev d) + count"
  from write_prefix [OF K inv env room] obtain p h1 h2 where
    re: "krealloc K (mem d) (p_write_buffer (dev d)) (unat (count + write_buffer_size (dev d))) = (p, h1)"
    and p: "p \<noteq> NULL" and copy: "copy_from_user K buf (unat count) = (?data, 0)"
    and len: "length ?data = unat count"
    and st: "store_bytes h1 p (pending_len d) ?data = Inr h2"
    and ok: "heap_ok h2 ?es p (pending_len d)" and bl: "block h2 p = ?content"
    and bls: "blocks h2 ?es = commands (dev_abs d)"
    by blast
  have clen: "unat ?sz = length (block h2 p)"
    using pending_add_no_wrap [OF inv room] pending_len_le [OF inv] len bl by (simp add: add.commute)
  have load: "load_bytes h2 p 0 (unat ?sz) = Inr ?content"
    unfolding clen bl [symmetric] by (rule trans [OF load_bytes_ok]) simp_all
  have call: "call_krealloc K (mem d) (p_write_buffer (dev d)) (unat (count + write_buffer_size (dev d))) = Inr (p, h1)"
    using heap_ok_valid [OF driver_invD(4) [OF inv]] re by (simp add: call_krealloc_def)
  have lock: "lock_dev K d = Inr (0, set_lock True d)"
    using driver_invD(3) [OF inv] env by (simp add: lock_dev_ok write_env_ok_def)
  note run = aesd_write_def filp lock call p copy st load
  have bytes: "device_bytes (spec_write (dev_abs d) ?data) < 2 ^ 63"
    using device_bytes_write [of "dev_abs d" ?data] room len by simp
  show ?thesis
  proof (cases "newline \<in> set ?content")
    case False
    let ?d = "\<lparr>dev = (dev d)\<lparr>p_write_buffer := p, write_buffer_size := ?sz\<rparr>, mem = h2\<rparr>"
    have "aesd_write K d filp buf count = Inr (set_lock False ?d, count)"
      using False by (simp add: run set_lock_def)
    moreover have "dev_abs ?d = spec_write (dev_abs d) ?data"
      using False bl bls by (simp add: dev_abs_def [of ?d] spec_write_def clen min_def)
    moreover have "heap_ok h2 ?es p (unat ?sz)"
      using heap_ok_extend [OF ok] False by (simp add: bl clen)
    ultimately show ?thesis
      using driver_invD(1-3) [OF inv] bytes by (auto simp: driver_inv_def)
  next
    case True
    obtain cb' where add: "aesd_circular_buffer_add_entry (the_ring d) \<lparr>buffptr = p, entry_size = ?sz\<rparr> = Some cb'"
      using add_entry_total [OF driver_invD(1) [OF inv]] by blast
    obtain h3 where h3: "free_oldest K h2 (the_ring d) = Inr h3" "heap_ok h3 (ring_entries cb') NULL 0"
      "blocks h3 (ring_entries cb') = keep_last 10 (commands (dev_abs d) @ [?content])"
      using commit_step [OF K driver_invD(1) [OF inv] ok _ clen add] True bl bls by auto
    let ?d = "\<lparr>dev = (dev d)\<lparr>p_write_buffer := NULL, write_buffer_size := 0, circular_buffer := cb'\<rparr>, mem = h3\<rparr>"
    have "aesd_write K d filp buf count = Inr (set_lock False ?d, count)"
      using True h3 add by (simp add: run set_lock_def)
    moreover have "dev_abs ?d = spec_write (dev_abs d) ?data"
      using True h3 by (simp add: dev_abs_def [of ?d] spec_write_def)
    moreover have "ring_inv cb'" and "ring_fresh cb'"
      using add_entry_inv add_entry_fresh driver_invD(1,2) [OF inv] add by blast+
    ultimately show ?thesis
      using h3 driver_invD(3) [OF inv] bytes by (auto simp: driver_inv_def)
  qed
qed

section \<open>The error returns of write\<close>

lemma aesd_write_interrupted:
  "private_data filp = aesd_device \<Longrightarrow> mutex_lock_interruptible K \<noteq> 0 \<Longrightarrow>
    aesd_write K d filp buf count = Inr (d, - ERESTARTSYS)"
  by (simp add: aesd_write_def lock_dev_interrupted)

lemma aesd_write_nomem:
  assumes K: "kernel_ok K" and inv: "driver_inv d" and filp: "private_data filp = aesd_device"
    and lock: "mutex_lock_interruptible K = 0"
    and fail: "fst (krealloc K (mem d) (p_write_buffer (dev d)) (unat (count + write_buffer_size (dev d)))) = NULL"
  shows "aesd_write K d filp buf count =
    Inr (d\<lparr>mem := release (mem d) (p_write_buffer (dev d))\<rparr>, - ENOMEM)"
proof -
  obtain h1 where re: "krealloc K (mem d) (p_write_buffer (dev d)) (unat (count + write_buffer_size (dev d))) = (NULL, h1)"
    using fail by (metis prod.collapse)
  note valid = heap_ok_valid [OF driver_invD(4) [OF inv]]
  have "h1 = mem d"
    using K valid re by (cases rule: krealloc_cases) auto
  then show ?thesis
    using K valid filp re driver_invD(3) [OF inv]
    by (simp add: aesd_write_def lock_dev_ok lock call_krealloc_def call_kfree_def kfree_release set_lock_def)
qed

text \<open>With nothing pending, running out of memory changes nothing.\<close>

lemma release_no_block: "addr_of p = {} \<Longrightarrow> release h p = h"
  by (cases p) auto

lemma aesd_write_nomem_clean:
  assumes "kernel_ok K" and "driver_inv d" and "private_data filp = aesd_device"
    and "mutex_lock_interruptible K = 0"
    and "fst (krealloc K (mem d) (p_write_buffer (dev d)) (unat (count + write_buffer_size (dev d)))) = NULL"
    and "addr_of (p_write_buffer (dev d)) = {}"
  shows "aesd_write K d filp buf count = Inr (d, - ENOMEM)"
  using aesd_write_nomem [OF assms(1-5)] assms(6) by (simp add: release_no_block)

text \<open>
  With a command pending, its block is released but \<open>p_write_buffer\<close> still points to it; the
  next write hands the stale pointer to \<open>krealloc\<close>.
\<close>

lemma aesd_write_stale:
  assumes "private_data filp = aesd_device" and "mutex_lock_interruptible K = 0"
    and "\<not> lock_held (dev d)" and "\<not> valid_ptr (mem d) (p_write_buffer (dev d))"
  shows "aesd_write K d filp buf count = Inl UseAfterFree"
  using assms by (simp add: aesd_write_def lock_dev_ok call_krealloc_def Let_def)

lemma aesd_write_fault:
  assumes K: "kernel_ok K" and inv: "driver_inv d" and filp: "private_data filp = aesd_device"
    and lock: "mutex_lock_interruptible K = 0"
    and mem: "fst (krealloc K (mem d) (p_write_buffer (dev d)) (unat (count + write_buffer_size (dev d)))) \<noteq> NULL"
    and left: "snd (copy_from_user K buf (unat count)) \<noteq> 0"
    and room: "device_bytes (dev_abs d) + unat count < 2 ^ 63"
  shows "\<exists>d'. aesd_write K d filp buf count = Inr (d', - EFAULT) \<and> driver_inv d' \<and> dev_abs d' = dev_abs d"
proof -
  let ?n = "pending_len d" and ?es = "ring_entries (the_ring d)"
  obtain p h1 where re: "krealloc K (mem d) (p_write_buffer (dev d)) (unat (count + write_buffer_size (dev d))) = (p, h1)"
    and p: "p \<noteq> NULL" using mem by (metis prod.collapse)
  obtain bs r where copy: "copy_from_user K buf (unat count) = (bs, r)" and r: "r \<noteq> 0"
    using left by (metis prod.collapse)
  note m = pending_add_no_wrap [OF inv room]
  have "?n \<le> unat (count + write_buffer_size (dev d))" by (simp add: m)
  note h1 = heap_ok_realloc [OF K driver_invD(4) [OF inv] re p this]
  have "length (block h1 p) = ?n + length bs"
    using h1(2) m copy_from_user_result [OF K copy] by simp
  from heap_ok_store [OF h1(1) this] obtain h2 where st: "store_bytes h1 p ?n bs = Inr h2"
    and ok: "heap_ok h2 ?es p ?n" and bl: "block h2 p = take ?n (block h1 p) @ bs"
    and bls: "blocks h2 ?es = blocks h1 ?es"
    by blast
  let ?d = "\<lparr>dev = (dev d)\<lparr>p_write_buffer := p\<rparr>, mem = h2\<rparr>"
  have "aesd_write K d filp buf count = Inr (set_lock False ?d, - EFAULT)"
    using heap_ok_valid [OF driver_invD(4) [OF inv]] filp lock re p copy r st driver_invD(3) [OF inv]
    by (simp add: aesd_write_def lock_dev_ok call_krealloc_def set_lock_def)
  moreover have "take ?n (block h2 p) = take ?n (block (mem d) (p_write_buffer (dev d)))"
    using h1(3) bl heap_okD(5) [OF driver_invD(4) [OF inv]] by simp
  then have "dev_abs ?d = dev_abs d"
    using bls h1(4) by (simp add: dev_abs_def)
  ultimately show ?thesis
    using ok driver_invD [OF inv] by (auto simp: driver_inv_def)
qed

section \<open>read\<close>

lemma spec_read_prefix: "\<exists>rest. drop pos (contents s) = spec_read s pos n @ rest"
proof (cases "locate (map length (commands s)) pos")
  case None
  then show ?thesis by (simp add: spec_read_def)
next
  case (Some kq)
  then obtain k q where "locate (map length (commands s)) pos = Some (k, q)" by (cases kq) auto
  then show ?thesis
    by (simp add: spec_read_def contents_def locate_concat)
       (metis append.assoc append_take_drop_id)
qed

lemma spec_read_eof: "length (contents s) \<le> pos \<Longrightarrow> spec_read s pos n = []"
  by (simp add: spec_read_def contents_def length_concat locate_None_iff [THEN iffD2])

lemma spec_read_progress:
  assumes "pos < length (contents s)" and "0 < n"
  shows "spec_read s pos n \<noteq> []"
proof -
  have "locate (map length (commands s)) pos \<noteq> None"
    using assms(1) by (simp add: locate_None_iff contents_def length_concat)
  then obtain k q where "locate (map length (commands s)) pos = Some (k, q)" by auto
  with locate_Some [OF this] assms(2) show ?thesis by (auto simp: spec_read_def)
qed

lemma length_spec_read: "length (spec_read s pos n) \<le> n"
  by (auto simp: spec_read_def split: option.splits)

lemma unat_min_choice: "unat (if (c :: size_t) < a then c else a) = min (unat c) (unat a)"
  by (auto simp: word_less_nat_alt)

lemma aesd_read_result:
  assumes inv: "driver_inv d" and filp: "private_data filp = aesd_device"
    and lock: "mutex_lock_interruptible K = 0"
    and some: "commands (dev_abs d) \<noteq> []"
  shows "aesd_read K d filp count =
    (let bs = spec_read (dev_abs d) (unat (f_pos filp)) (unat count)
     in if copy_to_user K bs \<noteq> 0 then Inr (d, filp, take (length bs - copy_to_user K bs) bs, 0)
        else Inr (d, filp\<lparr>f_pos := f_pos filp + of_nat (length bs)\<rparr>, bs, of_nat (length bs)))"
proof -
  let ?cb = "the_ring d" and ?pos = "f_pos filp"
  have es: "ring_entries ?cb \<noteq> []" using some by (auto simp: dev_abs_def blocks_def)
  note found = find_entry_correct [OF driver_invD(1) [OF inv] driver_inv_sized [OF inv] es, of ?pos]
  have lk: "lock_dev K d = Inr (0, set_lock True d)"
    using driver_invD(3) [OF inv] lock by (rule lock_dev_ok)
  show ?thesis
  proof (cases "locate (ring_sizes ?cb) (unat ?pos)")
    case None
    then have "spec_read (dev_abs d) (unat ?pos) (unat count) = []"
      by (simp add: spec_read_def command_lengths [OF inv])
    with None found filp lk driver_invD(3) [OF inv] show ?thesis
      by (simp add: aesd_read_def ring_hit_def)
  next
    case (Some kq)
    then obtain k q where kq: "locate (ring_sizes ?cb) (unat ?pos) = Some (k, q)" by (cases kq) auto
    let ?e = "ring_entries ?cb ! k"
    have k: "k < ring_count ?cb" and q: "q < entry_len ?e" and q64: "q < 2 ^ 64"
      using locate_Some [OF kq] unat_less_64 [of ?pos] by auto
    then have eok: "entry_ok (mem d) ?e"
      using heap_okD(1) [OF driver_invD(4) [OF inv]] by simp
    let ?bl = "block (mem d) (buffptr ?e)"
    let ?avail = "entry_size ?e - of_nat q"
    let ?n = "if count < ?avail then count else ?avail"
    have avail: "unat ?avail = length ?bl - q"
      using q q64 eok by (subst unat_sub_no_wrap) (auto simp: word_le_nat_alt entry_len_def entry_ok_def)
    have rd: "spec_read (dev_abs d) (unat ?pos) (unat count) = take (unat count) (drop q ?bl)"
      using kq k by (simp add: spec_read_def command_lengths [OF inv]) (simp add: dev_abs_def blocks_def)
    have ql: "q < length ?bl" using q eok by (simp add: entry_ok_def)
    have n: "unat ?n = min (unat count) (length ?bl - q)"
      unfolding unat_min_choice avail ..
    then have ld: "load_bytes (mem d) (buffptr ?e) q (unat ?n) = Inr (take (unat count) (drop q ?bl))"
      using ql by (subst load_bytes_ok) (auto simp: min_def)
    have "length (take (unat count) (drop q ?bl)) = unat ?n"
      by (simp add: n min.commute)
    then have "?n = of_nat (length (take (unat count) (drop q ?bl)))"
      by (simp only: word_of_unat)
    moreover have "entry ?cb ! ring_slot ?cb k = ?e" using k by (simp add: nth_ring_entries)
    ultimately show ?thesis
      using found kq filp lk q64 ld rd driver_invD(3) [OF inv]
      by (simp add: aesd_read_def ring_hit_def Let_def split del: if_split cong: if_cong)
  qed
qed

lemma aesd_read_correct:
  assumes "driver_inv d" and "private_data filp = aesd_device" and "mutex_lock_interruptible K = 0"
    and "commands (dev_abs d) \<noteq> []"
    and "copy_to_user K (spec_read (dev_abs d) (unat (f_pos filp)) (unat count)) = 0"
  shows "aesd_read K d filp count =
    (let bs = spec_read (dev_abs d) (unat (f_pos filp)) (unat count)
     in Inr (d, filp\<lparr>f_pos := f_pos filp + of_nat (length bs)\<rparr>, bs, of_nat (length bs)))"
  using aesd_read_result [OF assms(1-4), of count] assms(5) by (simp add: Let_def)

end
