(* ===== verification/Driver_Seek.thy ===== *)
theory Driver_Seek
  imports Driver_Spec
begin

text \<open>
  The two ways to move a file of the device: \<open>aesd_llseek\<close> and the \<open>AESDCHAR_IOCSEEKTO\<close>
  ioctl. Both add entry sizes in an \<open>int\<close>; the lemmas say what they compute at the C
  widths and what that is while the device holds less than 2 GiB.
\<close>

section \<open>The summing loop\<close>

lemma of_nat_entry_len: "(of_nat (entry_len e) :: c_int) = ucast (entry_size e)"
  by (simp add: entry_len_def)

text \<open>From the \<open>k\<close>th to the \<open>j\<close>th oldest entry the loop adds the sizes, modulo \<open>2 ^ 32\<close>.\<close>

lemma sum_sizes_slots:
  assumes inv: "ring_inv b" and j: "j \<le> ring_count b" and j10: "j < 10"
  shows "k \<le> j \<Longrightarrow> sum_sizes b (ring_slot b k) (ring_slot b j) acc =
    Some (acc + of_nat (sum_list (take (j - k) (drop k (ring_sizes b)))))"
proof (induction "j - k" arbitrary: k acc)
  case 0
  then show ?case by (simp add: sum_sizes.simps)
next
  case (Suc n)
  then have k: "k < j" by simp
  then have "ring_slot b k \<noteq> ring_slot b j"
    using ring_slot_inj [of k j b] j10 by auto
  moreover have "ring_slot b k < length (entry b)"
    using inv by (simp add: ring_inv_def)
  moreover have "entry b ! ring_slot b k = ring_entries b ! k"
    using k j by (simp add: nth_ring_entries)
  ultimately have "sum_sizes b (ring_slot b k) (ring_slot b j) acc =
      sum_sizes b (ring_slot b (Suc k)) (ring_slot b j) (acc + ucast (entry_size (ring_entries b ! k)))"
    by (subst sum_sizes.simps) (simp add: ring_slot_Suc narrow_add)
  moreover have "sum_list (take (j - k) (drop k (ring_sizes b)))
      = entry_len (ring_entries b ! k) + sum_list (take (j - Suc k) (drop (Suc k) (ring_sizes b)))"
    using k j by (subst Cons_nth_drop_Suc [symmetric]) (auto simp: take_Cons' numeral_2_eq_2 Suc_diff_Suc)
  ultimately show ?case
    using Suc.hyps(1) [of "Suc k"] Suc.hyps(2) k by (simp add: of_nat_entry_len algebra_simps)
qed

lemma sum_sizes_from_start:
  assumes "driver_inv d" and "j \<le> length (commands (dev_abs d))" and "j < 10"
  shows "sum_sizes (the_ring d) (unat (out_offs (the_ring d))) (ring_slot (the_ring d) j) 0 =
    Some (of_nat (sum_list (take j (map length (commands (dev_abs d))))))"
proof -
  have "unat (out_offs (the_ring d)) = ring_slot (the_ring d) 0"
    using driver_invD(1) [OF assms(1)] by (simp add: ring_slot_0 ring_inv_def)
  moreover have "length (commands (dev_abs d)) = ring_count (the_ring d)"
    by (simp add: dev_abs_def blocks_def)
  ultimately show ?thesis
    using sum_sizes_slots [OF driver_invD(1) [OF assms(1)], of j 0 0] assms(2,3)
    by (simp add: command_lengths [OF assms(1)])
qed

section \<open>llseek\<close>

lemma aesd_llseek_set: "aesd_llseek K d filp off 0 = set_pos d filp off"
  and aesd_llseek_cur: "aesd_llseek K d filp off 1 = set_pos d filp (f_pos filp + off)"
  and aesd_llseek_other: "whence \<notin> {0, 1, 2} \<Longrightarrow> aesd_llseek K d filp off whence = Inr (d, filp, - EINVAL)"
  by (simp_all add: aesd_llseek_def)

lemma length_commands: "length (commands (dev_abs d)) = ring_count (the_ring d)"
  by (simp add: dev_abs_def blocks_def)

lemma length_contents: "length (contents s) = sum_list (map length (commands s))"
  by (simp add: contents_def length_concat)

text \<open>While the ring has a free slot, the end is found at the last byte of the contents.\<close>

lemma aesd_llseek_end:
  assumes inv: "driver_inv d" and filp: "private_data filp = aesd_device"
    and lock: "mutex_lock_interruptible K = 0"
    and room: "length (commands (dev_abs d)) < 10" and small: "length (contents (dev_abs d)) < 2 ^ 31"
  shows "aesd_llseek K d filp off 2 =
    set_pos d filp (of_int (int (length (contents (dev_abs d))) - 1) + off)"
proof -
  let ?c = "ring_count (the_ring d)"
  have "unat (in_offs (the_ring d)) = ring_slot (the_ring d) ?c"
    using ring_count_in_offs [OF driver_invD(1) [OF inv]] by simp
  then have "sum_sizes (the_ring d) (unat (out_offs (the_ring d))) (unat (in_offs (the_ring d))) 0 =
      Some (of_nat (length (contents (dev_abs d))))"
    using sum_sizes_from_start [OF inv, of ?c] room by (simp add: length_commands length_contents)
  moreover have "lock_dev K d = Inr (0, set_lock True d)"
    using driver_invD(3) [OF inv] lock by (rule lock_dev_ok)
  ultimately show ?thesis
    using filp driver_invD(3) [OF inv] small by (simp add: aesd_llseek_def scast_of_nat_minus_1)
qed

text \<open>
  A full ring has equal offsets: the loop adds nothing and the device is taken to be empty.
\<close>

lemma aesd_llseek_end_full:
  assumes inv: "driver_inv d" and filp: "private_data filp = aesd_device"
    and lock: "mutex_lock_interruptible K = 0" and full: "length (commands (dev_abs d)) = 10"
  shows "aesd_llseek K d filp off 2 = set_pos d filp (off - 1)"
proof -
  have "full (the_ring d)"
    using full ring_count_not_full [OF driver_invD(1) [OF inv]] by (auto simp: length_commands)
  then have "unat (out_offs (the_ring d)) = unat (in_offs (the_ring d))"
    using driver_invD(1) [OF inv] by (simp add: ring_inv_def)
  moreover have "lock_dev K d = Inr (0, set_lock True d)"
    using driver_invD(3) [OF inv] lock by (rule lock_dev_ok)
  ultimately show ?thesis
    using filp driver_invD(3) [OF inv] by (simp add: aesd_llseek_def sum_sizes.simps)
qed

section \<open>The seek command\<close>

lemma base256:
  fixes x :: nat
  assumes "x < 4294967296"
  shows "x mod 256 + 256 * (x div 256 mod 256) + 65536 * (x div 65536 mod 256)
    + 16777216 * (x div 16777216 mod 256) = x"
proof -
  define a b c where digits: "a = x div 256" "b = a div 256" "c = b div 256"
  have "x div 65536 = b" and "x div 16777216 = c" and "c < 256"
    using assms by (simp_all add: digits div_mult2_eq [symmetric] div_less_dividend less_mult_imp_div_less)
  moreover have "x = 256 * a + x mod 256" "a = 256 * b + a mod 256" "b = 256 * c + b mod 256"
    by (simp_all add: digits)
  ultimately show ?thesis
    unfolding digits(1) [symmetric] by simp
qed

lemma le32_bytes32: "le32 (bytes32 w @ xs) = w"
proof -
  have byte: "unat (of_nat n :: byte) = n mod 256" for n
    by (simp add: unat_of_nat take_bit_eq_mod)
  have "unat w < 4294967296"
    using unsigned_less [of w, where ?'a = nat] by simp
  then show ?thesis
    unfolding le32_def bytes32_def
    by (simp only: append_Cons nth_Cons_0 nth_Cons_numeral nth_Cons_Suc One_nat_def byte base256
        numeral_2_eq_2 numeral_3_eq_3 word_of_unat)
qed

lemma seekto_roundtrip: "seekto_of_bytes (bytes_of_seekto s) = s"
  using le32_bytes32 [of "write_cmd s" "bytes32 (write_cmd_offset s)"]
    le32_bytes32 [of "write_cmd_offset s" "[]"]
  by (simp add: seekto_of_bytes_def bytes_of_seekto_def) (simp add: bytes32_def)

lemma length_bytes_of_seekto [simp]: "length (bytes_of_seekto s) = 8"
  by (simp add: bytes_of_seekto_def bytes32_def)

text \<open>Position of byte \<open>off\<close> of command \<open>c\<close>, if there is one.\<close>

definition spec_seekto :: "device \<Rightarrow> nat \<Rightarrow> nat \<Rightarrow> nat option" where
  "spec_seekto s c off =
     (if c < length (commands s) \<and> off < length (commands s ! c)
      then Some (sum_list (take c (map length (commands s))) + off) else None)"

text \<open>The slot that the ioctl addresses, and its size as the code narrows it.\<close>

lemma cmd_idx_slot:
  assumes "ring_inv b" and "unat c \<le> 10"
  shows "unat ((c :: uint32_t) + ucast (out_offs b)) mod 10 = ring_slot b (unat c)"
proof -
  have o: "unat (ucast (out_offs b) :: uint32_t) = unat (out_offs b)"
    using assms(1) by (simp add: unsigned_ucast_eq ring_inv_def take_bit_nat_eq_self)
  then have "unat (c + ucast (out_offs b)) = unat c + unat (out_offs b)"
    using assms by (subst unat_add_no_wrap) (auto simp: ring_inv_def)
  then show ?thesis by (simp add: ring_slot_def add.commute)
qed

lemma unused_slot:
  assumes "ring_inv b" and "ring_fresh b" and "ring_count b \<le> c" and "c < 10"
  shows "entry b ! ring_slot b c = zero_entry"
proof -
  have "\<not> full b" using assms(3,4) by (auto simp: ring_count_def)
  then have "out_offs b = 0" and "\<forall>i < 10. unat (in_offs b) \<le> i \<longrightarrow> entry b ! i = zero_entry"
    using assms(2) by (auto simp: ring_fresh_def)
  moreover have "ring_count b = unat (in_offs b)"
    using \<open>\<not> full b\<close> \<open>out_offs b = 0\<close> assms(1) by (simp add: ring_count_def ring_inv_def)
  ultimately show ?thesis using assms(3,4) by (simp add: ring_slot_def)
qed

lemma unat_narrow: "unat (x :: size_t) < 2 ^ 31 \<Longrightarrow> unat (ucast x :: c_int) = unat x"
  by (simp add: unsigned_ucast_eq take_bit_nat_eq_self)

lemma nth_le_sum_list: "k < length xs \<Longrightarrow> xs ! k \<le> sum_list (xs :: nat list)"
  by (induction xs arbitrary: k) (auto simp: nth_Cons' trans_le_add2)

text \<open>Command numbers up to 9 do what the specification says.\<close>

lemma aesd_ioctl_seekto:
  assumes inv: "driver_inv d" and K: "kernel_ok K" and filp: "private_data filp = aesd_device"
    and lock: "mutex_lock_interruptible K = 0" and copy: "snd (copy_from_user K (bytes_of_seekto s) 8) = 0"
    and c: "write_cmd s \<noteq> 10" and small: "length (contents (dev_abs d)) < 2 ^ 31"
  shows "aesd_ioctl K d filp AESDCHAR_IOCSEEKTO (bytes_of_seekto s) =
    (case spec_seekto (dev_abs d) (unat (write_cmd s)) (unat (write_cmd_offset s)) of
       None \<Rightarrow> Inr (d, filp, - EINVAL)
     | Some p \<Rightarrow> Inr (d, filp\<lparr>f_pos := f_pos filp + of_nat p\<rparr>, 0))"
proof -
  let ?b = "the_ring d" and ?c = "unat (write_cmd s)" and ?o = "write_cmd_offset s"
  have cp: "copy_from_user K (bytes_of_seekto s) 8 = (bytes_of_seekto s, 0)"
    using copy_from_user_result [OF K, of "bytes_of_seekto s" 8] copy
    by (cases "copy_from_user K (bytes_of_seekto s) 8") auto
  have lk: "lock_dev K d = Inr (0, set_lock True d)"
    using driver_invD(3) [OF inv] lock by (rule lock_dev_ok)
  note run = aesd_ioctl_def filp lk cp seekto_roundtrip
  note len = length_commands [of d] command_lengths [OF inv]
  show ?thesis
  proof (cases "10 < write_cmd s")
    case True
    then have "10 < ?c" by (simp add: word_less_nat_alt)
    then have "spec_seekto (dev_abs d) ?c (unat ?o) = None"
      using ring_count_le [OF driver_invD(1) [OF inv]] by (simp add: spec_seekto_def len)
    with True driver_invD(3) [OF inv] show ?thesis by (simp add: run)
  next
    case False
    then have c9: "?c < 10"
      using c by (auto simp: word_less_nat_alt word_unat_eq_iff)
    have idx: "unat (write_cmd s + ucast (out_offs ?b)) mod 10 = ring_slot ?b ?c"
      using c9 driver_invD(1) [OF inv] by (intro cmd_idx_slot) auto
    have inside: "ring_slot ?b ?c < length (entry ?b)"
      using driver_invD(1) [OF inv] by (simp add: ring_inv_def)
    show ?thesis
    proof (cases "?c < ring_count ?b")
      case False
      then have "entry ?b ! ring_slot ?b ?c = zero_entry"
        using c9 driver_invD(1,2) [OF inv] by (intro unused_slot) auto
      then show ?thesis
        using False \<open>\<not> 10 < write_cmd s\<close> idx inside driver_invD(3) [OF inv]
        by (simp add: run Let_def zero_entry_def spec_seekto_def len)
    next
      case True
      let ?e = "ring_entries ?b ! ?c"
      have e: "entry ?b ! ring_slot ?b ?c = ?e" using True by (simp add: nth_ring_entries)
      have cmd: "length (commands (dev_abs d) ! ?c) = entry_len ?e"
        using True len(2) by (metis length_commands length_map length_ring_entries nth_map)
      have "entry_len ?e < 2 ^ 31"
        using small nth_le_sum_list [of ?c "ring_sizes ?b"] True by (simp add: length_contents len)
      then have test: "?o < ucast (entry_size ?e) \<longleftrightarrow> unat ?o < length (commands (dev_abs d) ! ?c)"
        by (simp add: word_less_nat_alt unat_narrow cmd) (simp add: entry_len_def unat_narrow)
      have loop: "sum_sizes ?b (unat (out_offs ?b)) (ring_slot ?b ?c) 0 =
          Some (of_nat (sum_list (take ?c (map length (commands (dev_abs d))))))"
        using True c9 by (intro sum_sizes_from_start [OF inv]) (simp_all add: len)
      have pos: "(scast (of_nat (sum_list (take ?c (map length (commands (dev_abs d))))) + ?o) :: loff_t)
          = of_nat (sum_list (take ?c (map length (commands (dev_abs d)))) + unat ?o)"
        if "unat ?o < length (commands (dev_abs d) ! ?c)"
      proof -
        let ?ls = "map length (commands (dev_abs d))"
        have "sum_list (take ?c ?ls) + unat ?o < sum_list (take (Suc ?c) ?ls)"
          using that True by (simp add: sum_list_take_Suc len(1))
        also have "\<dots> \<le> length (contents (dev_abs d))"
          unfolding length_contents by (rule sum_list_take_le)
        finally have "sum_list (take ?c ?ls) + unat ?o < 2 ^ 31" using small by simp
        from scast_of_nat_32 [OF this] show ?thesis by simp
      qed
      show ?thesis
        using True \<open>\<not> 10 < write_cmd s\<close> idx inside e test loop pos driver_invD(3) [OF inv]
        by (simp add: run Let_def spec_seekto_def len)
    qed
  qed
qed

text \<open>The bound lets command number 10 through; it addresses the same slot as number 0.\<close>

lemma aesd_ioctl_ten:
  assumes inv: "driver_inv d" and K: "kernel_ok K"
    and copy: "snd (copy_from_user K (bytes_of_seekto \<lparr>write_cmd = 10, write_cmd_offset = off\<rparr>) 8) = 0"
      "snd (copy_from_user K (bytes_of_seekto \<lparr>write_cmd = 0, write_cmd_offset = off\<rparr>) 8) = 0"
  shows "aesd_ioctl K d filp AESDCHAR_IOCSEEKTO (bytes_of_seekto \<lparr>write_cmd = 10, write_cmd_offset = off\<rparr>) =
    aesd_ioctl K d filp AESDCHAR_IOCSEEKTO (bytes_of_seekto \<lparr>write_cmd = 0, write_cmd_offset = off\<rparr>)"
proof -
  have cp: "copy_from_user K (bytes_of_seekto s) 8 = (bytes_of_seekto s, 0)"
    if "snd (copy_from_user K (bytes_of_seekto s) 8) = 0" for s
    using copy_from_user_result [OF K, of "bytes_of_seekto s" 8] that
    by (cases "copy_from_user K (bytes_of_seekto s) 8") auto
  have "ring_slot (the_ring d) 10 = ring_slot (the_ring d) 0" by (simp add: ring_slot_def)
  then have "unat (10 + ucast (out_offs (the_ring d)) :: uint32_t) mod 10
      = unat (0 + ucast (out_offs (the_ring d)) :: uint32_t) mod 10"
    using cmd_idx_slot [OF driver_invD(1) [OF inv], of 10] cmd_idx_slot [OF driver_invD(1) [OF inv], of 0]
    by simp
  then show ?thesis
    by (auto simp: aesd_ioctl_def cp [OF copy(1)] cp [OF copy(2)] seekto_roundtrip lock_dev_def Let_def
        split: option.split)
qed

end
