(* ===== verification/Driver_Session.thy ===== *)
theory Driver_Session
  imports Driver_Seek
begin

text \<open>
  Runs of file operations on one open file, refined to the abstract device with a position;
  the bound on the memory the driver holds; module load and unload.
\<close>

section \<open>Memory held by the driver\<close>

lemma card_addr_of: "card (addr_of p) \<le> 1"
  by (cases p) auto

lemma finite_addr_of [simp]: "finite (addr_of p)"
  by (cases p) auto

lemma card_owned: "card (owned es p) \<le> Suc (length es)"
proof -
  have "card (\<Union>e \<in> set es. addr_of (buffptr e)) \<le> (\<Sum>e \<in> set es. card (addr_of (buffptr e)))"
    by (rule card_UN_le) simp
  also have "\<dots> \<le> (\<Sum>e \<in> set es. 1)"
    by (rule sum_mono) (rule card_addr_of)
  also have "\<dots> \<le> length es"
    by (simp add: card_length)
  finally show ?thesis
    using card_Un_le [of "addr_of p" "\<Union>e \<in> set es. addr_of (buffptr e)"] card_addr_of [of p]
    by (simp add: owned_def)
qed

text \<open>At most ten stored commands and one pending block are live.\<close>

lemma driver_blocks_bound:
  assumes "driver_inv d"
  shows "finite (dom (mem d))" and "card (dom (mem d)) \<le> 11"
proof -
  note dom = heap_okD(4) [OF driver_invD(4) [OF assms]]
  show "finite (dom (mem d))" by (simp add: dom owned_def)
  show "card (dom (mem d)) \<le> 11"
    using card_owned [of "ring_entries (the_ring d)" "p_write_buffer (dev d)"]
      ring_count_le [OF driver_invD(1) [OF assms]] by (simp add: dom)
qed

text \<open>A kernel that can always serve one more block next to eleven live ones.\<close>

definition roomy :: "kernel \<Rightarrow> bool" where
  "roomy K \<longleftrightarrow> (\<forall>h p n. finite (dom h) \<longrightarrow> card (dom h) \<le> 11 \<longrightarrow> fst (krealloc K h p n) \<noteq> NULL)"

lemma demo_kernel_roomy: "roomy demo_kernel"
proof -
  have "fst (demo_krealloc h p n) \<noteq> NULL" if "finite (dom h)" and "card (dom h) \<le> 11" for h p n
  proof -
    have "\<exists>a \<in> {0..<32}. h a = None"
    proof (rule ccontr)
      assume "\<not> (\<exists>a \<in> {0..<32}. h a = None)"
      then have "{0..<32} \<subseteq> dom h" by auto
      from card_mono [OF that(1) this] that(2) show False by simp
    qed
    then have "find (\<lambda>a. h a = None) [0..<32] \<noteq> None"
      unfolding find_None_iff set_upt by blast
    then show ?thesis by (auto simp: demo_krealloc_def Let_def split: option.split)
  qed
  then show ?thesis by (simp add: roomy_def demo_kernel_def)
qed

section \<open>Sessions on one file\<close>

datatype dev_op =
    Write kernel "byte list" size_t
  | Read kernel size_t
  | Seek kernel loff_t int
  | Seekto kernel aesd_seekto

datatype reply =
    Written size_t
  | Data "byte list" size_t
  | At loff_t
  | Code c_int

text \<open>The kernel finds the function for a call in the table of the device.\<close>

fun session_step :: "driver \<times> kfile \<Rightarrow> dev_op \<Rightarrow> fault + (driver \<times> kfile) \<times> reply" where
  "session_step (d, filp) (Write K buf n) =
     (case write_op aesd_fops K d filp buf n of Inl e \<Rightarrow> Inl e | Inr (d', r) \<Rightarrow> Inr ((d', filp), Written r))"
| "session_step (d, filp) (Read K n) =
     (case read_op aesd_fops K d filp n of
        Inl e \<Rightarrow> Inl e | Inr (d', filp', bs, r) \<Rightarrow> Inr ((d', filp'), Data bs r))"
| "session_step (d, filp) (Seek K off whence) =
     (case llseek_op aesd_fops K d filp off whence of
        Inl e \<Rightarrow> Inl e | Inr (d', filp', r) \<Rightarrow> Inr ((d', filp'), At r))"
| "session_step (d, filp) (Seekto K s) =
     (case unlocked_ioctl aesd_fops K d filp AESDCHAR_IOCSEEKTO (bytes_of_seekto s) of
        Inl e \<Rightarrow> Inl e | Inr (d', filp', r) \<Rightarrow> Inr ((d', filp'), Code r))"

text \<open>The specification: a device and a position.\<close>

definition seek_result :: "device \<Rightarrow> loff_t \<Rightarrow> loff_t \<Rightarrow> (device \<times> loff_t) \<times> reply" where
  "seek_result s pos new = (if sint new < 0 then ((s, pos), At (- EINVAL)) else ((s, new), At new))"

fun spec_step :: "device \<times> loff_t \<Rightarrow> dev_op \<Rightarrow> (device \<times> loff_t) \<times> reply" where
  "spec_step (s, pos) (Write K buf n) = ((spec_write s (take (unat n) buf), pos), Written n)"
| "spec_step (s, pos) (Read K n) =
     (let bs = spec_read s (unat pos) (unat n)
      in ((s, pos + of_nat (length bs)), Data bs (of_nat (length bs))))"
| "spec_step (s, pos) (Seek K off whence) =
     seek_result s pos (if whence = 0 then off else if whence = 1 then pos + off
       else of_int (int (length (contents s)) - 1) + off)"
| "spec_step (s, pos) (Seekto K q) =
     (case spec_seekto s (unat (write_cmd q)) (unat (write_cmd_offset q)) of
        None \<Rightarrow> ((s, pos), Code (- EINVAL))
      | Some p \<Rightarrow> ((s, pos + of_nat p), Code 0))"

text \<open>
  Where the driver follows the specification: the kernel serves the call, and the three
  calls on which it does something else are left out (reading an empty device, seeking to
  the end of a full one, and command number 10).
\<close>

fun session_ok :: "device \<times> loff_t \<Rightarrow> dev_op \<Rightarrow> bool" where
  "session_ok (s, pos) (Write K buf n) \<longleftrightarrow> kernel_ok K \<and> roomy K \<and> mutex_lock_interruptible K = 0
     \<and> snd (copy_from_user K buf (unat n)) = 0 \<and> device_bytes s + unat n < 2 ^ 63"
| "session_ok (s, pos) (Read K n) \<longleftrightarrow> mutex_lock_interruptible K = 0
     \<and> commands s \<noteq> [] \<and> copy_to_user K (spec_read s (unat pos) (unat n)) = 0"
| "session_ok (s, pos) (Seek K off whence) \<longleftrightarrow> mutex_lock_interruptible K = 0
     \<and> (whence = 0 \<or> whence = 1
        \<or> whence = 2 \<and> length (commands s) < 10 \<and> length (contents s) < 2 ^ 31)"
| "session_ok (s, pos) (Seekto K q) \<longleftrightarrow> kernel_ok K \<and> mutex_lock_interruptible K = 0
     \<and> snd (copy_from_user K (bytes_of_seekto q) 8) = 0 \<and> write_cmd q \<noteq> 10
     \<and> length (contents s) < 2 ^ 31"

definition session_abs :: "driver \<times> kfile \<Rightarrow> device \<times> loff_t" where
  "session_abs x = (dev_abs (fst x), f_pos (snd x))"

definition session_inv :: "driver \<times> kfile \<Rightarrow> bool" where
  "session_inv x \<longleftrightarrow> driver_inv (fst x) \<and> private_data (snd x) = aesd_device"

lemma set_pos_step:
  "session_inv (d, filp) \<Longrightarrow>
    \<exists>y. (case set_pos d filp new of Inl e \<Rightarrow> Inl e | Inr (d', filp', r) \<Rightarrow> Inr ((d', filp'), At r))
        = Inr (y, snd (seek_result (dev_abs d) (f_pos filp) new))
      \<and> session_inv y \<and> session_abs y = fst (seek_result (dev_abs d) (f_pos filp) new)"
  by (simp add: set_pos_def seek_result_def session_inv_def session_abs_def)

interpretation session: refines session_step spec_step session_abs session_inv session_ok
proof unfold_locales
  fix x :: "driver \<times> kfile" and op
  assume inv: "session_inv x" and ok: "session_ok (session_abs x) op"
  obtain d filp where x: "x = (d, filp)" by (cases x)
  have dinv: "driver_inv d" and filp: "private_data filp = aesd_device"
    using inv by (simp_all add: x session_inv_def)
  note here = x session_abs_def session_inv_def
  show "\<exists>y. session_step x op = Inr (y, snd (spec_step (session_abs x) op)) \<and> session_inv y
      \<and> session_abs y = fst (spec_step (session_abs x) op)"
  proof (cases op)
    case (Write K buf n)
    with ok driver_blocks_bound [OF dinv] have "write_env_ok K d buf n"
      by (simp add: here write_env_ok_def roomy_def)
    from aesd_write_correct [OF _ dinv filp this] Write ok show ?thesis
      using filp by (auto simp: here)
  next
    case (Read K n)
    with aesd_read_correct [OF dinv filp, of K n] ok show ?thesis
      using inv by (simp add: here Let_def)
  next
    case (Seek K off whence)
    then have lock: "mutex_lock_interruptible K = 0" using ok by (simp add: here)
    show ?thesis
      using Seek ok set_pos_step [OF inv [unfolded x]] aesd_llseek_end [OF dinv filp lock]
      by (auto simp: x session_abs_def aesd_llseek_set aesd_llseek_cur)
  next
    case (Seekto K q)
    with aesd_ioctl_seekto [OF dinv _ filp, of K q] ok show ?thesis
      using inv by (auto simp: here split: option.split)
  qed
qed

section \<open>Module load and unload\<close>

lemma aesd_init_module_ok:
  assumes "fst (alloc_chrdev_region C (aesd_minor m)) \<ge> 0"
    and "cdev_add C (MKDEV C (MAJOR C (snd (alloc_chrdev_region C (aesd_minor m)))) (aesd_minor m)) = 0"
    and "mem (drv m) = Map.empty"
  shows "fst (aesd_init_module C m) = 0" and "drv (snd (aesd_init_module C m)) = initial_driver"
    and "region_held (snd (aesd_init_module C m)) = Some (snd (alloc_chrdev_region C (aesd_minor m)))"
  using assms
  by (auto simp: aesd_init_module_def aesd_setup_cdev_def initial_driver_def zero_dev_def
      aesd_circular_buffer_init_def Let_def split: prod.splits)

text \<open>
  What the registration promises: 0 or an error, and the number that \<open>MKDEV\<close> makes of the major
  number of the region and the requested minor number is the region's.
\<close>

definition chrdev_ok :: "chrdev_api \<Rightarrow> bool" where
  "chrdev_ok C \<longleftrightarrow> (\<forall>minor. fst (alloc_chrdev_region C minor) \<le> 0
     \<and> (fst (alloc_chrdev_region C minor) = 0 \<longrightarrow>
         MKDEV C (MAJOR C (snd (alloc_chrdev_region C minor))) minor = snd (alloc_chrdev_region C minor)))"

lemma chrdev_okD:
  assumes "chrdev_ok C" and "alloc_chrdev_region C minor = (result, n)" and "\<not> result < 0"
  shows "MKDEV C (MAJOR C n) minor = n"
proof -
  have "result \<le> 0" and "result = 0 \<longrightarrow> MKDEV C (MAJOR C n) minor = n"
    using assms(1) [unfolded chrdev_ok_def, rule_format, of minor] assms(2) by simp_all
  with assms(3) show ?thesis by simp
qed

text \<open>A failed load keeps nothing registered.\<close>

lemma aesd_init_module_fail:
  assumes "fst (aesd_init_module C m) \<noteq> 0" and "region_held m = None" and "cdev_live m = None"
    and "fst (alloc_chrdev_region C (aesd_minor m)) \<le> 0"
  shows "region_held (snd (aesd_init_module C m)) = None" and "cdev_live (snd (aesd_init_module C m)) = None"
  using assms
  by (auto simp: aesd_init_module_def aesd_setup_cdev_def Let_def split: prod.splits if_splits)

text \<open>Every slot of the array holds a stored entry or is still zero.\<close>

lemma slot_cases:
  assumes "ring_inv b" and "ring_fresh b" and "j < 10"
  shows "(\<exists>k < ring_count b. j = ring_slot b k) \<or> entry b ! j = zero_entry"
proof -
  define k where "k = (j + 10 - unat (out_offs b)) mod 10"
  have "ring_slot b k = j" and "k < 10"
    using assms(1,3) by (simp_all add: k_def ring_slot_def ring_inv_def mod_simps)
  then show ?thesis
    using unused_slot [OF assms(1,2), of k] by (cases "k < ring_count b") auto
qed

lemma slot_ptr_inj:
  assumes "ring_inv b" and "ring_fresh b" and "distinct (map buffptr (ring_entries b))"
    and "i < 10" and "j < 10" and "buffptr (entry b ! i) = Ptr a" and "buffptr (entry b ! j) = Ptr a"
  shows "i = j"
proof -
  have hit: "\<exists>k < ring_count b. l = ring_slot b k \<and> buffptr (ring_entries b ! k) = Ptr a"
    if "l < 10" and "buffptr (entry b ! l) = Ptr a" for l
    using slot_cases [OF assms(1,2) that(1)] that(2) by (auto simp: zero_entry_def nth_ring_entries)
  from hit [OF assms(4,6)] hit [OF assms(5,7)] obtain k l where
    "k < ring_count b" "i = ring_slot b k" "buffptr (ring_entries b ! k) = Ptr a"
    "l < ring_count b" "j = ring_slot b l" "buffptr (ring_entries b ! l) = Ptr a" by blast
  with nth_eq_iff_index_eq [OF assms(3), of k l] show ?thesis by simp
qed

text \<open>Freeing the slots from \<open>index\<close> on removes their blocks and nothing else.\<close>

lemma foreach_free:
  assumes K: "kernel_ok K" and len: "length (entry b) = 10"
    and inj: "\<And>i j a. i < 10 \<Longrightarrow> j < 10 \<Longrightarrow> buffptr (entry b ! i) = Ptr a \<Longrightarrow> buffptr (entry b ! j) = Ptr a \<Longrightarrow> i = j"
  shows "index \<le> 10 \<Longrightarrow> (\<And>i. index \<le> i \<Longrightarrow> i < 10 \<Longrightarrow> valid_ptr h (buffptr (entry b ! i))) \<Longrightarrow>
    \<exists>h'. foreach_from (\<lambda>e h. call_kfree K h (buffptr e)) b index h = Inr h'
      \<and> dom h' = dom h - (\<Union>i \<in> {index..<10}. addr_of (buffptr (entry b ! i)))"
proof (induction "10 - index" arbitrary: index h)
  case 0
  then show ?case by (simp add: foreach_from.simps)
next
  case (Suc n)
  let ?p = "buffptr (entry b ! index)"
  have i: "index < 10" and n: "n = 10 - Suc index" using Suc.hyps(2) by simp_all
  have free: "call_kfree K h ?p = Inr (release h ?p)"
    using Suc.prems(2) [of index] i K by (simp add: call_kfree_def kfree_release)
  have "valid_ptr (release h ?p) (buffptr (entry b ! i))" if "Suc index \<le> i" "i < 10" for i
  proof -
    have "addr_of (buffptr (entry b ! i)) \<inter> addr_of ?p = {}"
      using inj [of i index] that i by auto
    then show ?thesis
      using Suc.prems(2) [of i] that by (auto simp: valid_ptr_iff dom_release)
  qed
  then obtain h' where "foreach_from (\<lambda>e h. call_kfree K h (buffptr e)) b (Suc index) (release h ?p) = Inr h'"
      and "dom h' = dom (release h ?p) - (\<Union>i \<in> {Suc index..<10}. addr_of (buffptr (entry b ! i)))"
    using Suc.hyps(1) [of "Suc index" "release h ?p"] n i by auto
  moreover have "{index..<10} = insert index {Suc index..<10}" using i by auto
  ultimately show ?case
    using i free len by (subst foreach_from.simps) (auto simp: dom_release)
qed

lemma aesd_cleanup_module_frees:
  assumes K: "kernel_ok K" and inv: "driver_inv (drv m)"
    and reg: "region_held m = Some (MKDEV C (aesd_major m) (aesd_minor m))"
  shows "\<exists>m'. aesd_cleanup_module C K m = Inr m' \<and> region_held m' = None \<and> cdev_live m' = None
    \<and> dom (mem (drv m')) = addr_of (p_write_buffer (dev (drv m)))"
proof -
  let ?b = "the_ring (drv m)" and ?h = "mem (drv m)" and ?p = "p_write_buffer (dev (drv m))"
  note ring = driver_invD(1,2) [OF inv] and ok = driver_invD(4) [OF inv]
  have len: "length (entry ?b) = 10" using ring(1) by (simp add: ring_inv_def)
  have valid: "valid_ptr ?h (buffptr (entry ?b ! i))" if "i < 10" for i
    using slot_cases [OF ring that] heap_ok_entry_valid [OF ok]
    by (auto simp: zero_entry_def nth_ring_entries [symmetric])
  have inj: "i = j" if "i < 10" "j < 10" "buffptr (entry ?b ! i) = Ptr a" "buffptr (entry ?b ! j) = Ptr a"
    for i j a
    using slot_ptr_inj [OF ring heap_okD(2) [OF ok]] that by blast
  have "\<exists>h'. foreach_from (\<lambda>e h. call_kfree K h (buffptr e)) ?b 0 ?h = Inr h'
      \<and> dom h' = dom ?h - (\<Union>i \<in> {0..<10}. addr_of (buffptr (entry ?b ! i)))"
    by (rule foreach_free [OF K len]) (simp_all add: inj valid)
  then obtain h' where fr: "foreach_from (\<lambda>e h. call_kfree K h (buffptr e)) ?b 0 ?h = Inr h'"
    and dom: "dom h' = dom ?h - (\<Union>i \<in> {0..<10}. addr_of (buffptr (entry ?b ! i)))"
    by blast
  have slots: "(\<Union>i \<in> {0..<10}. addr_of (buffptr (entry ?b ! i)))
      = (\<Union>e \<in> set (ring_entries ?b). addr_of (buffptr e))"
  proof (intro equalityI UN_least)
    fix i :: nat assume "i \<in> {0..<10}"
    then show "addr_of (buffptr (entry ?b ! i)) \<subseteq> (\<Union>e \<in> set (ring_entries ?b). addr_of (buffptr e))"
      using slot_cases [OF ring, of i] by (auto simp: zero_entry_def nth_ring_entries [symmetric] intro!: bexI)
  next
    fix e assume "e \<in> set (ring_entries ?b)"
    then show "addr_of (buffptr e) \<subseteq> (\<Union>i \<in> {0..<10}. addr_of (buffptr (entry ?b ! i)))"
      by (force simp: ring_entries_def)
  qed
  have "dom h' = addr_of ?p"
    using heap_ok_disjoint [OF ok] unfolding dom heap_okD(4) [OF ok] owned_def slots by blast
  with fr reg show ?thesis by (simp add: aesd_cleanup_module_def)
qed

end
