(* ===== verification/Driver_Steps.thy ===== *)
theory Driver_Steps
  imports Driver_Session
begin

text \<open>
  The driver as a state machine: a step is any file operation, with any answers of a kernel
  that keeps its documented promises, errors included. A write that runs out of memory while
  a command is pending leaves \<open>p_write_buffer\<close> dangling, so a reachable state either satisfies
  the invariant or is \<open>stale\<close>: it does once the pending bytes are forgotten. In all of them
  the seeks and the ioctl do not fault, a read only on an empty device past position 0, and a
  write exactly when it takes the lock of a stale device.
\<close>

section \<open>Operations that leave the device alone\<close>

lemma lock_dev_InrD:
  "lock_dev K d = Inr (rc, d1) \<Longrightarrow> (rc = 0 \<longrightarrow> d1 = set_lock True d) \<and> (rc \<noteq> 0 \<longrightarrow> d1 = d)"
  by (auto simp: lock_dev_def split: if_splits)

lemma set_pos_state: "set_pos d filp p = Inr (d', filp', r) \<Longrightarrow> d' = d"
  by (auto simp: set_pos_def split: if_splits)

lemma aesd_read_state:
  assumes "\<not> lock_held (dev d)" and "aesd_read K d filp n = Inr (d', filp', bs, r)"
  shows "d' = d"
  using assms
  by (auto simp: aesd_read_def Let_def split: if_splits sum.splits option.splits prod.splits
      dest!: lock_dev_InrD)

lemma aesd_llseek_state:
  assumes "\<not> lock_held (dev d)" and "aesd_llseek K d filp off whence = Inr (d', filp', r)"
  shows "d' = d"
  using assms
  by (auto simp: aesd_llseek_def Let_def split: if_splits sum.splits option.splits prod.splits
      dest!: lock_dev_InrD set_pos_state)

lemma aesd_ioctl_state:
  assumes "\<not> lock_held (dev d)" and "aesd_ioctl K d filp cmd arg = Inr (d', filp', r)"
  shows "d' = d"
  using assms
  by (auto simp: aesd_ioctl_def Let_def split: if_splits sum.splits option.splits prod.splits
      dest!: lock_dev_InrD)

section \<open>All outcomes of a write\<close>

text \<open>From the invariant a write never faults, and only running out of memory can break it.\<close>

lemma aesd_write_outcome:
  assumes K: "kernel_ok K" and inv: "driver_inv d" and filp: "private_data filp = aesd_device"
    and room: "device_bytes (dev_abs d) + unat count < 2 ^ 63"
  obtains (interrupted) "aesd_write K d filp buf count = Inr (d, - ERESTARTSYS)"
    | (nomem) "aesd_write K d filp buf count = Inr (d\<lparr>mem := release (mem d) (p_write_buffer (dev d))\<rparr>, - ENOMEM)"
    | (fault) d' where "aesd_write K d filp buf count = Inr (d', - EFAULT)" and "driver_inv d'"
        and "dev_abs d' = dev_abs d"
    | (complete) d' where "aesd_write K d filp buf count = Inr (d', count)" and "driver_inv d'"
        and "dev_abs d' = spec_write (dev_abs d) (take (unat count) buf)"
proof (cases "mutex_lock_interruptible K = 0")
  case False
  then show thesis using aesd_write_interrupted [OF filp] interrupted by blast
next
  case lock: True
  let ?re = "fst (krealloc K (mem d) (p_write_buffer (dev d)) (unat (count + write_buffer_size (dev d))))"
  show thesis
  proof (cases "?re = NULL")
    case True
    then show thesis using aesd_write_nomem [OF K inv filp lock] nomem by blast
  next
    case mem: False
    show thesis
    proof (cases "snd (copy_from_user K buf (unat count)) = 0")
      case True
      with lock mem have "write_env_ok K d buf count" by (simp add: write_env_ok_def)
      then show thesis using aesd_write_correct [OF K inv filp _ room] complete by blast
    next
      case False
      then show thesis using aesd_write_fault [OF K inv filp lock mem _ room] fault by blast
    qed
  qed
qed

section \<open>The step relation\<close>

inductive driver_step :: "driver \<Rightarrow> driver \<Rightarrow> bool" where
  do_write: "kernel_ok K \<Longrightarrow> private_data filp = aesd_device \<Longrightarrow>
      device_bytes (dev_abs d) + unat count < 2 ^ 63 \<Longrightarrow>
      aesd_write K d filp buf count = Inr (d', r) \<Longrightarrow> driver_step d d'"
| do_read: "aesd_read K d filp count = Inr (d', filp', bs, r) \<Longrightarrow> driver_step d d'"
| do_llseek: "aesd_llseek K d filp off whence = Inr (d', filp', pos) \<Longrightarrow> driver_step d d'"
| do_ioctl: "aesd_ioctl K d filp cmd arg = Inr (d', filp', code) \<Longrightarrow> driver_step d d'"

inductive driver_reachable :: "driver \<Rightarrow> bool" where
  load: "driver_reachable initial_driver"
| step: "driver_reachable d \<Longrightarrow> driver_step d d' \<Longrightarrow> driver_reachable d'"

section \<open>Stale devices\<close>

text \<open>The device without its pending bytes; reads, seeks and ioctls do not look at these.\<close>

definition forget_pending :: "driver \<Rightarrow> driver" where
  "forget_pending d = d\<lparr>dev := (dev d)\<lparr>p_write_buffer := NULL, write_buffer_size := 0\<rparr>\<rparr>"

abbreviation dangling :: "driver \<Rightarrow> bool" where
  "dangling d \<equiv> \<not> valid_ptr (mem d) (p_write_buffer (dev d))"

definition stale :: "driver \<Rightarrow> bool" where
  "stale d \<longleftrightarrow> driver_inv (forget_pending d) \<and> dangling d"

lemma forget_pending_sel [simp]:
  "the_ring (forget_pending d) = the_ring d" "mem (forget_pending d) = mem d"
  "lock_held (dev (forget_pending d)) = lock_held (dev d)"
  "p_write_buffer (dev (forget_pending d)) = NULL" "write_buffer_size (dev (forget_pending d)) = 0"
  "commands (dev_abs (forget_pending d)) = commands (dev_abs d)"
  by (simp_all add: forget_pending_def dev_abs_def)

lemma stale_dangling: "stale d \<Longrightarrow> dangling d"
  by (simp add: stale_def)

lemma inv_not_dangling: "driver_inv d \<Longrightarrow> \<not> dangling d"
  using heap_ok_valid [OF driver_invD(4)] by simp

lemma stale_unlocked: "stale d \<Longrightarrow> \<not> lock_held (dev d)"
  using driver_invD(3) [of "forget_pending d"] by (simp add: stale_def)

text \<open>The one way to become stale.\<close>

lemma stale_nomem:
  assumes inv: "driver_inv d" and p: "p_write_buffer (dev d) = Ptr a"
  shows "stale (d\<lparr>mem := release (mem d) (p_write_buffer (dev d))\<rparr>)"
proof -
  let ?h = "release (mem d) (p_write_buffer (dev d))" and ?es = "ring_entries (the_ring d)"
  note ok = driver_invD(4) [OF inv]
  have frame: "block ?h (buffptr e) = block (mem d) (buffptr e)" if "e \<in> set ?es" for e
    using heap_ok_disjoint [OF ok that] by (intro block_frame) (auto simp: p)
  have "dom ?h = owned ?es NULL"
    using heap_okD(4) [OF ok] heap_ok_disjoint [OF ok] by (force simp: dom_release owned_def)
  from heap_ok_replace [OF ok frame this, of 0] have "heap_ok ?h ?es NULL 0"
    using heap_ok_special(1) [OF ok] by simp
  moreover have "blocks ?h ?es = blocks (mem d) ?es" by (rule blocks_cong) (rule frame)
  then have "device_bytes (dev_abs (forget_pending (d\<lparr>mem := ?h\<rparr>))) \<le> device_bytes (dev_abs d)"
    by (simp add: device_bytes_def contents_def dev_abs_def)
  ultimately have "driver_inv (forget_pending (d\<lparr>mem := ?h\<rparr>))"
    using driver_invD [OF inv] by (simp add: driver_inv_def)
  then show ?thesis by (simp add: stale_def p)
qed

text \<open>A write to a stale device is interrupted or hands the dangling pointer to \<open>krealloc\<close>.\<close>

lemma aesd_write_on_stale:
  assumes "stale d" and "private_data filp = aesd_device"
  shows "aesd_write K d filp buf count
    = (if mutex_lock_interruptible K = 0 then Inl UseAfterFree else Inr (d, - ERESTARTSYS))"
  using aesd_write_stale [OF assms(2) _ stale_unlocked [OF assms(1)] stale_dangling [OF assms(1)]]
    aesd_write_interrupted [OF assms(2)]
  by simp

text \<open>The reachable states.\<close>

definition driver_state :: "driver \<Rightarrow> bool" where
  "driver_state d \<longleftrightarrow> driver_inv d \<or> stale d"

lemma driver_state_forget: "driver_state d \<Longrightarrow> driver_inv d \<or> driver_inv (forget_pending d)"
  by (auto simp: driver_state_def stale_def)

lemma driver_state_unlocked: "driver_state d \<Longrightarrow> \<not> lock_held (dev d)"
  using driver_invD(3) stale_unlocked by (auto simp: driver_state_def)

lemma driver_state_write:
  assumes K: "kernel_ok K" and filp: "private_data filp = aesd_device"
    and room: "device_bytes (dev_abs d) + unat count < 2 ^ 63"
    and w: "aesd_write K d filp buf count = Inr (d', r)" and d: "driver_state d"
  shows "driver_state d' \<and> (stale d' \<longrightarrow> stale d \<or> r = - ENOMEM \<and> addr_of (p_write_buffer (dev d)) \<noteq> {})"
proof (cases "stale d")
  case True
  with aesd_write_on_stale [OF True filp, of K buf count] w show ?thesis
    by (simp add: driver_state_def split: if_splits)
next
  case False
  with d have inv: "driver_inv d" by (simp add: driver_state_def)
  then have fresh: "\<not> stale x" if "driver_inv x" for x
    using that inv_not_dangling stale_dangling by blast
  show ?thesis
    using K inv filp room
  proof (cases rule: aesd_write_outcome [where buf = buf])
    case nomem
    then have d': "d' = d\<lparr>mem := release (mem d) (p_write_buffer (dev d))\<rparr>" "r = - ENOMEM" using w by simp_all
    show ?thesis
    proof (cases "p_write_buffer (dev d)")
      case (Ptr a)
      with stale_nomem [OF inv Ptr] show ?thesis by (simp add: d' driver_state_def)
    qed (use inv fresh in \<open>simp_all add: d' driver_state_def\<close>)
  qed (use w inv fresh in \<open>auto simp: driver_state_def\<close>)
qed

lemma driver_step_state: "driver_step d d' \<Longrightarrow> driver_state d \<Longrightarrow> driver_state d'"
proof (induction rule: driver_step.induct)
  case (do_write K filp d count buf d' r)
  from driver_state_write [OF do_write] show ?case ..
next
  case (do_read K d filp count d' filp' bs r)
  with aesd_read_state driver_state_unlocked show ?case by blast
next
  case (do_llseek K d filp off whence d' filp' pos)
  with aesd_llseek_state driver_state_unlocked show ?case by blast
next
  case (do_ioctl K d filp cmd arg d' filp' code)
  with aesd_ioctl_state driver_state_unlocked show ?case by blast
qed

lemma driver_reachable_state: "driver_reachable d \<Longrightarrow> driver_state d"
proof (induction rule: driver_reachable.induct)
  case load
  show ?case by (simp add: driver_state_def driver_inv_initial)
next
  case (step d d')
  then show ?case by (blast intro: driver_step_state)
qed

text \<open>So only running out of memory with bytes pending lets the pointer dangle.\<close>

definition runs_out_pending :: "driver \<Rightarrow> driver \<Rightarrow> bool" where
  "runs_out_pending d d' \<longleftrightarrow> p_write_buffer (dev d) \<notin> {NULL, ZERO_SIZE_PTR}
     \<and> (\<exists>K filp buf count. kernel_ok K \<and> aesd_write K d filp buf count = Inr (d', - ENOMEM))"

lemma driver_step_dangling:
  assumes d: "driver_reachable d" and st: "driver_step d d'" and ok: "\<not> dangling d" and bad: "dangling d'"
  shows "runs_out_pending d d'"
proof -
  have state: "driver_state d" by (rule driver_reachable_state [OF d])
  have before: "\<not> stale d" using ok stale_dangling by blast
  have after: "stale d'"
    using driver_step_state [OF st state] bad inv_not_dangling by (auto simp: driver_state_def)
  have moved: "d' \<noteq> d" using ok bad by blast
  from st have "\<exists>K filp buf count. kernel_ok K \<and> aesd_write K d filp buf count = Inr (d', - ENOMEM)
      \<and> addr_of (p_write_buffer (dev d)) \<noteq> {}"
  proof (cases rule: driver_step.cases)
    case w: (do_write K filp count buf r)
    from driver_state_write [OF w state] before after
    have "r = - ENOMEM" "addr_of (p_write_buffer (dev d)) \<noteq> {}" by blast+
    with w show ?thesis by blast
  qed (use moved driver_state_unlocked [OF state] in
      \<open>auto dest: aesd_read_state aesd_llseek_state aesd_ioctl_state\<close>)
  then show ?thesis by (cases "p_write_buffer (dev d)") (auto simp: runs_out_pending_def)
qed

section \<open>Absence of faults\<close>

lemma aesd_write_no_fault:
  assumes "kernel_ok K" and "driver_inv d" and "private_data filp = aesd_device"
    and "device_bytes (dev_abs d) + unat count < 2 ^ 63"
  shows "\<exists>x. aesd_write K d filp buf count = Inr x"
  using assms by (cases rule: aesd_write_outcome [where buf = buf]) auto

text \<open>Reading needs a command in the device, or the start position.\<close>

lemma aesd_read_empty:
  assumes inv: "driver_inv d" and filp: "private_data filp = aesd_device"
    and lock: "mutex_lock_interruptible K = 0" and none: "commands (dev_abs d) = []"
  shows "aesd_read K d filp count =
    (let n = (if count < - f_pos filp then count else - f_pos filp) in
     if n = 0 then Inr (d, filp, [], 0) else Inl NullDeref)"
proof -
  have es: "ring_entries (the_ring d) = []" using none by (simp add: dev_abs_def blocks_def)
  have "ring_count (the_ring d) = 0" using es by (metis length_ring_entries list.size(3))
  then have zero: "entry (the_ring d) ! 0 = zero_entry"
    using unused_slot [OF driver_invD(1,2) [OF inv], of 0] driver_invD(1,2) [OF inv]
    by (auto simp: ring_slot_def ring_fresh_def ring_count_def split: if_splits)
  have "load_bytes (mem d) NULL p m = (if m = 0 then Inr [] else Inl NullDeref)" for p m
    by (simp add: load_bytes_def)
  moreover have "lock_dev K d = Inr (0, set_lock True d)"
    using driver_invD(3) [OF inv] lock by (rule lock_dev_ok)
  ultimately show ?thesis
    using filp driver_invD(3) [OF inv] find_entry_empty [OF driver_invD(1,2) [OF inv] es] zero
    by (auto simp: aesd_read_def zero_entry_def Let_def unat_eq_zero)
qed

text \<open>The summing loop ends from every slot, whatever the sizes.\<close>

lemma sum_sizes_ends:
  assumes inv: "ring_inv b" and j: "j < 10"
  shows "k \<le> j \<Longrightarrow> \<exists>r. sum_sizes b (ring_slot b k) (ring_slot b j) acc = Some r"
proof (induction "j - k" arbitrary: k acc)
  case 0
  then show ?case by (simp add: sum_sizes.simps)
next
  case (Suc n)
  then have k: "k < j" by simp
  then have "ring_slot b k \<noteq> ring_slot b j" using ring_slot_inj [of k j b] j by auto
  moreover have "ring_slot b k < length (entry b)" using inv by (simp add: ring_inv_def)
  moreover have "n = j - Suc k" using Suc.hyps(2) by simp
  ultimately show ?case
    using Suc.hyps(1) [of "Suc k"] k by (subst sum_sizes.simps) (simp add: ring_slot_Suc)
qed

lemma ring_slot_onto:
  assumes "ring_inv b" and "i < 10"
  shows "\<exists>k < 10. i = ring_slot b k"
  using assms
  by (intro exI [of _ "(i + 10 - unat (out_offs b)) mod 10"]) (simp add: ring_slot_def ring_inv_def mod_simps)

lemma sum_sizes_from_out:
  assumes inv: "ring_inv b" and i: "i < 10"
  shows "\<exists>r. sum_sizes b (unat (out_offs b)) i acc = Some r"
proof -
  obtain k where "k < 10" and "i = ring_slot b k" using ring_slot_onto [OF inv i] by blast
  moreover have "unat (out_offs b) = ring_slot b 0" using inv by (simp add: ring_slot_0 ring_inv_def)
  ultimately show ?thesis using sum_sizes_ends [OF inv, of k 0 acc] by simp
qed

lemma aesd_llseek_no_fault:
  assumes "driver_inv d" and "private_data filp = aesd_device"
  shows "\<exists>x. aesd_llseek K d filp off whence = Inr x"
proof -
  note ring = driver_invD(1) [OF assms(1)]
  have "unat (in_offs (the_ring d)) < 10" using ring by (simp add: ring_inv_def)
  from sum_sizes_from_out [OF ring this] obtain r where
    "sum_sizes (the_ring d) (unat (out_offs (the_ring d))) (unat (in_offs (the_ring d))) 0 = Some r"
    by blast
  then show ?thesis
    using assms(2) driver_invD(3) [OF assms(1)]
    by (auto simp: aesd_llseek_def set_pos_def lock_dev_def)
qed

lemma aesd_ioctl_no_fault:
  assumes "driver_inv d" and "private_data filp = aesd_device"
  shows "\<exists>x. aesd_ioctl K d filp cmd arg = Inr x"
proof -
  note ring = driver_invD(1) [OF assms(1)]
  have loop: "\<exists>r. sum_sizes (the_ring d) (unat (out_offs (the_ring d))) (n mod 10) 0 = Some r" for n
    using sum_sizes_from_out [OF ring] by simp
  have inside: "\<not> length (entry (the_ring d)) \<le> n mod 10" for n
    using ring by (simp add: ring_inv_def)
  obtain bs left where cp: "copy_from_user K arg 8 = (bs, left)" by (cases "copy_from_user K arg 8")
  obtain r where "sum_sizes (the_ring d) (unat (out_offs (the_ring d)))
      (unat (write_cmd (seekto_of_bytes bs) + ucast (out_offs (the_ring d))) mod 10) 0 = Some r"
    using loop by blast
  then show ?thesis
    using assms(2) driver_invD(3) [OF assms(1)] inside
    by (auto simp: aesd_ioctl_def lock_dev_def Let_def cp)
qed

lemma aesd_read_no_fault:
  assumes inv: "driver_inv d" and filp: "private_data filp = aesd_device"
    and some: "commands (dev_abs d) \<noteq> [] \<or> f_pos filp = 0"
  shows "\<exists>x. aesd_read K d filp count = Inr x"
proof (cases "mutex_lock_interruptible K = 0")
  case False
  then show ?thesis using filp by (simp add: aesd_read_def lock_dev_interrupted)
next
  case lock: True
  show ?thesis
  proof (cases "commands (dev_abs d) = []")
    case True
    then show ?thesis
      using some aesd_read_empty [OF inv filp lock True, of count] by (simp add: Let_def)
  next
    case False
    let ?K = "K\<lparr>copy_to_user := \<lambda>_. 0\<rparr>"
    have same: "lock_dev ?K d = lock_dev K d" by (simp add: lock_dev_def)
    have "\<exists>x. aesd_read ?K d filp count = Inr x"
      using aesd_read_correct [OF inv filp _ False, of ?K count] lock by (simp add: Let_def)
    then show ?thesis
      by (auto simp: aesd_read_def Let_def same split: if_splits sum.splits option.splits prod.splits)
  qed
qed

text \<open>The same for stale devices: these operations do not look at the pending bytes.\<close>

lemma forget_lock: "lock_dev K (forget_pending d) =
    (case lock_dev K d of Inl e \<Rightarrow> Inl e | Inr (rc, d1) \<Rightarrow> Inr (rc, forget_pending d1))"
  by (simp add: lock_dev_def set_lock_def forget_pending_def)

lemma forget_read: "(\<exists>x. aesd_read K (forget_pending d) filp count = Inr x) \<longleftrightarrow> (\<exists>x. aesd_read K d filp count = Inr x)"
  by (simp add: aesd_read_def forget_lock Let_def split: sum.split prod.split option.split)

lemma forget_llseek:
  "(\<exists>x. aesd_llseek K (forget_pending d) filp off whence = Inr x) \<longleftrightarrow> (\<exists>x. aesd_llseek K d filp off whence = Inr x)"
  by (simp add: aesd_llseek_def set_pos_def forget_lock Let_def split: sum.split prod.split option.split)

lemma forget_ioctl:
  "(\<exists>x. aesd_ioctl K (forget_pending d) filp cmd arg = Inr x) \<longleftrightarrow> (\<exists>x. aesd_ioctl K d filp cmd arg = Inr x)"
  by (simp add: aesd_ioctl_def forget_lock Let_def split: sum.split prod.split option.split)

lemma driver_state_no_fault:
  assumes d: "driver_state d" and filp: "private_data filp = aesd_device"
  shows "commands (dev_abs d) \<noteq> [] \<or> f_pos filp = 0 \<Longrightarrow> \<exists>x. aesd_read K d filp count = Inr x"
    and "\<exists>x. aesd_llseek K d filp off whence = Inr x" and "\<exists>x. aesd_ioctl K d filp cmd arg = Inr x"
  using driver_state_forget [OF d] aesd_read_no_fault [OF _ filp] aesd_llseek_no_fault [OF _ filp]
    aesd_ioctl_no_fault [OF _ filp] forget_read [of K d] forget_llseek [of K d] forget_ioctl [of K d]
  by (metis forget_pending_sel(6))+

lemma driver_state_write_faults:
  assumes d: "driver_state d" and K: "kernel_ok K" and filp: "private_data filp = aesd_device"
    and room: "device_bytes (dev_abs d) + unat count < 2 ^ 63"
  shows "(\<exists>x. aesd_write K d filp buf count = Inr x) \<longleftrightarrow> mutex_lock_interruptible K \<noteq> 0 \<or> \<not> dangling d"
proof (cases "stale d")
  case True
  with aesd_write_on_stale [OF True filp, of K buf count] stale_dangling show ?thesis by auto
next
  case False
  with d have "driver_inv d" by (simp add: driver_state_def)
  with aesd_write_no_fault [OF K this filp room] inv_not_dangling show ?thesis by blast
qed

end
