(* ===== verification/Driver_Demo.thy ===== *)
theory Driver_Demo
  imports Driver_Steps
begin

text \<open>Concrete devices, files and buffers on which the properties are exercised.\<close>

definition demo_file :: kfile where
  "demo_file = \<lparr>private_data = aesd_device, f_pos = 0\<rparr>"

text \<open>One stored command \<open>hi\<close> with its newline.\<close>

definition demo_driver :: driver where
  "demo_driver = \<lparr>dev = \<lparr>p_write_buffer = NULL, write_buffer_size = 0, lock_held = False,
      circular_buffer = \<lparr>entry = \<lparr>buffptr = Ptr 0, entry_size = 3\<rparr> # replicate 9 zero_entry,
        in_offs = 1, out_offs = 0, full = False\<rparr>\<rparr>,
    mem = [0 \<mapsto> [104, 105, 10]]\<rparr>"

text \<open>No command stored, the two bytes \<open>hi\<close> pending.\<close>

definition demo_pending :: driver where
  "demo_pending = \<lparr>dev = \<lparr>p_write_buffer = Ptr 0, write_buffer_size = 2, lock_held = False,
      circular_buffer = aesd_circular_buffer_init (circular_buffer zero_dev)\<rparr>,
    mem = [0 \<mapsto> [104, 105]]\<rparr>"

text \<open>Ten commands, each one newline, with the oldest in slot 3.\<close>

definition demo_full :: driver where
  "demo_full = \<lparr>dev = \<lparr>p_write_buffer = NULL, write_buffer_size = 0, lock_held = False,
      circular_buffer = \<lparr>entry = map (\<lambda>i. \<lparr>buffptr = Ptr i, entry_size = 1\<rparr>) [0, 1, 2, 3, 4, 5, 6, 7, 8, 9],
        in_offs = 3, out_offs = 3, full = True\<rparr>\<rparr>,
    mem = [2 \<mapsto> [10], 1 \<mapsto> [10], 0 \<mapsto> [10], 9 \<mapsto> [10], 8 \<mapsto> [10],
      7 \<mapsto> [10], 6 \<mapsto> [10], 5 \<mapsto> [10], 4 \<mapsto> [10], 3 \<mapsto> [10]]\<rparr>"

lemma demo_file_sel [simp]: "private_data demo_file = aesd_device" "f_pos demo_file = 0"
  by (simp_all add: demo_file_def)

lemma demo_kernel_sel [simp]:
  "mutex_lock_interruptible demo_kernel = 0" "copy_to_user demo_kernel bs = 0"
  "copy_from_user demo_kernel = demo_copy" "krealloc demo_kernel = demo_krealloc"
  by (simp_all add: demo_kernel_def)

lemma oom_kernel_sel [simp]:
  "mutex_lock_interruptible oom_kernel = 0" "krealloc oom_kernel h p n = (NULL, h)"
  by (simp_all add: oom_kernel_def demo_kernel_def)

lemma snd_demo_copy: "n \<le> length src \<Longrightarrow> snd (demo_copy src n) = 0"
  by (simp add: demo_copy_def)

text \<open>A kernel that serves every call.\<close>

definition serving :: "kernel \<Rightarrow> bool" where
  "serving K \<longleftrightarrow> kernel_ok K \<and> roomy K \<and> mutex_lock_interruptible K = 0
     \<and> (\<forall>src n. n \<le> length src \<longrightarrow> snd (copy_from_user K src n) = 0) \<and> (\<forall>bs. copy_to_user K bs = 0)"

lemma demo_kernel_serving: "serving demo_kernel"
  by (simp add: serving_def demo_kernel_ok demo_kernel_roomy snd_demo_copy)

lemma demo_driver_ring: "ring_entries (the_ring demo_driver) = [\<lparr>buffptr = Ptr 0, entry_size = 3\<rparr>]"
  by (simp add: demo_driver_def ring_entries_def ring_count_def ring_slot_def)

lemma demo_driver_abs: "dev_abs demo_driver = \<lparr>commands = [[104, 105, 10]], partial = []\<rparr>"
  unfolding dev_abs_def demo_driver_ring by (simp add: blocks_def demo_driver_def)

lemma demo_driver_inv: "driver_inv demo_driver"
proof -
  have "ring_inv (the_ring demo_driver)"
    by (simp add: ring_inv_def demo_driver_def)
  moreover have "ring_fresh (the_ring demo_driver)"
    by (auto simp: ring_fresh_def demo_driver_def nth_Cons' zero_entry_def)
  moreover have "heap_ok (mem demo_driver) (ring_entries (the_ring demo_driver)) NULL 0"
    unfolding demo_driver_ring
    by (simp add: heap_ok_def entry_ok_def entry_len_def owned_def demo_driver_def)
  moreover have "device_bytes (dev_abs demo_driver) < 2 ^ 63"
    by (simp add: demo_driver_abs device_bytes_def contents_def)
  ultimately show ?thesis
    by (simp add: driver_inv_def demo_driver_def)
qed

lemma demo_pending_ring: "the_ring demo_pending = aesd_circular_buffer_init (circular_buffer zero_dev)"
  by (simp add: demo_pending_def)

lemma demo_pending_abs: "dev_abs demo_pending = \<lparr>commands = [], partial = [104, 105]\<rparr>"
  unfolding dev_abs_def demo_pending_ring by (simp add: blocks_def demo_pending_def)

lemma demo_pending_inv: "driver_inv demo_pending"
proof -
  have "heap_ok (mem demo_pending) [] (Ptr 0) 2"
    by (simp add: heap_ok_def owned_def demo_pending_def)
  moreover have "device_bytes (dev_abs demo_pending) < 2 ^ 63"
    by (simp add: demo_pending_abs device_bytes_def contents_def)
  ultimately show ?thesis
    unfolding driver_inv_def demo_pending_ring by (simp add: demo_pending_def)
qed

lemma demo_full_ring: "ring_entries (the_ring demo_full) =
    map (\<lambda>i. \<lparr>buffptr = Ptr i, entry_size = 1\<rparr>) [3, 4, 5, 6, 7, 8, 9, 0, 1, 2]"
  by (simp add: demo_full_def ring_entries_def ring_count_def ring_slot_def upt_rec)

lemma demo_full_abs: "dev_abs demo_full = \<lparr>commands = replicate 10 [10], partial = []\<rparr>"
  unfolding dev_abs_def demo_full_ring
  by (simp add: blocks_def demo_full_def numeral_eq_Suc)

lemma demo_full_heap: "heap_ok (mem demo_full) (ring_entries (the_ring demo_full)) NULL 0"
proof -
  have ptrs: "map buffptr (ring_entries (the_ring demo_full)) = map Ptr [3, 4, 5, 6, 7, 8, 9, 0, 1, 2]"
    by (simp add: demo_full_ring)
  have dom: "dom (mem demo_full) = set [3, 4, 5, 6, 7, 8, 9, 0, 1, 2]"
    unfolding demo_full_def by simp
  have cells: "\<forall>i \<in> set [3, 4, 5, 6, 7, 8, 9, 0, 1, 2]. mem demo_full i = Some [10]"
    unfolding demo_full_def by simp
  have "entry_ok (mem demo_full) e" if "e \<in> set (ring_entries (the_ring demo_full))" for e
  proof -
    obtain i where "i \<in> set [3, 4, 5, 6, 7, 8, 9, 0, 1, 2]" and e: "e = \<lparr>buffptr = Ptr i, entry_size = 1\<rparr>"
      using \<open>e \<in> set (ring_entries (the_ring demo_full))\<close> unfolding demo_full_ring set_map by blast
    with cells have "mem demo_full i = Some [10]" by blast
    then show ?thesis by (simp add: e entry_ok_def entry_len_def)
  qed
  moreover have "distinct (map buffptr (ring_entries (the_ring demo_full)))"
    unfolding ptrs by (simp add: distinct_map)
  moreover have "NULL \<notin> buffptr ` set (ring_entries (the_ring demo_full))"
    unfolding set_map [symmetric] ptrs by simp
  moreover have "dom (mem demo_full) = owned (ring_entries (the_ring demo_full)) NULL"
  proof -
    have "(\<Union>e \<in> set (ring_entries (the_ring demo_full)). addr_of (buffptr e))
        = (\<Union>p \<in> set (map buffptr (ring_entries (the_ring demo_full))). addr_of p)"
      by auto
    also have "\<dots> = set [3, 4, 5, 6, 7, 8, 9, 0, 1, 2]" unfolding ptrs set_map image_image addr_of.simps by blast
    finally show ?thesis by (simp only: dom owned_def addr_of.simps Un_empty_left)
  qed
  ultimately show ?thesis by (simp add: heap_ok_def)
qed

lemma demo_full_inv: "driver_inv demo_full"
proof -
  have "device_bytes (dev_abs demo_full) < 2 ^ 63"
    by (simp add: demo_full_abs device_bytes_def contents_def length_concat sum_list_replicate)
  moreover have "ring_inv (the_ring demo_full)" and "ring_fresh (the_ring demo_full)"
    and "\<not> lock_held (dev demo_full)"
    by (simp_all add: demo_full_def ring_inv_def ring_fresh_def)
  moreover have "heap_ok (mem demo_full) (ring_entries (the_ring demo_full))
      (p_write_buffer (dev demo_full)) (pending_len demo_full)"
    using demo_full_heap by (simp add: demo_full_def)
  ultimately show ?thesis by (simp add: driver_inv_def)
qed

end
