(* ===== verification/Driver_Properties.thy ===== *)
theory Driver_Properties
  imports Driver_Demo
begin

text \<open>
  The properties of the driver. Each is stated over the model's operations and rests on the
  lemmas of the component theories and the facts of their interpretations.
\<close>

section \<open>Whole sessions\<close>

text \<open>Device numbers as Linux forms them: 12 bits of major, 20 bits of minor number.\<close>

definition demo_chrdev :: chrdev_api where
  "demo_chrdev = \<lparr>alloc_chrdev_region = (\<lambda>minor. if minor = 0 then (0, 240 * 2 ^ 20) else (- 22, 0)),
     MAJOR = (\<lambda>n. n div 2 ^ 20), MKDEV = (\<lambda>ma mi. ma * 2 ^ 20 + mi), cdev_add = (\<lambda>_. 0)\<rparr>"

lemma demo_chrdev_ok: "chrdev_ok demo_chrdev"
  by (simp add: chrdev_ok_def demo_chrdev_def)

definition demo_module :: module where
  "demo_module = \<lparr>aesd_major = 0, aesd_minor = 0, region_held = None, cdev_live = None,
     drv = initial_driver\<rparr>"

lemmas demo_load_simps = demo_chrdev_def demo_module_def

text \<open>
  C1: After a successful module load and an open, any sequence of writes, reads, seeks and
  seek commands on the file (in the cases where the kernel serves the calls and outside the
  three special cases excluded by \<open>session_ok\<close>) never faults and returns exactly the
  replies of the abstract device: the list of the last ten newline-terminated commands, the
  unfinished command, and a position.
\<close>

theorem driver_session_refines:
  assumes "0 \<le> fst (alloc_chrdev_region C (aesd_minor m))"
    and "cdev_add C (MKDEV C (MAJOR C (snd (alloc_chrdev_region C (aesd_minor m)))) (aesd_minor m)) = 0"
    and "mem (drv m) = Map.empty"
    and "filp = snd (aesd_open \<lparr>i_cdev = aesd_device\<rparr> f)"
    and "allowed_run spec_step session_ok (empty_device, f_pos f) ops"
  shows "\<exists>d' filp'. run session_step (drv (snd (aesd_init_module C m)), filp) ops
      = Inr ((d', filp'), snd (run_spec spec_step (empty_device, f_pos f) ops))
    \<and> driver_inv d' \<and> (dev_abs d', f_pos filp') = fst (run_spec spec_step (empty_device, f_pos f) ops)"
proof -
  have "session_inv (initial_driver, filp)" and "session_abs (initial_driver, filp) = (empty_device, f_pos f)"
    using assms(4) by (simp_all add: session_inv_def session_abs_def driver_inv_initial dev_abs_initial aesd_open_def)
  then show ?thesis
    using session.run_refines [of "(initial_driver, filp)" ops] assms(5) aesd_init_module_ok(2) [OF assms(1-3)]
    by (auto simp: session_inv_def session_abs_def)
qed

definition demo_ops :: "dev_op list" where
  "demo_ops = [Write demo_kernel [104, 105] 2, Write demo_kernel [10] 1, Seek demo_kernel 0 0,
     Read demo_kernel 10, Seekto demo_kernel \<lparr>write_cmd = 0, write_cmd_offset = 3\<rparr>]"

lemma demo_ops_spec: "run_spec spec_step (empty_device, 0) demo_ops =
    ((\<lparr>commands = [[104, 105, 10]], partial = []\<rparr>, 3),
     [Written 2, Written 1, At 0, Data [104, 105, 10] 3, Code (- EINVAL)])"
  by (simp add: demo_ops_def empty_device_def spec_write_def seek_result_def spec_read_def spec_seekto_def Let_def)

lemma demo_ops_allowed: "allowed_run spec_step session_ok (empty_device, 0) demo_ops"
  by (simp add: demo_ops_def empty_device_def spec_write_def seek_result_def spec_read_def
      demo_kernel_ok demo_kernel_roomy snd_demo_copy device_bytes_def contents_def Let_def)

theorem driver_session_refines_witness:
  "\<exists>d' filp'. run session_step (drv (snd (aesd_init_module demo_chrdev demo_module)),
      snd (aesd_open \<lparr>i_cdev = aesd_device\<rparr> demo_file)) demo_ops
    = Inr ((d', filp'), [Written 2, Written 1, At 0, Data [104, 105, 10] 3, Code (- EINVAL)])
    \<and> driver_inv d' \<and> (dev_abs d', f_pos filp') = (\<lparr>commands = [[104, 105, 10]], partial = []\<rparr>, 3)"
  using driver_session_refines [of demo_chrdev demo_module _ demo_file demo_ops] demo_ops_allowed
  by (simp add: demo_load_simps demo_ops_spec initial_driver_def)

section \<open>What the device remembers\<close>

text \<open>The commands that a stream of written chunks completes, and what is left over.\<close>

fun assemble :: "byte list \<Rightarrow> byte list list \<Rightarrow> byte list list \<times> byte list" where
  "assemble acc [] = ([], acc)"
| "assemble acc (c # cs) =
     (if newline \<in> set (acc @ c) then (let (xs, r) = assemble [] cs in ((acc @ c) # xs, r))
      else assemble (acc @ c) cs)"

lemma assemble_concat: "concat (fst (assemble acc cs)) @ snd (assemble acc cs) = acc @ concat cs"
proof (induction cs arbitrary: acc)
  case Nil
  then show ?case by simp
next
  case (Cons c cs)
  obtain xs r where "assemble [] cs = (xs, r)" by (cases "assemble [] cs")
  with Cons.IH [of "[]"] Cons.IH [of "acc @ c"] show ?case by simp
qed

lemma assemble_newline:
  "newline \<notin> set acc \<Longrightarrow> (\<forall>c \<in> set (fst (assemble acc cs)). newline \<in> set c) \<and> newline \<notin> set (snd (assemble acc cs))"
proof (induction cs arbitrary: acc)
  case Nil
  then show ?case by simp
next
  case (Cons c cs)
  show ?case
  proof (cases "newline \<in> set (acc @ c)")
    case True
    obtain xs r where "assemble [] cs = (xs, r)" by (cases "assemble [] cs")
    with True Cons.IH [of "[]"] show ?thesis by simp
  next
    case False
    with Cons.IH [OF this] show ?thesis by simp
  qed
qed

text \<open>
  A command is what a run of consecutive writes wrote: the last of them is the only one that
  contains a newline, anywhere in it.
\<close>

definition command_group :: "byte list list \<Rightarrow> bool" where
  "command_group g \<longleftrightarrow> g \<noteq> [] \<and> newline \<in> set (last g) \<and> list_all (\<lambda>c. newline \<notin> set c) (butlast g)"

lemma assemble_groups:
  "list_all (\<lambda>c. newline \<notin> set c) pre \<Longrightarrow>
    \<exists>groups rest. pre @ cs = concat groups @ rest \<and> list_all command_group groups
      \<and> list_all (\<lambda>c. newline \<notin> set c) rest \<and> assemble (concat pre) cs = (map concat groups, concat rest)"
proof (induction cs arbitrary: pre)
  case Nil
  then show ?case by (intro exI [of _ "[]"] exI [of _ pre]) simp
next
  case (Cons c cs)
  have acc: "newline \<notin> set (concat pre)" using Cons.prems by (auto simp: list_all_iff)
  show ?case
  proof (cases "newline \<in> set c")
    case True
    obtain groups rest where "cs = concat groups @ rest" "list_all command_group groups"
      "list_all (\<lambda>c. newline \<notin> set c) rest" "assemble [] cs = (map concat groups, concat rest)"
      using Cons.IH [of "[]"] by auto
    moreover have "command_group (pre @ [c])" using True Cons.prems by (simp add: command_group_def)
    ultimately show ?thesis
      using True by (intro exI [of _ "(pre @ [c]) # groups"] exI [of _ rest]) simp
  next
    case False
    with Cons.IH [of "pre @ [c]"] Cons.prems acc show ?thesis by simp
  qed
qed

lemma spec_write_chunks:
  "length (commands s) \<le> 10 \<Longrightarrow> fold (\<lambda>c s. spec_write s c) cs s =
    \<lparr>commands = keep_last 10 (commands s @ fst (assemble (partial s) cs)), partial = snd (assemble (partial s) cs)\<rparr>"
proof (induction cs arbitrary: s)
  case Nil
  then show ?case by simp
next
  case (Cons c cs)
  let ?p = "partial s @ c"
  show ?case
  proof (cases "newline \<in> set ?p")
    case True
    obtain xs r where "assemble [] cs = (xs, r)" by (cases "assemble [] cs")
    with True Cons.IH [of "spec_write s c"] show ?thesis
      by (simp add: spec_write_def keep_last_append)
  next
    case False
    with Cons.IH [of "spec_write s c"] Cons.prems show ?thesis
      by (simp add: spec_write_def)
  qed
qed

abbreviation write_chunk :: "kernel \<Rightarrow> byte list \<Rightarrow> dev_op" where
  "write_chunk K c \<equiv> Write K c (of_nat (length c))"

lemma run_spec_chunks:
  assumes "\<forall>c \<in> set cs. length c < 2 ^ 64"
  shows "run_spec spec_step (s, pos) (map (write_chunk K) cs) =
    ((fold (\<lambda>c s. spec_write s c) cs s, pos), map (\<lambda>c. Written (of_nat (length c))) cs)"
  using assms by (induction cs arbitrary: s) simp_all

lemma allowed_chunks:
  assumes "serving K"
  shows "device_bytes s + sum_list (map length cs) < 2 ^ 63 \<Longrightarrow>
    allowed_run spec_step session_ok (s, pos) (map (write_chunk K) cs)"
proof (induction cs arbitrary: s)
  case Nil
  then show ?case by simp
next
  case (Cons c cs)
  have len: "unat (of_nat (length c) :: size_t) = length c" using Cons.prems by simp
  have "device_bytes (spec_write s c) + sum_list (map length cs) < 2 ^ 63"
    using device_bytes_write [of s c] Cons.prems by simp
  from Cons.IH [OF this] show ?case
    using assms Cons.prems by (simp add: len serving_def)
qed

text \<open>
  C2: What any sequence of writes to a fresh device stores, when the kernel serves every
  request: the writes fall into consecutive groups, each ending with the first write that
  contains a newline (anywhere in it, so that bytes after the newline belong to the same
  command), and a rest without newline. The stored commands are the bytes of the last ten
  groups, oldest first, the unfinished command those of the rest, and every write reports
  its full length.
\<close>

theorem driver_keeps_last_ten:
  assumes K: "serving K" and filp: "private_data filp = aesd_device"
    and room: "sum_list (map length chunks) < 2 ^ 63"
  shows "\<exists>d' groups rest. run session_step (initial_driver, filp) (map (write_chunk K) chunks)
      = Inr ((d', filp), map (\<lambda>c. Written (of_nat (length c))) chunks)
    \<and> chunks = concat groups @ rest \<and> list_all command_group groups \<and> list_all (\<lambda>c. newline \<notin> set c) rest
    \<and> dev_abs d' = \<lparr>commands = keep_last 10 (map concat groups), partial = concat rest\<rparr> \<and> driver_inv d'"
proof -
  have start: "session_inv (initial_driver, filp)"
    "session_abs (initial_driver, filp) = (empty_device, f_pos filp)"
    using filp by (simp_all add: session_inv_def session_abs_def driver_inv_initial dev_abs_initial)
  have small: "\<forall>c \<in> set chunks. length c < 2 ^ 64"
    using room member_le_sum_list [of _ "map length chunks"] by fastforce
  have "allowed_run spec_step session_ok (empty_device, f_pos filp) (map (write_chunk K) chunks)"
    using allowed_chunks [OF K, of empty_device chunks] room
    by (simp add: empty_device_def device_bytes_def contents_def)
  from session.run_refines [OF start(1), unfolded start(2), OF this]
  obtain d' filp' where run: "run session_step (initial_driver, filp) (map (write_chunk K) chunks)
        = Inr ((d', filp'), map (\<lambda>c. Written (of_nat (length c))) chunks)"
    and d': "driver_inv d'" "dev_abs d' = \<lparr>commands = keep_last 10 (fst (assemble [] chunks)),
        partial = snd (assemble [] chunks)\<rparr>"
    by (auto simp: run_spec_chunks [OF small] spec_write_chunks session_inv_def session_abs_def empty_device_def)
  have "filp' = filp" if "run session_step (d, filp) (map (write_chunk K) cs) = Inr ((d2, filp'), rs)"
    for d cs rs d2
    using that by (induction cs arbitrary: d rs) (auto split: sum.splits prod.splits)
  with run have same: "filp' = filp" by blast
  obtain groups rest where "chunks = concat groups @ rest" "list_all command_group groups"
    "list_all (\<lambda>c. newline \<notin> set c) rest" "assemble [] chunks = (map concat groups, concat rest)"
    using assemble_groups [of "[]" chunks] by auto
  with run d' show ?thesis
    unfolding same by (intro exI [of _ d'] exI [of _ groups] exI [of _ rest]) (simp only: fst_conv snd_conv simp_thms)
qed

theorem driver_keeps_last_ten_witness:
  "\<exists>d' groups rest. run session_step (initial_driver, demo_file) (map (write_chunk demo_kernel) [[104], [105, 10, 106], [33]])
      = Inr ((d', demo_file), map (\<lambda>c. Written (of_nat (length c))) [[104], [105, 10, 106], [33]])
    \<and> [[104], [105, 10, 106], [33]] = concat groups @ rest \<and> list_all command_group groups
    \<and> list_all (\<lambda>c. newline \<notin> set c) rest
    \<and> dev_abs d' = \<lparr>commands = keep_last 10 (map concat groups), partial = concat rest\<rparr> \<and> driver_inv d'"
  using driver_keeps_last_ten [OF demo_kernel_serving demo_file_sel(1), of "[[104], [105, 10, 106], [33]]"]
  by simp

section \<open>Reading everything back\<close>

fun data_of :: "reply \<Rightarrow> byte list" where
  "data_of (Data bs r) = bs"
| "data_of _ = []"

lemma spec_read_loop:
  assumes n: "0 < unat n" and len: "length (contents s) < 2 ^ 63"
  shows "length (contents s) \<le> unat pos + k \<Longrightarrow> unat pos \<le> length (contents s) \<Longrightarrow>
    concat (map data_of (snd (run_spec spec_step (s, pos) (replicate k (Read K n))))) = drop (unat pos) (contents s)
    \<and> fst (run_spec spec_step (s, pos) (replicate k (Read K n))) = (s, of_nat (length (contents s)))"
proof (induction k arbitrary: pos)
  case 0
  then have "unat pos = length (contents s)" by simp
  then show ?case by (simp add: word_unat_eq_iff len [THEN order_less_trans])
next
  case (Suc k)
  let ?bs = "spec_read s (unat pos) (unat n)"
  obtain rest where rest: "drop (unat pos) (contents s) = ?bs @ rest"
    using spec_read_prefix by blast
  then have "length (contents s) - unat pos = length ?bs + length rest"
    by (metis length_append length_drop)
  then have bs: "unat pos + length ?bs \<le> length (contents s)"
    using Suc.prems(2) by simp
  have pos: "unat (pos + of_nat (length ?bs)) = unat pos + length ?bs"
    using bs len by (subst unat_add_no_wrap) simp_all
  have "drop (unat pos + length ?bs) (contents s) = rest"
    using arg_cong [OF rest, of "drop (length ?bs)"] by (simp add: add.commute)
  moreover have "length (contents s) \<le> unat (pos + of_nat (length ?bs)) + k"
  proof (cases "unat pos < length (contents s)")
    case True
    then have "1 \<le> length ?bs" using spec_read_progress [OF True n] by (cases ?bs) simp_all
    with Suc.prems(1) show ?thesis by (simp add: pos del: length_greater_0_conv)
  next
    case False
    with Suc.prems show ?thesis unfolding pos by linarith
  qed
  ultimately show ?case
    using Suc.IH [of "pos + of_nat (length ?bs)"] bs rest
    by (auto simp: Let_def pos split: prod.splits)
qed

lemma allowed_reads:
  assumes "mutex_lock_interruptible K = 0" and "\<forall>bs. copy_to_user K bs = 0" and "commands s \<noteq> []"
  shows "allowed_run spec_step session_ok (s, pos) (replicate k (Read K n))"
  using assms by (induction k arbitrary: pos) (auto simp: Let_def)

text \<open>
  C6: A program that reads the device from the start with any non-empty buffer size, as often
  as there are bytes or more, gets exactly the stored commands laid end to end, and its
  position ends at their total size; the device is left as it was.
\<close>

theorem read_loop_returns_contents:
  assumes inv: "driver_inv d" and filp: "private_data filp = aesd_device" and pos: "f_pos filp = 0"
    and K: "serving K" and some: "commands (dev_abs d) \<noteq> []" and n: "0 < n"
    and k: "length (contents (dev_abs d)) \<le> k"
  shows "\<exists>d' filp' rs. run session_step (d, filp) (replicate k (Read K n)) = Inr ((d', filp'), rs)
    \<and> concat (map data_of rs) = contents (dev_abs d)
    \<and> dev_abs d' = dev_abs d \<and> f_pos filp' = of_nat (length (contents (dev_abs d)))"
proof -
  have start: "session_inv (d, filp)" "session_abs (d, filp) = (dev_abs d, 0)"
    using inv filp pos by (simp_all add: session_inv_def session_abs_def)
  have "allowed_run spec_step session_ok (dev_abs d, 0) (replicate k (Read K n))"
    using K some by (intro allowed_reads) (simp_all add: serving_def)
  from session.run_refines [OF start(1), unfolded start(2), OF this]
  obtain d' filp' where "run session_step (d, filp) (replicate k (Read K n))
        = Inr ((d', filp'), snd (run_spec spec_step (dev_abs d, 0) (replicate k (Read K n))))"
    and "(dev_abs d', f_pos filp') = fst (run_spec spec_step (dev_abs d, 0) (replicate k (Read K n)))"
    by (auto simp: session_abs_def)
  moreover have "length (contents (dev_abs d)) < 2 ^ 63"
    using driver_invD(5) [OF inv] by (simp add: device_bytes_def)
  ultimately show ?thesis
    using spec_read_loop [of n "dev_abs d" 0 k K] k n by (auto simp: word_less_nat_alt)
qed

theorem read_loop_returns_contents_witness:
  "\<exists>d' filp' rs. run session_step (demo_driver, demo_file) (replicate 3 (Read demo_kernel 2)) = Inr ((d', filp'), rs)
    \<and> concat (map data_of rs) = [104, 105, 10]
    \<and> dev_abs d' = dev_abs demo_driver \<and> f_pos filp' = 3"
  using read_loop_returns_contents [OF demo_driver_inv demo_file_sel demo_kernel_serving, of 2 3]
  by (simp add: demo_driver_abs contents_def)

section \<open>The single operations\<close>

text \<open>
  C7: Every outcome of a write to a device that satisfies the invariant, by the order of the
  code's tests: interrupted while locking (nothing changes), no memory (the pending block
  is released), data not readable (the abstract device is unchanged), and otherwise all
  \<open>count\<close> bytes are accepted and the device does what the specification says.
\<close>

theorem write_outcomes:
  assumes K: "kernel_ok K" and inv: "driver_inv d" and filp: "private_data filp = aesd_device"
    and room: "device_bytes (dev_abs d) + unat count < 2 ^ 63"
  shows "if mutex_lock_interruptible K \<noteq> 0 then aesd_write K d filp buf count = Inr (d, - ERESTARTSYS)
    else if fst (krealloc K (mem d) (p_write_buffer (dev d)) (unat (count + write_buffer_size (dev d)))) = NULL
    then aesd_write K d filp buf count = Inr (d\<lparr>mem := release (mem d) (p_write_buffer (dev d))\<rparr>, - ENOMEM)
    else if snd (copy_from_user K buf (unat count)) \<noteq> 0
    then \<exists>d'. aesd_write K d filp buf count = Inr (d', - EFAULT) \<and> driver_inv d' \<and> dev_abs d' = dev_abs d
    else \<exists>d'. aesd_write K d filp buf count = Inr (d', count) \<and> driver_inv d'
      \<and> dev_abs d' = spec_write (dev_abs d) (take (unat count) buf)"
  using aesd_write_interrupted [OF filp, of K d buf count] aesd_write_nomem [OF K inv filp]
    aesd_write_fault [OF K inv filp _ _ _ room] aesd_write_correct [OF K inv filp _ room]
  by (simp add: write_env_ok_def)

theorem write_outcomes_witness:
  "\<exists>d'. aesd_write demo_kernel demo_driver demo_file [33, 10] 2 = Inr (d', 2) \<and> driver_inv d'
    \<and> commands (dev_abs d') = [[104, 105, 10], [33, 10]]"
  using write_outcomes [OF demo_kernel_ok demo_driver_inv demo_file_sel(1), of 2 "[33, 10]"]
    demo_kernel_roomy driver_blocks_bound [OF demo_driver_inv]
  by (auto simp: demo_driver_abs device_bytes_def contents_def snd_demo_copy roomy_def spec_write_def)

text \<open>
  C8: A read that gets the lock and can write the user's buffer, at any position of a device
  with at least one command, returns a prefix of what the device holds from there on, at
  most \<open>count\<close> bytes, advances the position by exactly that many, changes nothing else, and
  returns nothing exactly at or past the end or for \<open>count = 0\<close>.
\<close>

theorem read_returns_prefix:
  assumes inv: "driver_inv d" and filp: "private_data filp = aesd_device" and K: "serving K"
    and some: "commands (dev_abs d) \<noteq> []"
  shows "\<exists>bs rest. aesd_read K d filp count
      = Inr (d, filp\<lparr>f_pos := f_pos filp + of_nat (length bs)\<rparr>, bs, of_nat (length bs))
    \<and> drop (unat (f_pos filp)) (contents (dev_abs d)) = bs @ rest \<and> length bs \<le> unat count
    \<and> (bs = [] \<longleftrightarrow> length (contents (dev_abs d)) \<le> unat (f_pos filp) \<or> count = 0)"
proof -
  let ?bs = "spec_read (dev_abs d) (unat (f_pos filp)) (unat count)"
  have "aesd_read K d filp count
      = Inr (d, filp\<lparr>f_pos := f_pos filp + of_nat (length ?bs)\<rparr>, ?bs, of_nat (length ?bs))"
    using aesd_read_correct [OF inv filp _ some, of K count] K by (simp add: serving_def Let_def)
  moreover obtain rest where "drop (unat (f_pos filp)) (contents (dev_abs d)) = ?bs @ rest"
    using spec_read_prefix by blast
  moreover have "?bs = [] \<longleftrightarrow> length (contents (dev_abs d)) \<le> unat (f_pos filp) \<or> count = 0"
    using spec_read_progress [of "unat (f_pos filp)" "dev_abs d" "unat count"]
      spec_read_eof [of "dev_abs d" "unat (f_pos filp)" "unat count"]
      length_spec_read [of "dev_abs d" "unat (f_pos filp)" "unat count"]
    by (cases "count = 0"; cases "unat (f_pos filp) < length (contents (dev_abs d))")
       (auto simp: not_less unat_gt_0)
  ultimately show ?thesis using length_spec_read by blast
qed

theorem read_returns_prefix_witness:
  "\<exists>bs rest. aesd_read demo_kernel demo_driver demo_file 2
      = Inr (demo_driver, demo_file\<lparr>f_pos := of_nat (length bs)\<rparr>, bs, of_nat (length bs))
    \<and> [104, 105, 10] = bs @ rest \<and> length bs \<le> 2 \<and> bs \<noteq> []"
  using read_returns_prefix [OF demo_driver_inv demo_file_sel(1) demo_kernel_serving, of 2]
  by (auto simp: demo_driver_abs contents_def)



text \<open>
  C10: In every state reached from a freshly loaded module by file operations, with any answers
  of a well-behaved kernel and less than \<open>2 ^ 63\<close> bytes in the device, the live kernel memory is exactly the blocks of the stored
  commands and the pending one, each held once, or, when \<open>p_write_buffer\<close> dangles (after a
  write ran out of memory with bytes pending), those of the stored commands alone: nothing
  leaks while the driver runs, at most eleven blocks are live, every stored command has its
  full length and contains a newline, and the pending bytes contain none.
\<close>

theorem reachable_memory_exact:
  assumes "driver_reachable d"
  shows "dom (mem d) = (if dangling d then {} else addr_of (p_write_buffer (dev d)))
        \<union> (\<Union>e \<in> set (ring_entries (the_ring d)). addr_of (buffptr e))
    \<and> distinct (map buffptr (ring_entries (the_ring d)))
    \<and> p_write_buffer (dev d) \<notin> buffptr ` set (ring_entries (the_ring d))
    \<and> card (dom (mem d)) \<le> 11
    \<and> list_all (\<lambda>c. newline \<in> set c) (commands (dev_abs d)) \<and> newline \<notin> set (partial (dev_abs d))
    \<and> map length (commands (dev_abs d)) = ring_sizes (the_ring d)"
proof -
  have exact: "dom (mem x) = owned (ring_entries (the_ring x)) (p_write_buffer (dev x))
      \<and> distinct (map buffptr (ring_entries (the_ring x)))
      \<and> p_write_buffer (dev x) \<notin> buffptr ` set (ring_entries (the_ring x)) \<and> card (dom (mem x)) \<le> 11
      \<and> list_all (\<lambda>c. newline \<in> set c) (commands (dev_abs x)) \<and> newline \<notin> set (partial (dev_abs x))
      \<and> map length (commands (dev_abs x)) = ring_sizes (the_ring x)" if inv: "driver_inv x" for x
  proof -
    note ok = heap_okD [OF driver_invD(4) [OF inv]]
    have "list_all (\<lambda>c. newline \<in> set c) (commands (dev_abs x))"
      using ok(1) by (auto simp: list_all_iff commands_dev_abs blocks_def entry_ok_def)
    then show ?thesis
      using ok driver_blocks_bound [OF inv] command_lengths [OF inv] by (simp add: dev_abs_def)
  qed
  show ?thesis
  proof (cases "stale d")
    case True
    then have inv: "driver_inv (forget_pending d)" and gone: "dangling d" by (simp_all add: stale_def)
    note there = exact [OF inv, unfolded forget_pending_sel]
    have "p_write_buffer (dev d) \<notin> buffptr ` set (ring_entries (the_ring d))"
      using heap_ok_entry_valid [OF driver_invD(4) [OF inv]] gone by auto
    moreover have "newline \<notin> set (partial (dev_abs d))"
      using gone by (cases "p_write_buffer (dev d)") (simp_all add: dev_abs_def)
    moreover have "dom (mem d) = (if dangling d then {} else addr_of (p_write_buffer (dev d)))
        \<union> (\<Union>e \<in> set (ring_entries (the_ring d)). addr_of (buffptr e))"
      using there gone by (simp add: owned_def)
    ultimately show ?thesis using there by (intro conjI) (elim conjE, assumption)+
  next
    case False
    with driver_reachable_state [OF assms] have inv: "driver_inv d" by (simp add: driver_state_def)
    note here = exact [OF inv]
    have "dom (mem d) = (if dangling d then {} else addr_of (p_write_buffer (dev d)))
        \<union> (\<Union>e \<in> set (ring_entries (the_ring d)). addr_of (buffptr e))"
      using here inv_not_dangling [OF inv] by (simp add: owned_def)
    then show ?thesis using here by (intro conjI) (elim conjE, assumption)+
  qed
qed

theorem reachable_memory_exact_witness:
  "card (dom (mem initial_driver)) \<le> 11 \<and> newline \<notin> set (partial (dev_abs initial_driver))"
  using reachable_memory_exact [OF driver_reachable.load] by blast

lemma free_oldest_lock: "lock_held (dev (set_lock False d)) = False"
  by (simp add: set_lock_def)

lemma set_pos_lock: "set_pos d filp p = Inr (d', filp', r) \<Longrightarrow> dev d' = dev d"
  by (auto simp: set_pos_def split: if_splits)

lemma aesd_write_lock:
  "\<not> lock_held (dev d) \<Longrightarrow> aesd_write K d filp buf n = Inr (d', r) \<Longrightarrow> \<not> lock_held (dev d')"
  by (auto simp: aesd_write_def Let_def free_oldest_lock lock_dev_def
      split: if_splits sum.splits option.splits prod.splits)

text \<open>
  C19: Whatever the kernel answers, every operation that returns leaves the device unlocked,
  on its error paths too.
\<close>

theorem operations_unlock:
  assumes "\<not> lock_held (dev d)"
  shows "(aesd_write K d filp buf n = Inr (d1, r1) \<longrightarrow> \<not> lock_held (dev d1))
    \<and> (aesd_read K d filp n = Inr (d2, f2, bs, r2) \<longrightarrow> \<not> lock_held (dev d2))
    \<and> (aesd_llseek K d filp off whence = Inr (d3, f3, r3) \<longrightarrow> \<not> lock_held (dev d3))
    \<and> (aesd_ioctl K d filp cmd arg = Inr (d4, f4, r4) \<longrightarrow> \<not> lock_held (dev d4))"
  using assms by (auto dest: aesd_write_lock aesd_read_state aesd_llseek_state aesd_ioctl_state)

theorem operations_unlock_witness:
  "\<exists>d. aesd_write oom_kernel demo_driver demo_file [1] 1 = Inr (d, - ENOMEM) \<and> \<not> lock_held (dev d)"
  using operations_unlock [of demo_driver oom_kernel demo_file "[1]" 1 _ "- ENOMEM"]
    aesd_write_nomem_clean [OF oom_kernel_ok demo_driver_inv demo_file_sel(1), of 1 "[1]"]
    driver_invD(3) [OF demo_driver_inv]
  by (simp add: demo_driver_def)

end
