(* ===== verification/Driver_Limits.thy ===== *)
theory Driver_Limits
  imports Driver_Properties
begin

text \<open>
  Properties of seeking and of the seek command, of module load and unload, and of the
  branches on which the driver does not do what its interface asks for.
\<close>

section \<open>Seeking\<close>

lemma contents_last:
  assumes "contents s \<noteq> []" and "0 < n" and "length (contents s) < 2 ^ 63"
  shows "spec_read s (length (contents s) - 1) n = [last (contents s)]"
proof -
  let ?p = "length (contents s) - 1"
  have p: "?p < length (contents s)" using assms(1) by simp
  have "drop ?p (contents s) = [last (contents s)]"
    using assms(1) by (metis append_butlast_last_id append_eq_conv_conj length_butlast)
  moreover obtain rest where "drop ?p (contents s) = spec_read s ?p n @ rest"
    using spec_read_prefix by blast
  ultimately show ?thesis
    using spec_read_progress [OF p assms(2)] by (cases "spec_read s ?p n") auto
qed

text \<open>Seeking to the end of a device with a free slot.\<close>

lemma seek_end_last_byte:
  assumes inv: "driver_inv d" and filp: "private_data filp = aesd_device" and K: "serving K"
    and some: "commands (dev_abs d) \<noteq> []" and room: "length (commands (dev_abs d)) < 10"
    and small: "length (contents (dev_abs d)) < 2 ^ 31" and n: "0 < count"
  shows "\<exists>filp' filp''. aesd_llseek K d filp 0 2 = Inr (d, filp', of_nat (length (contents (dev_abs d)) - 1))
    \<and> aesd_read K d filp' count = Inr (d, filp'', [last (contents (dev_abs d))], 1)"
proof -
  let ?len = "length (contents (dev_abs d))"
  have "hd (ring_entries (the_ring d)) \<in> set (ring_entries (the_ring d))"
    using some by (intro hd_in_set) (auto simp: commands_dev_abs blocks_def)
  then have "newline \<in> set (contents (dev_abs d))"
    using heap_okD(1) [OF driver_invD(4) [OF inv]]
    unfolding contents_def commands_dev_abs blocks_def entry_ok_def by fastforce
  then have ne: "contents (dev_abs d) \<noteq> []" by auto
  then obtain m where m: "?len = Suc m" by (cases ?len) auto
  have pos: "of_nat ?len - 1 = (of_nat m :: loff_t)" by (simp add: m)
  have "sint (of_nat m :: loff_t) = int m"
    using small by (simp add: signed_of_nat signed_take_bit_int_eq_self m)
  then have seek: "aesd_llseek K d filp 0 2 = Inr (d, filp\<lparr>f_pos := of_nat m\<rparr>, of_nat m)"
    using aesd_llseek_end [OF inv filp _ room small, of K 0] K by (simp add: serving_def pos set_pos_def)
  have "unat (of_nat m :: loff_t) = ?len - 1" using small by (simp add: m)
  moreover have "spec_read (dev_abs d) (?len - 1) (unat count) = [last (contents (dev_abs d))]"
    using n small by (intro contents_last [OF ne]) (simp_all add: word_less_nat_alt)
  ultimately have "aesd_read K d (filp\<lparr>f_pos := of_nat m\<rparr>) count
      = Inr (d, filp\<lparr>f_pos := of_nat m + 1\<rparr>, [last (contents (dev_abs d))], 1)"
    using aesd_read_correct [OF inv _ _ some, of "filp\<lparr>f_pos := of_nat m\<rparr>" K count] K filp
    by (simp add: serving_def Let_def)
  with seek show ?thesis by (simp add: m)
qed

text \<open>
  C35: Seeking to the end misses the end. With a free slot the file is put on the last stored
  byte rather than after it: a following read still returns that byte instead of end of
  file. With ten commands the size loop starts and ends at the same slot, the device is
  taken to be empty, and the seek is refused with \<open>EINVAL\<close>.
\<close>

theorem seek_end_misses_end:
  assumes inv: "driver_inv d" and filp: "private_data filp = aesd_device" and K: "serving K"
    and some: "commands (dev_abs d) \<noteq> []" and small: "length (contents (dev_abs d)) < 2 ^ 31" and n: "0 < count"
  shows "if length (commands (dev_abs d)) < 10
    then \<exists>filp' filp''. aesd_llseek K d filp 0 2 = Inr (d, filp', of_nat (length (contents (dev_abs d)) - 1))
      \<and> aesd_read K d filp' count = Inr (d, filp'', [last (contents (dev_abs d))], 1)
    else aesd_llseek K d filp 0 2 = Inr (d, filp, - EINVAL)"
proof (cases "length (commands (dev_abs d)) < 10")
  case True
  with seek_end_last_byte [OF inv filp K some True small n] show ?thesis by simp
next
  case False
  then have "length (commands (dev_abs d)) = 10"
    using ring_count_le [OF driver_invD(1) [OF inv]] by (simp add: length_commands)
  with aesd_llseek_end_full [OF inv filp _ this, of K 0] K show ?thesis by (simp add: serving_def set_pos_def)
qed

theorem seek_end_misses_end_witness:
  "(\<exists>filp' filp''. aesd_llseek demo_kernel demo_driver demo_file 0 2 = Inr (demo_driver, filp', 2)
      \<and> aesd_read demo_kernel demo_driver filp' 5 = Inr (demo_driver, filp'', [10], 1))
    \<and> aesd_llseek demo_kernel demo_full demo_file 0 2 = Inr (demo_full, demo_file, - EINVAL)"
  using seek_end_misses_end [OF demo_driver_inv demo_file_sel(1) demo_kernel_serving, of 5]
    seek_end_misses_end [OF demo_full_inv demo_file_sel(1) demo_kernel_serving, of 5]
  by (simp add: demo_driver_abs demo_full_abs contents_def length_concat sum_list_replicate)

text \<open>
  C24: Both loops over the slots end, for every content of a buffer whose offsets are in range,
  empty or full, sizes of zero or wrapping included: the search for any position and the
  summing of sizes up to any slot return; up to the \<open>j\<close>th oldest entry the sum is that of
  the first \<open>j\<close> sizes as an \<open>int\<close>.
\<close>

theorem buffer_loops_end:
  assumes inv: "ring_inv b" and i: "i < 10" and j: "j \<le> ring_count b" "j < 10"
  shows "(\<exists>r. aesd_circular_buffer_find_entry_offset_for_fpos b off = Some r)
    \<and> (\<exists>r. sum_sizes b (unat (out_offs b)) i 0 = Some r)
    \<and> sum_sizes b (unat (out_offs b)) (ring_slot b j) 0 = Some (of_nat (sum_list (take j (ring_sizes b))))"
proof -
  have "unat (out_offs b) = ring_slot b 0" using inv by (simp add: ring_slot_0 ring_inv_def)
  then show ?thesis
    using find_entry_ends [OF inv, of off] sum_sizes_from_out [OF inv i, of 0] sum_sizes_slots [OF inv j, of 0 0]
    by simp
qed

theorem buffer_loops_end_witness:
  "sum_sizes (the_ring demo_full) 3 (ring_slot (the_ring demo_full) 4) 0 = Some 4
    \<and> (\<exists>r. aesd_circular_buffer_find_entry_offset_for_fpos (the_ring demo_full) 99 = Some r)"
proof -
  have inv: "ring_inv (the_ring demo_full)" by (rule driver_invD(1) [OF demo_full_inv])
  have "ring_count (the_ring demo_full) = 10" and "unat (out_offs (the_ring demo_full)) = 3"
    by (simp_all add: demo_full_def ring_count_def)
  moreover have "ring_sizes (the_ring demo_full) = replicate 10 1"
    using command_lengths [OF demo_full_inv] by (simp add: demo_full_abs map_replicate_const)
  ultimately show ?thesis
    using buffer_loops_end [OF inv, of 0 4 99] by (simp add: sum_list_replicate)
qed

section \<open>The seek command\<close>

text \<open>The command that a seek command addresses.\<close>

definition addressed :: "aesd_seekto \<Rightarrow> nat" where
  "addressed s = (if write_cmd s = 10 then 0 else unat (write_cmd s))"

text \<open>
  C34: A seek command checks its arguments against the stored commands (\<open>EINVAL\<close> when the
  command or the byte does not exist) and otherwise adds the position of that byte to the
  current position of the file instead of setting it; the device is unchanged. The range
  check admits command number 10, one more than the ten commands numbered from 0: its
  index wraps, and it acts as command number 0.
\<close>

theorem ioctl_adds_position:
  assumes inv: "driver_inv d" and K: "serving K" and filp: "private_data filp = aesd_device"
    and small: "length (contents (dev_abs d)) < 2 ^ 31"
  shows "aesd_ioctl K d filp AESDCHAR_IOCSEEKTO (bytes_of_seekto s) =
    (if addressed s < length (commands (dev_abs d))
        \<and> unat (write_cmd_offset s) < length (commands (dev_abs d) ! addressed s)
     then Inr (d, filp\<lparr>f_pos := f_pos filp
       + of_nat (sum_list (take (addressed s) (map length (commands (dev_abs d)))) + unat (write_cmd_offset s))\<rparr>, 0)
     else Inr (d, filp, - EINVAL))"
proof -
  have ok: "kernel_ok K" "mutex_lock_interruptible K = 0" "snd (copy_from_user K (bytes_of_seekto x) 8) = 0" for x
    using K by (simp_all add: serving_def)
  show ?thesis
  proof (cases "write_cmd s = 10")
    case False
    then show ?thesis
      unfolding aesd_ioctl_seekto [OF inv ok(1) filp ok(2,3) False small] by (simp add: spec_seekto_def addressed_def)
  next
    case True
    let ?s = "\<lparr>write_cmd = 0, write_cmd_offset = write_cmd_offset s\<rparr> :: aesd_seekto"
    have "s = \<lparr>write_cmd = 10, write_cmd_offset = write_cmd_offset s\<rparr>" using True by simp
    then have "aesd_ioctl K d filp AESDCHAR_IOCSEEKTO (bytes_of_seekto s)
        = aesd_ioctl K d filp AESDCHAR_IOCSEEKTO (bytes_of_seekto ?s)"
      using aesd_ioctl_ten [OF inv ok(1,3,3)] by metis
    also have "\<dots> = (case spec_seekto (dev_abs d) 0 (unat (write_cmd_offset s)) of None \<Rightarrow> Inr (d, filp, - EINVAL)
        | Some p \<Rightarrow> Inr (d, filp\<lparr>f_pos := f_pos filp + of_nat p\<rparr>, 0))"
      using aesd_ioctl_seekto [OF inv ok(1) filp ok(2,3) _ small, of ?s] by simp
    finally show ?thesis by (simp add: spec_seekto_def addressed_def True)
  qed
qed

theorem ioctl_adds_position_witness:
  "aesd_ioctl demo_kernel demo_full (demo_file\<lparr>f_pos := 7\<rparr>) AESDCHAR_IOCSEEKTO
      (bytes_of_seekto \<lparr>write_cmd = 4, write_cmd_offset = 0\<rparr>) = Inr (demo_full, demo_file\<lparr>f_pos := 11\<rparr>, 0)
    \<and> aesd_ioctl demo_kernel demo_full demo_file AESDCHAR_IOCSEEKTO
      (bytes_of_seekto \<lparr>write_cmd = 10, write_cmd_offset = 0\<rparr>) = Inr (demo_full, demo_file, 0)"
proof -
  have small: "length (contents (dev_abs demo_full)) < 2 ^ 31"
    by (simp add: demo_full_abs contents_def length_concat sum_list_replicate)
  have "private_data (demo_file\<lparr>f_pos := 7\<rparr>) = aesd_device" by simp
  from ioctl_adds_position [OF demo_full_inv demo_kernel_serving this small, of "\<lparr>write_cmd = 4, write_cmd_offset = 0\<rparr>"]
    ioctl_adds_position [OF demo_full_inv demo_kernel_serving demo_file_sel(1) small, of "\<lparr>write_cmd = 10, write_cmd_offset = 0\<rparr>"]
  show ?thesis by (simp add: demo_full_abs demo_file_def addressed_def sum_list_replicate)
qed

text \<open>
  C20: From the start of the file, a seek command for byte \<open>o\<close> of command \<open>c\<close> followed by a
  read returns the bytes of that command from \<open>o\<close> on.
\<close>

theorem ioctl_then_read:
  assumes inv: "driver_inv d" and K: "serving K" and filp: "private_data filp = aesd_device"
    and pos: "f_pos filp = 0" and small: "length (contents (dev_abs d)) < 2 ^ 31"
    and c: "unat (write_cmd s) < length (commands (dev_abs d))"
    and o: "unat (write_cmd_offset s) < length (commands (dev_abs d) ! unat (write_cmd s))"
  shows "\<exists>filp' filp'' r. aesd_ioctl K d filp AESDCHAR_IOCSEEKTO (bytes_of_seekto s) = Inr (d, filp', 0)
    \<and> aesd_read K d filp' count = Inr (d, filp'',
        take (unat count) (drop (unat (write_cmd_offset s)) (commands (dev_abs d) ! unat (write_cmd s))), r)"
proof -
  let ?c = "unat (write_cmd s)" and ?o = "unat (write_cmd_offset s)" and ?cs = "commands (dev_abs d)"
  let ?p = "sum_list (take ?c (map length ?cs)) + ?o"
  let ?filp = "filp\<lparr>f_pos := of_nat ?p\<rparr>"
  have "length ?cs \<le> 10" using ring_count_le [OF driver_invD(1) [OF inv]] by (simp add: length_commands)
  with c have c10: "write_cmd s \<noteq> 10" by auto
  have io: "aesd_ioctl K d filp AESDCHAR_IOCSEEKTO (bytes_of_seekto s) = Inr (d, ?filp, 0)"
    using aesd_ioctl_seekto [OF inv _ filp _ _ c10 small, of K] K c o pos
    by (simp add: serving_def spec_seekto_def)
  have hit: "locate (map length xss) (sum_list (take k (map length xss)) + q) = Some (k, q)"
    if "k < length xss" and "q < length (xss ! k)" for xss :: "byte list list" and k q
    using that
  proof (induction xss arbitrary: k)
    case (Cons xs xss)
    then show ?case by (cases k) auto
  qed simp
  have "?p < length (contents (dev_abs d))"
    using c o sum_list_take_le [of "Suc ?c" "map length ?cs"] by (simp add: length_contents sum_list_take_Suc)
  then have "unat (of_nat ?p :: loff_t) = ?p"
    using small by (intro unat_of_nat_less) simp
  then have "spec_read (dev_abs d) (unat (f_pos ?filp)) (unat count) = take (unat count) (drop ?o (?cs ! ?c))"
    using hit [OF c o] by (simp only: spec_read_def) simp
  then show ?thesis
    using aesd_read_correct [OF inv, of ?filp K count] K filp c
    unfolding io by (simp add: serving_def Let_def) force
qed

theorem ioctl_then_read_witness:
  "\<exists>filp' filp'' r. aesd_ioctl demo_kernel demo_driver demo_file AESDCHAR_IOCSEEKTO
        (bytes_of_seekto \<lparr>write_cmd = 0, write_cmd_offset = 1\<rparr>) = Inr (demo_driver, filp', 0)
    \<and> aesd_read demo_kernel demo_driver filp' 9 = Inr (demo_driver, filp'', [105, 10], r)"
  using ioctl_then_read [OF demo_driver_inv demo_kernel_serving demo_file_sel,
      of "\<lparr>write_cmd = 0, write_cmd_offset = 1\<rparr>" 9]
  by (simp add: demo_driver_abs contents_def)

section \<open>Load and unload\<close>

text \<open>
  C25: Loading the module either returns 0 with an empty device registered under the number
  region it obtained, or returns an error with nothing left registered. Unloading it, with
  the device in any reachable state and registered under its own number, releases the block
  of every stored command, each once, and both registrations, but not the block of a pending
  command: it stays allocated after the module is gone (unless a write that ran out of
  memory has freed it).
\<close>

theorem module_load_unload:
  assumes m: "region_held m = None" "cdev_live m = None" "mem (drv m) = Map.empty" and C: "chrdev_ok C"
    and K: "kernel_ok K" and d: "driver_reachable (drv m')"
    and reg: "region_held m' = Some (MKDEV C (aesd_major m') (aesd_minor m'))"
  shows "(let (result, m1) = aesd_init_module C m; devno = snd (alloc_chrdev_region C (aesd_minor m)) in
      if result = 0
      then drv m1 = initial_driver \<and> region_held m1 = Some devno \<and> cdev_live m1 = Some devno
        \<and> devno = MKDEV C (aesd_major m1) (aesd_minor m1)
      else region_held m1 = None \<and> cdev_live m1 = None)
    \<and> (\<exists>m''. aesd_cleanup_module C K m' = Inr m'' \<and> region_held m'' = None \<and> cdev_live m'' = None
        \<and> dom (mem (drv m''))
            = (if dangling (drv m') then {} else addr_of (p_write_buffer (dev (drv m')))))"
proof (rule conjI)
  show "\<exists>m''. aesd_cleanup_module C K m' = Inr m'' \<and> region_held m'' = None \<and> cdev_live m'' = None
      \<and> dom (mem (drv m'')) = (if dangling (drv m') then {} else addr_of (p_write_buffer (dev (drv m'))))"
  proof (cases "stale (drv m')")
    case True
    let ?m = "m'\<lparr>drv := forget_pending (drv m')\<rparr>"
    have "driver_inv (drv ?m)" using True by (simp add: stale_def)
    from aesd_cleanup_module_frees [OF K this, of C] reg stale_dangling [OF True] show ?thesis
      by (auto simp: aesd_cleanup_module_def Let_def forget_pending_def split: sum.splits)
  next
    case False
    with driver_reachable_state [OF d] have inv: "driver_inv (drv m')" by (simp add: driver_state_def)
    from aesd_cleanup_module_frees [OF K inv reg] inv_not_dangling [OF inv] show ?thesis by simp
  qed
qed (use m chrdev_okD [OF C] in \<open>auto simp: aesd_init_module_def aesd_setup_cdev_def Let_def initial_driver_def zero_dev_def
      aesd_circular_buffer_init_def order_antisym split: prod.splits if_splits\<close>)

theorem module_load_unload_witness:
  "drv (snd (aesd_init_module demo_chrdev demo_module)) = initial_driver
    \<and> region_held (snd (aesd_init_module demo_chrdev demo_module)) = Some (240 * 2 ^ 20)
    \<and> (\<exists>m'. aesd_cleanup_module demo_chrdev demo_kernel (snd (aesd_init_module demo_chrdev demo_module)) = Inr m'
         \<and> region_held m' = None \<and> dom (mem (drv m')) = {})"
proof -
  let ?m = "snd (aesd_init_module demo_chrdev demo_module)"
  have loaded: "drv ?m = initial_driver" "region_held ?m = Some (MKDEV demo_chrdev (aesd_major ?m) (aesd_minor ?m))"
    by (simp_all add: demo_load_simps initial_driver_def aesd_init_module_def aesd_setup_cdev_def Let_def zero_dev_def
        aesd_circular_buffer_init_def)
  have "driver_reachable (drv ?m)" using driver_reachable.load by (simp add: loaded)
  have new: "region_held demo_module = None" "cdev_live demo_module = None" "mem (drv demo_module) = Map.empty"
    by (simp_all add: demo_load_simps initial_driver_def)
  have res: "fst (aesd_init_module demo_chrdev demo_module) = 0" "snd (alloc_chrdev_region demo_chrdev (aesd_minor demo_module)) = 240 * 2 ^ 20"
    by (simp_all add: demo_load_simps aesd_init_module_def aesd_setup_cdev_def Let_def)
  note both = module_load_unload [OF new demo_chrdev_ok demo_kernel_ok \<open>driver_reachable (drv ?m)\<close> loaded(2)]
  obtain m' where "aesd_cleanup_module demo_chrdev demo_kernel ?m = Inr m'" "region_held m' = None"
    "dom (mem (drv m')) = (if dangling (drv ?m) then {} else addr_of (p_write_buffer (dev (drv ?m))))"
    using both [THEN conjunct2] by (elim exE conjE)
  moreover have "addr_of (p_write_buffer (dev (drv ?m))) = {}" by (simp add: loaded(1) initial_driver_def zero_dev_def)
  moreover have "region_held ?m = Some (240 * 2 ^ 20)"
    using both [THEN conjunct1] res by (simp add: Let_def split_beta)
  ultimately show ?thesis using loaded(1) by (simp split: if_splits)
qed

section \<open>Branches that break the interface\<close>

text \<open>
  C32: When memory runs out while a command is pending, the write releases the pending block
  but leaves \<open>p_write_buffer\<close> pointing to it: every later write that gets the lock hands the
  freed block to \<open>krealloc\<close>.
\<close>

theorem nomem_leaves_stale_pointer:
  assumes K: "kernel_ok K" and inv: "driver_inv d" and filp: "private_data filp = aesd_device"
    and lock: "mutex_lock_interruptible K = 0" and pending: "partial (dev_abs d) \<noteq> []"
    and fail: "fst (krealloc K (mem d) (p_write_buffer (dev d)) (unat (count + write_buffer_size (dev d)))) = NULL"
    and later: "mutex_lock_interruptible K' = 0"
  shows "\<exists>d'. aesd_write K d filp buf count = Inr (d', - ENOMEM)
    \<and> aesd_write K' d' filp buf' count' = Inl UseAfterFree"
proof -
  let ?d = "d\<lparr>mem := release (mem d) (p_write_buffer (dev d))\<rparr>"
  obtain a where "p_write_buffer (dev d) = Ptr a"
    using pending by (cases "p_write_buffer (dev d)") (auto simp: dev_abs_def)
  then have "\<not> valid_ptr (mem ?d) (p_write_buffer (dev ?d))" by simp
  then have "aesd_write K' ?d filp buf' count' = Inl UseAfterFree"
    using driver_invD(3) [OF inv] by (intro aesd_write_stale [OF filp later]) simp_all
  with aesd_write_nomem [OF K inv filp lock fail, of buf] show ?thesis by blast
qed

theorem nomem_leaves_stale_pointer_witness:
  "\<exists>d'. aesd_write oom_kernel demo_pending demo_file [10] 1 = Inr (d', - ENOMEM)
    \<and> aesd_write demo_kernel d' demo_file [10] 1 = Inl UseAfterFree"
  using nomem_leaves_stale_pointer [OF oom_kernel_ok demo_pending_inv demo_file_sel(1),
      of 1 demo_kernel "[10]" "[10]" 1]
  by (simp add: demo_pending_abs)

text \<open>
  C33: Two reads go wrong. Reading a device without commands at any position other than 0
  faults: the search reports the unused slot as a hit, because \<open>current_string_size - 1\<close>
  wraps, and the null pointer of that slot is then copied from. And when the user's buffer
  cannot be written, a read of available bytes returns 0, which its caller takes for the
  end of the file, and not \<open>EFAULT\<close>; position and device stay.
\<close>

theorem read_failures:
  assumes inv: "driver_inv d" and filp: "private_data filp = aesd_device"
    and lock: "mutex_lock_interruptible K = 0" and n: "count \<noteq> 0"
  shows "(commands (dev_abs d) = [] \<and> f_pos filp \<noteq> 0 \<longrightarrow> aesd_read K d filp count = Inl NullDeref)
    \<and> ((\<forall>bs. bs \<noteq> [] \<longrightarrow> copy_to_user K bs = length bs) \<and> unat (f_pos filp) < length (contents (dev_abs d))
        \<longrightarrow> aesd_read K d filp count = Inr (d, filp, [], 0))"
proof (intro conjI impI; elim conjE)
  assume "commands (dev_abs d) = []" and "f_pos filp \<noteq> 0"
  then show "aesd_read K d filp count = Inl NullDeref"
    using aesd_read_empty [OF inv filp lock, of count] n by (simp add: Let_def)
next
  assume fail: "\<forall>bs. bs \<noteq> [] \<longrightarrow> copy_to_user K bs = length bs"
    and pos: "unat (f_pos filp) < length (contents (dev_abs d))"
  let ?bs = "spec_read (dev_abs d) (unat (f_pos filp)) (unat count)"
  have some: "commands (dev_abs d) \<noteq> []" using pos by (auto simp: contents_def)
  have "?bs \<noteq> []" using pos n by (intro spec_read_progress) (auto simp: unat_gt_0)
  with fail have "copy_to_user K ?bs = length ?bs" and "length ?bs \<noteq> 0" by auto
  then show "aesd_read K d filp count = Inr (d, filp, [], 0)"
    using aesd_read_result [OF inv filp lock some, of count] by (simp add: Let_def)
qed

theorem read_failures_witness:
  "aesd_read demo_kernel initial_driver (demo_file\<lparr>f_pos := 4\<rparr>) 8 = Inl NullDeref
    \<and> aesd_read (demo_kernel\<lparr>copy_to_user := length\<rparr>) demo_driver demo_file 3 = Inr (demo_driver, demo_file, [], 0)"
  using read_failures [OF driver_inv_initial, of "demo_file\<lparr>f_pos := 4\<rparr>" demo_kernel 8]
    read_failures [OF demo_driver_inv, of demo_file "demo_kernel\<lparr>copy_to_user := length\<rparr>" 3]
  by (simp add: dev_abs_initial empty_device_def demo_driver_abs contents_def)

section \<open>The types of the structure\<close>

lemma driver_inv_entries:
  assumes inv: "driver_inv d"
  shows "ring_inv (the_ring d) \<and> (e \<in> set (entry (the_ring d)) \<longrightarrow> e = zero_entry
    \<or> (\<exists>a bs. buffptr e = Ptr a \<and> mem d a = Some bs \<and> length bs = unat (entry_size e)))"
proof (intro conjI impI)
  note ring = driver_invD(1,2) [OF inv]
  show "ring_inv (the_ring d)" by (rule ring)
  assume "e \<in> set (entry (the_ring d))"
  then obtain j where "j < 10" and e: "e = entry (the_ring d) ! j"
    using ring(1) by (auto simp: in_set_conv_nth ring_inv_def)
  from slot_cases [OF ring this(1)]
  show "e = zero_entry \<or> (\<exists>a bs. buffptr e = Ptr a \<and> mem d a = Some bs \<and> length bs = unat (entry_size e))"
  proof (elim disjE exE conjE)
    fix k assume "k < ring_count (the_ring d)" "j = ring_slot (the_ring d) k"
    then have "e \<in> set (ring_entries (the_ring d))" by (auto simp: e ring_entries_def)
    from heap_okD(1) [OF driver_invD(4) [OF inv] this] show ?thesis
      by (cases "buffptr e") (auto simp: entry_ok_def entry_len_def split: option.splits)
  qed (simp add: e)
qed

text \<open>
  C11: The C types of the device structure in every state reached from a freshly loaded module
  by file operations, with any answers of a well-behaved kernel and less than \<open>2 ^ 63\<close> bytes: the
  array has its ten slots, both offsets are indices of it, every \<open>buffptr\<close> is null with
  size 0 or points to a live block of exactly \<open>size\<close> bytes, and the mutex is free between two
  calls. \<open>p_write_buffer\<close> is null, or the pointer to a block of size zero, with
  \<open>write_buffer_size\<close> 0, or it points to a live block of at least \<open>write_buffer_size\<close> bytes
  (more after a failed copy), or it dangles, which happens only after a write ran out of
  memory with bytes pending.
\<close>

theorem device_well_typed:
  assumes "driver_reachable d"
  shows "length (entry (the_ring d)) = 10 \<and> unat (in_offs (the_ring d)) < 10 \<and> unat (out_offs (the_ring d)) < 10
    \<and> (\<forall>e \<in> set (entry (the_ring d)). e = zero_entry
        \<or> (\<exists>a bs. buffptr e = Ptr a \<and> mem d a = Some bs \<and> length bs = unat (entry_size e)))
    \<and> (case p_write_buffer (dev d) of
         Ptr a \<Rightarrow> (case mem d a of Some bs \<Rightarrow> unat (write_buffer_size (dev d)) \<le> length bs | None \<Rightarrow> dangling d)
       | _ \<Rightarrow> write_buffer_size (dev d) = 0)
    \<and> \<not> lock_held (dev d)"
proof -
  note state = driver_reachable_state [OF assms]
  have entries: "ring_inv (the_ring d) \<and> (e \<in> set (entry (the_ring d)) \<longrightarrow> e = zero_entry
      \<or> (\<exists>a bs. buffptr e = Ptr a \<and> mem d a = Some bs \<and> length bs = unat (entry_size e)))" for e
    using driver_state_forget [OF state] driver_inv_entries [of d e] driver_inv_entries [of "forget_pending d" e]
    by auto
  have pending: "case p_write_buffer (dev d) of
      Ptr a \<Rightarrow> (case mem d a of Some bs \<Rightarrow> unat (write_buffer_size (dev d)) \<le> length bs | None \<Rightarrow> dangling d)
    | _ \<Rightarrow> write_buffer_size (dev d) = 0"
  proof (cases "stale d")
    case True
    then show ?thesis by (cases "p_write_buffer (dev d)") (auto simp: stale_def)
  next
    case False
    with state have "driver_inv d" by (simp add: driver_state_def)
    from heap_okD(5) [OF driver_invD(4) [OF this]] show ?thesis
      by (cases "p_write_buffer (dev d)") (auto simp: unat_eq_zero split: option.splits)
  qed
  show ?thesis using entries pending driver_state_unlocked [OF state] by (auto simp: ring_inv_def)
qed

theorem device_well_typed_witness:
  "length (entry (the_ring initial_driver)) = 10 \<and> \<not> lock_held (dev initial_driver)"
  using device_well_typed [OF driver_reachable.load] by blast

end
