(* ===== verification/System_Calls.thy ===== *)
theory System_Calls
  imports AESD_Prelude
begin

text \<open>
  \<^verbatim>\<open>examples/systemcalls/systemcalls.c\<close>: running a command through \<open>system\<close>, through
  \<open>fork\<close>, \<open>execv\<close> and \<open>waitpid\<close>, and the same with standard output redirected. The operating
  system's answers are the fields of \<open>proc_env\<close>; the wait status is the C \<open>int\<close> that
  \<open>WIFEXITED\<close> and \<open>WEXITSTATUS\<close> take apart. Results carry the system log.
\<close>

unbundle bit_operations_syntax

section \<open>Wait statuses\<close>

definition WIFEXITED :: "c_int \<Rightarrow> bool" where
  "WIFEXITED status \<longleftrightarrow> status AND 0x7F = 0"

definition WEXITSTATUS :: "c_int \<Rightarrow> c_int" where
  "WEXITSTATUS status = drop_bit 8 (status AND 0xFF00)"

text \<open>What the parent sees after the child calls \<open>exit(code)\<close>: the low byte of the code.\<close>

definition exit_status :: "c_int \<Rightarrow> c_int" where
  "exit_status code = push_bit 8 (code AND 0xFF)"

text \<open>What the parent sees after signal \<open>signo\<close> ended the child.\<close>

definition signal_status :: "c_int \<Rightarrow> c_int" where
  "signal_status signo = signo AND 0x7F"

lemma low_byte_mask: "(0xFF :: c_int) = mask 8" and low_bits_mask: "(0x7F :: c_int) = mask 7"
  and high_byte_mask: "(0xFF00 :: c_int) = push_bit 8 (mask 8)"
  by (simp_all add: mask_eq_exp_minus_1 push_bit_eq_mult)

lemma WIFEXITED_exit [simp, proc_simps]: "WIFEXITED (exit_status code)"
  unfolding WIFEXITED_def exit_status_def low_byte_mask low_bits_mask
  by (rule bit_word_eqI) (simp only: bit_simps, auto)

lemma WEXITSTATUS_exit [simp, proc_simps]: "WEXITSTATUS (exit_status code) = code AND 0xFF"
  unfolding WEXITSTATUS_def exit_status_def low_byte_mask high_byte_mask
  by (rule bit_word_eqI) (auto simp: bit_simps)

lemma WIFEXITED_signal: "WIFEXITED (signal_status signo) \<longleftrightarrow> signo AND 0x7F = 0"
  unfolding WIFEXITED_def signal_status_def low_bits_mask by (simp only: and.assoc and.idem)

text \<open>The two tests together look at the bits of one mask.\<close>

lemma exit_ok_mask: "WIFEXITED st \<and> WEXITSTATUS st = 0 \<longleftrightarrow> st AND 0xFF7F = 0"
proof -
  have "WEXITSTATUS st = 0 \<longleftrightarrow> st AND push_bit 8 (mask 8) = 0"
  proof -
    let ?x = "st AND push_bit 8 (mask 8)"
    have "?x = push_bit 8 (drop_bit 8 ?x)"
      by (rule bit_word_eqI) (auto simp: bit_simps)
    then show ?thesis
      unfolding WEXITSTATUS_def high_byte_mask by (metis push_bit_of_0 drop_bit_of_0)
  qed
  moreover have "(0xFF7F :: c_int) = mask 7 OR push_bit 8 (mask 8)"
    by (simp add: mask_eq_exp_minus_1 push_bit_eq_mult)
  ultimately show ?thesis
    unfolding WIFEXITED_def low_bits_mask by (simp only: bit.conj_disj_distrib or_eq_0_iff)
qed

section \<open>The environment\<close>

text \<open>Open descriptors and the file each refers to.\<close>

type_synonym fd_table = "nat \<rightharpoonup> string"

text \<open>
  \<open>system_call\<close> is \<open>system\<close>; \<open>fork\<close> is the value the parent gets (\<open>- 1\<close> on failure);
  \<open>execv\<close> is \<open>None\<close> when the program could not be started and otherwise the wait status
  with which the started program ends; \<open>waitpid\<close> is the value of the call for a pid;
  \<open>open_out\<close> is the descriptor \<open>open\<close> returns for a path; \<open>dup2_fails\<close> tells whether
  \<open>dup2\<close> reports an error.
\<close>

record proc_env =
  system_call :: "string option \<Rightarrow> c_int"
  fork :: c_int
  execv :: "string option \<Rightarrow> string option list \<Rightarrow> fd_table \<Rightarrow> c_int option"
  waitpid :: "c_int \<Rightarrow> c_int"
  open_out :: "fd_table \<Rightarrow> string \<Rightarrow> c_int"
  dup2_fails :: bool

datatype syslog =
    NoShell
  | ShellAvailable
  | SystemFailed
  | Terminated c_int       \<comment> \<open>with this exit status\<close>
  | NotNormally
  | ForkFailed
  | WaitFailed
  | ExecFailed
  | OpenFailed string
  | RedirectFailed string

text \<open>
  \<open>open\<close> returns the lowest descriptor that is not in use, or a negative value.
\<close>

definition open_ok :: "(fd_table \<Rightarrow> string \<Rightarrow> c_int) \<Rightarrow> bool" where
  "open_ok f \<longleftrightarrow> (\<forall>fds path. 0 \<le> sint (f fds path) \<longrightarrow>
     fds (unat (f fds path)) = None \<and> (\<forall>n < unat (f fds path). fds n \<noteq> None))"

section \<open>do_system\<close>

definition do_system :: "proc_env \<Rightarrow> string option \<Rightarrow> bool \<times> syslog list" where
  "do_system E cmd =
     (let return_code = system_call E cmd in
      if cmd = None then (False, [if return_code = 0 then NoShell else ShellAvailable])
      else if return_code = - 1 then (False, [SystemFailed])
      else if WIFEXITED return_code then
        let termination_status = WEXITSTATUS return_code in
        if termination_status = 0 then (True, []) else (False, [Terminated termination_status])
      else (False, [NotNormally]))"

section \<open>do_exec\<close>

text \<open>
  The loop over the variable arguments, with the terminating null pointer. Reading more
  arguments than were passed, or a negative count, is undefined.
\<close>

fun collect_args :: "nat \<Rightarrow> string list \<Rightarrow> string option list \<Rightarrow> fault + string option list" where
  "collect_args 0 args command = Inr (command @ [None])"
| "collect_args (Suc n) [] command = Inl OutOfBounds"
| "collect_args (Suc n) (a # args) command = collect_args n args (command @ [Some a])"

definition build_command :: "int \<Rightarrow> string list \<Rightarrow> fault + string option list" where
  "build_command count args = (if count < 0 then Inl OutOfBounds else collect_args (nat count) args [])"

text \<open>The child: the wait status it leaves and what it logs.\<close>

definition exec_child :: "proc_env \<Rightarrow> fd_table \<Rightarrow> string option list \<Rightarrow> c_int \<times> syslog list" where
  "exec_child E fds command =
     (case execv E (hd command) command fds of
        Some status \<Rightarrow> (status, [])
      | None \<Rightarrow> (exit_status 1, [ExecFailed]))"

text \<open>The parent: wait for the child that left \<open>status\<close>, and judge it.\<close>

definition await_child :: "proc_env \<Rightarrow> c_int \<Rightarrow> c_int \<Rightarrow> bool \<times> syslog list" where
  "await_child E pid status =
     (if waitpid E pid = - 1 then (False, [WaitFailed])
      else if WIFEXITED status then
        let termination_status = WEXITSTATUS status in
        if termination_status = 0 then (True, []) else (False, [Terminated termination_status])
      else (False, [NotNormally]))"

definition do_exec :: "proc_env \<Rightarrow> fd_table \<Rightarrow> int \<Rightarrow> string list \<Rightarrow> fault + (bool \<times> syslog list)" where
  "do_exec E fds count args =
     (case build_command count args of
        Inl e \<Rightarrow> Inl e
      | Inr command \<Rightarrow>
          let pid = fork E in
          if pid = - 1 then Inr (False, [ForkFailed])
          else
            let (status, child_log) = exec_child E fds command;
                (ok, parent_log) = await_child E pid status
            in Inr (ok, child_log @ parent_log))"

section \<open>do_exec_redirect\<close>

definition dup2 :: "proc_env \<Rightarrow> fd_table \<Rightarrow> nat \<Rightarrow> nat \<Rightarrow> fd_table option" where
  "dup2 E fds oldfd newfd =
     (if dup2_fails E \<or> fds oldfd = None then None else Some (fds(newfd := fds oldfd)))"

abbreviation STDOUT_FILENO :: nat where
  "STDOUT_FILENO \<equiv> 1"

definition redirect_child :: "proc_env \<Rightarrow> fd_table \<Rightarrow> string \<Rightarrow> string option list \<Rightarrow> c_int \<times> syslog list" where
  "redirect_child E fds outputfile command =
     (let h_outputfile = open_out E fds outputfile in
      if sint h_outputfile < 0 then (exit_status 1, [OpenFailed outputfile])
      else
        let fd = unat h_outputfile in
        case dup2 E (fds(fd \<mapsto> outputfile)) fd STDOUT_FILENO of
          None \<Rightarrow> (exit_status 1, [RedirectFailed outputfile])
        | Some fds' \<Rightarrow> exec_child E (fds'(fd := None)) command)"

definition do_exec_redirect ::
    "proc_env \<Rightarrow> fd_table \<Rightarrow> string \<Rightarrow> int \<Rightarrow> string list \<Rightarrow> fault + (bool \<times> syslog list)" where
  "do_exec_redirect E fds outputfile count args =
     (case build_command count args of
        Inl e \<Rightarrow> Inl e
      | Inr command \<Rightarrow>
          let pid = fork E in
          if pid = - 1 then Inr (False, [ForkFailed])
          else
            let (status, child_log) = redirect_child E fds outputfile command;
                (ok, parent_log) = await_child E pid status
            in Inr (ok, child_log @ parent_log))"

section \<open>Lemmas\<close>

lemma collect_args_eq:
  "collect_args n args command =
    (if n \<le> length args then Inr (command @ map Some (take n args) @ [None]) else Inl OutOfBounds)"
  by (induction n args command rule: collect_args.induct) auto

lemma build_command_eq:
  "build_command count args =
    (if 0 \<le> count \<and> nat count \<le> length args then Inr (map Some (take (nat count) args) @ [None])
     else Inl OutOfBounds)"
  by (auto simp: build_command_def collect_args_eq)

lemma await_child_eq:
  "await_child E pid st = (if waitpid E pid \<noteq> - 1 \<and> st AND 0xFF7F = 0 then (True, [])
    else (False, [if waitpid E pid = - 1 then WaitFailed
      else if WIFEXITED st then Terminated (WEXITSTATUS st) else NotNormally]))"
  using exit_ok_mask [of st] by (auto simp: await_child_def Let_def)

lemma await_child_iff: "fst (await_child E pid status) \<longleftrightarrow> waitpid E pid \<noteq> - 1 \<and> status AND 0xFF7F = 0"
  using exit_ok_mask [of status] by (auto simp: await_child_def Let_def)

lemma exec_child_failed [proc_simps]:
  "execv E (hd command) command fds = None \<Longrightarrow> exec_child E fds command = (exit_status 1, [ExecFailed])"
  by (simp add: exec_child_def)

lemma exec_child_started [proc_simps]:
  "execv E (hd command) command fds = Some status \<Longrightarrow> exec_child E fds command = (status, [])"
  by (simp add: exec_child_def)

lemma exit_1_not_ok [proc_simps]: "\<not> exit_status 1 AND 0xFF7F = 0"
  unfolding exit_ok_mask [symmetric] by simp

lemma hd_command [simp]: "0 < n \<Longrightarrow> args \<noteq> [] \<Longrightarrow> hd (map Some (take n args) @ [None]) = Some (hd args)"
  by (cases args; cases n) auto

text \<open>With standard output open, the program runs with it redirected and nothing else changed.\<close>

lemma redirect_child_fds:
  assumes "open_ok (open_out E)" and "0 \<le> sint (open_out E fds out)" and "\<not> dup2_fails E"
    and "fds STDOUT_FILENO \<noteq> None"
  shows "redirect_child E fds out command = exec_child E (fds(STDOUT_FILENO \<mapsto> out)) command"
proof -
  let ?fd = "unat (open_out E fds out)"
  have free: "fds ?fd = None" using assms(1,2) by (simp add: open_ok_def)
  with assms(4) have "?fd \<noteq> STDOUT_FILENO" by auto
  with free have "(fds(?fd \<mapsto> out, STDOUT_FILENO \<mapsto> out))(?fd := None) = fds(STDOUT_FILENO \<mapsto> out)"
    by (auto simp: fun_eq_iff)
  with assms(2,3) show ?thesis by (simp add: redirect_child_def dup2_def Let_def)
qed

text \<open>With standard output closed, \<open>open\<close> returns its number, and the final \<open>close\<close> closes it again.\<close>

lemma redirect_child_closed:
  assumes "open_ok (open_out E)" and "0 \<le> sint (open_out E fds out)" and "\<not> dup2_fails E"
    and "fds STDOUT_FILENO = None" and "fds 0 \<noteq> None"
  shows "redirect_child E fds out command = exec_child E fds command"
proof -
  let ?fd = "unat (open_out E fds out)"
  have "fds ?fd = None" and below: "\<forall>n < ?fd. fds n \<noteq> None"
    using assms(1,2) by (simp_all add: open_ok_def)
  with assms(4,5) have "?fd = STDOUT_FILENO"
    by (metis less_one linorder_neqE_nat)
  moreover have "fds(STDOUT_FILENO := None) = fds" using assms(4) by auto
  ultimately show ?thesis using assms(2,3) by (simp add: redirect_child_def dup2_def Let_def)
qed

end
