(* ===== verification/System_Properties.thy ===== *)
theory System_Properties
  imports System_Calls
begin

text \<open>The properties of the process helpers.\<close>

text \<open>An environment where \<open>true\<close> exits with 0, \<open>false\<close> with 1, and nothing else can be started.\<close>

definition demo_env :: proc_env where
  "demo_env = \<lparr>system_call = (\<lambda>cmd. if cmd = Some ''true'' then exit_status 0 else exit_status 1),
     fork = 42,
     execv = (\<lambda>path argv fds. if path = Some ''true'' then Some (exit_status 0)
        else if path = Some ''false'' then Some (exit_status 1) else None),
     waitpid = (\<lambda>pid. pid),
     open_out = (\<lambda>fds path. if fds 0 = None then 0 else if fds 1 = None then 1
        else if fds 2 = None then 2 else if fds 3 = None then 3 else - 1),
     dup2_fails = False\<rparr>"

definition demo_fds :: fd_table where
  "demo_fds = [0 \<mapsto> ''tty'', 1 \<mapsto> ''tty'', 2 \<mapsto> ''tty'']"

lemma below_three: "(n :: nat) < 3 \<longleftrightarrow> n = 0 \<or> n = 1 \<or> n = 2" and below_two: "(n :: nat) < 2 \<longleftrightarrow> n = 0 \<or> n = 1"
  by arith+

lemma demo_env_open_ok: "open_ok (open_out demo_env)"
  by (auto simp: open_ok_def demo_env_def below_three below_two)

lemma demo_env_system: "system_call demo_env (Some ''true'') = exit_status 0"
  "system_call demo_env (Some ''ls'') = exit_status 1"
  by (simp_all add: demo_env_def)

lemma proc_success_exit: "exit_status 0 AND 0xFF7F = 0"
  unfolding exit_ok_mask [symmetric] by simp

text \<open>
  C17: \<open>do_exec\<close> called with as many arguments as \<open>count\<close> says (at least the program) never
  faults; it returns true, with nothing logged, exactly when the fork succeeded, the
  program was started with exactly these arguments and a final null pointer, it ended by
  itself with exit status 0, and its status could be fetched; otherwise it returns false
  and logs a message.
\<close>

theorem do_exec_correct:
  assumes "0 < n" and "n \<le> length args"
  shows "(do_exec E fds (int n) args = Inr (True, [])
      \<longleftrightarrow> fork E \<noteq> - 1 \<and> waitpid E (fork E) \<noteq> - 1
        \<and> (case execv E (Some (hd args)) (map Some (take n args) @ [None]) fds of
             None \<Rightarrow> False | Some st \<Rightarrow> st AND 0xFF7F = 0))
    \<and> (do_exec E fds (int n) args = Inr (True, [])
      \<or> (\<exists>log. do_exec E fds (int n) args = Inr (False, log) \<and> log \<noteq> []))"
proof -
  let ?cmd = "map Some (take n args) @ [None]"
  have b: "build_command (int n) args = Inr ?cmd" using assms(2) by (simp add: build_command_eq)
  have hd: "hd ?cmd = Some (hd args)" using assms by (cases args; cases n) auto
  have "execv E (hd ?cmd) ?cmd fds = execv E (Some (hd args)) ?cmd fds" by (simp only: hd)
  then show ?thesis
    using exit_1_not_ok
    by (cases "execv E (Some (hd args)) ?cmd fds")
       (simp_all add: do_exec_def b exec_child_def await_child_eq Let_def)
qed

theorem do_exec_correct_witness:
  "do_exec demo_env demo_fds (int 2) [''true'', ''x''] = Inr (True, [])"
  using do_exec_correct [of 2 "[''true'', ''x'']" demo_env demo_fds] proc_success_exit
  by (simp add: demo_env_def)

text \<open>
  C18: With standard output open in the caller, \<open>do_exec_redirect\<close> gives the result and the
  log of \<open>do_exec\<close> for a process whose standard output is the file: the program sees
  descriptor 1 on the file, every other descriptor as in the caller, and no extra one.
  When standard output is closed in the caller (and standard input is not), \<open>open\<close> returns
  descriptor 1 itself, \<open>dup2\<close> does nothing and the \<open>close\<close> that follows closes it: the
  program runs without any redirection, as under \<open>do_exec\<close>.
\<close>

theorem do_exec_redirect_correct:
  assumes "open_ok (open_out E)" and "0 \<le> sint (open_out E fds out)" and "\<not> dup2_fails E"
    and "fds 0 \<noteq> None"
  shows "do_exec_redirect E fds out count args =
    (if fds STDOUT_FILENO = None then do_exec E fds count args
     else do_exec E (fds(STDOUT_FILENO \<mapsto> out)) count args)"
proof (cases "fds STDOUT_FILENO = None")
  case True
  show ?thesis
    unfolding do_exec_redirect_def do_exec_def redirect_child_closed [OF assms(1-3) True assms(4)] by (simp only: True refl if_True)
next
  case False
  then show ?thesis
    unfolding do_exec_redirect_def do_exec_def redirect_child_fds [OF assms(1-3) False] by (simp only: if_False)
qed

theorem do_exec_redirect_correct_witness:
  "do_exec_redirect demo_env demo_fds ''log'' 1 [''false''] = do_exec demo_env (demo_fds(1 \<mapsto> ''log'')) 1 [''false'']
    \<and> do_exec_redirect demo_env [0 \<mapsto> ''tty''] ''log'' 1 [''true''] = do_exec demo_env [0 \<mapsto> ''tty''] 1 [''true'']"
  using do_exec_redirect_correct [OF demo_env_open_ok, of demo_fds "''log''" 1 "[''false'']"]
    do_exec_redirect_correct [OF demo_env_open_ok, of "[0 \<mapsto> ''tty'']" "''log''" 1 "[''true'']"]
  by (simp add: demo_env_def demo_fds_def)

text \<open>
  C23: \<open>do_system\<close> returns true for a command exactly when the wait status says that it
  ended by itself with status 0 (so exit codes count modulo 256, and a signal never
  counts), it agrees with what \<open>do_exec\<close> makes of the same status, and without a command
  it returns false whether there is a shell or not.
\<close>

theorem do_system_correct:
  "(fst (do_system E (Some cmd)) \<longleftrightarrow> system_call E (Some cmd) AND 0xFF7F = 0)
    \<and> (system_call E (Some cmd) = exit_status code \<longrightarrow> (fst (do_system E (Some cmd)) \<longleftrightarrow> code AND 0xFF = 0))
    \<and> (waitpid E pid \<noteq> - 1 \<longrightarrow>
        fst (do_system E (Some cmd)) = fst (await_child E pid (system_call E (Some cmd))))
    \<and> \<not> fst (do_system E None)"
proof -
  have minus: "WIFEXITED (- 1) = False" by (simp add: WIFEXITED_def)
  have sys: "fst (do_system E (Some cmd)) \<longleftrightarrow> system_call E (Some cmd) AND 0xFF7F = 0"
    using exit_ok_mask [of "system_call E (Some cmd)"] minus by (auto simp: do_system_def Let_def)
  have "exit_status code AND 0xFF7F = 0 \<longleftrightarrow> code AND 0xFF = 0"
    unfolding exit_ok_mask [symmetric] by simp
  moreover have "\<not> fst (do_system E None)" by (simp add: do_system_def Let_def)
  ultimately show ?thesis using sys by (simp add: await_child_iff)
qed

theorem do_system_correct_witness:
  "fst (do_system demo_env (Some ''true'')) \<and> \<not> fst (do_system demo_env (Some ''ls'')) \<and> \<not> fst (do_system demo_env None)"
  using do_system_correct [of demo_env "''true''" 0 1] do_system_correct [of demo_env "''ls''" 1 1]
  by (simp add: demo_env_system proc_success_exit exit_1_not_ok)

end
