(* ===== verification/Writer.thy ===== *)
theory Writer
  imports AESD_Prelude
begin

text \<open>
  \<^verbatim>\<open>finder-app/writer.c\<close>: write a string to a file. The C library's stream calls are the
  fields of \<open>stdio\<close>; a stream holds the text printed to it until \<open>fclose\<close> (or the flush at
  exit, when \<open>main\<close> returns early) passes it to the file.
\<close>

section \<open>Streams\<close>

type_synonym files = "string \<rightharpoonup> string"

text \<open>
  \<open>fopen_w path\<close>: whether the file could be created or truncated. \<open>fprintf_s text\<close>: the
  return value of \<open>fprintf(h, "%s", text)\<close> and the text the stream holds then.
  \<open>fclose text\<close>: the return value for a stream that holds \<open>text\<close>, and what of the text
  reaches the file.
\<close>

record stdio =
  fopen_w :: "string \<Rightarrow> bool"
  fprintf_s :: "string \<Rightarrow> c_int \<times> string"
  fclose :: "string \<Rightarrow> int \<times> string"

text \<open>
  The documented behaviour: \<open>fprintf\<close> returns the number of characters printed, all of them,
  or a negative value; \<open>fclose\<close> returns 0 when all of the text has been written.
\<close>

definition stdio_ok :: "stdio \<Rightarrow> bool" where
  "stdio_ok E \<longleftrightarrow>
     (\<forall>text n held. fprintf_s E text = (n, held) \<longrightarrow> 0 \<le> sint n \<longrightarrow> held = text \<and> sint n = int (length text))
     \<and> (\<forall>text written. fclose E text = (0, written) \<longrightarrow> written = text)"

abbreviation EOF :: int where
  "EOF \<equiv> - 1"

datatype message =
    BadArguments nat
  | CannotCreate string
  | CannotWrite string
  | ShortWrite c_int c_int
  | CannotClose string
  | Writing string string

section \<open>main\<close>

datatype argument_type = ARG_PROGRAM_NAME | ARG_WRITEFILE | ARG_WRITESTR | ARG_MAX'

primrec arg_index :: "argument_type \<Rightarrow> nat" where
  "arg_index ARG_PROGRAM_NAME = 0"
| "arg_index ARG_WRITEFILE = 1"
| "arg_index ARG_WRITESTR = 2"
| "arg_index ARG_MAX' = 3"

text \<open>The exit code, the files, and what is logged.\<close>

definition writer_main :: "stdio \<Rightarrow> files \<Rightarrow> string list \<Rightarrow> int \<times> files \<times> message list" where
  "writer_main E fs argv =
     (if length argv \<noteq> arg_index ARG_MAX' then (1, fs, [BadArguments (length argv)])
      else
        let writefile = argv ! arg_index ARG_WRITEFILE; writestr = argv ! arg_index ARG_WRITESTR in
        if \<not> fopen_w E writefile then (1, fs, [CannotCreate writefile])
        else
          let writestr_length = (of_nat (length writestr) :: c_int);
              (bytes_written, held) = fprintf_s E writestr;
              (result, written) = fclose E held;
              fs' = fs(writefile \<mapsto> written)
          in if sint bytes_written < 0 then (1, fs', [CannotWrite writestr])
             else if bytes_written \<noteq> writestr_length
             then (1, fs', [ShortWrite writestr_length bytes_written])
             else if result = EOF then (1, fs', [CannotClose writefile])
             else (0, fs', [Writing writestr writefile]))"

section \<open>Lemmas\<close>

lemma stdio_print:
  "stdio_ok E \<Longrightarrow> fprintf_s E text = (n, held) \<Longrightarrow> 0 \<le> sint n \<Longrightarrow> held = text \<and> n = of_nat (length text)"
proof -
  assume "stdio_ok E" and "fprintf_s E text = (n, held)" and "0 \<le> sint n"
  then have "held = text" and n: "sint n = int (length text)" unfolding stdio_ok_def by blast+
  have "n = of_int (sint n)" by simp
  then show ?thesis using \<open>held = text\<close> by (simp add: n)
qed

lemma stdio_close: "stdio_ok E \<Longrightarrow> fclose E text = (0, written) \<Longrightarrow> written = text"
  by (simp add: stdio_ok_def)

section \<open>Properties\<close>

definition demo_stdio :: stdio where
  "demo_stdio = \<lparr>fopen_w = (\<lambda>path. path \<noteq> ''/''),
     fprintf_s = (\<lambda>text. if length text < 2 ^ 31 then (of_nat (length text), text) else (- 1, [])),
     fclose = (\<lambda>text. (0, text))\<rparr>"

lemma demo_stdio_ok: "stdio_ok demo_stdio"
  by (auto simp: stdio_ok_def demo_stdio_def signed_of_nat signed_take_bit_int_eq_self)

text \<open>
  C22: The writer exits with 0 exactly when it has two arguments, the file could be opened,
  the string was printed and the stream closed; the file then holds exactly the string,
  whatever it held before, and no other file changes. In every other case it exits with 1
  and logs one error, and without two arguments or an open file it touches nothing.
\<close>

theorem writer_main_correct:
  assumes E: "stdio_ok E" and close: "\<forall>text. fst (fclose E text) \<in> {0, EOF}"
  shows "case writer_main E fs argv of (code, fs', log) \<Rightarrow>
    (code = 0 \<longleftrightarrow> length argv = 3 \<and> fopen_w E (argv ! 1) \<and> 0 \<le> sint (fst (fprintf_s E (argv ! 2)))
       \<and> fst (fclose E (argv ! 2)) = 0)
    \<and> (code = 0 \<longrightarrow> fs' = fs(argv ! 1 \<mapsto> argv ! 2) \<and> log = [Writing (argv ! 2) (argv ! 1)])
    \<and> (code \<noteq> 0 \<longrightarrow> code = 1 \<and> length log = 1 \<and> (\<forall>f. f \<noteq> argv ! 1 \<longrightarrow> fs' f = fs f))
    \<and> (length argv \<noteq> 3 \<or> \<not> fopen_w E (argv ! 1) \<longrightarrow> fs' = fs)"
proof (cases "length argv = 3 \<and> fopen_w E (argv ! 1)")
  case False
  then show ?thesis by (auto simp: writer_main_def Let_def)
next
  case True
  obtain n held where print: "fprintf_s E (argv ! 2) = (n, held)" by (cases "fprintf_s E (argv ! 2)")
  obtain r written where fc: "fclose E held = (r, written)" by (cases "fclose E held")
  have "r \<in> {0, EOF}" using close fc by (metis fst_conv)
  with True show ?thesis
    using stdio_print [OF E print] stdio_close [OF E, of held written] fc
    by (cases "0 \<le> sint n") (auto simp: writer_main_def print Let_def)
qed

theorem writer_main_correct_witness:
  "case writer_main demo_stdio [''f'' \<mapsto> ''old''] [''writer'', ''f'', ''new''] of (code, fs', log) \<Rightarrow>
    code = 0 \<and> fs' = [''f'' \<mapsto> ''new'']"
  using writer_main_correct [OF demo_stdio_ok, of "[''writer'', ''f'', ''new'']" "[''f'' \<mapsto> ''old'']"]
  by (auto simp: demo_stdio_def split: prod.splits)

end
