(* ===== verification/Threading.thy ===== *)
theory Threading
  imports AESD_Prelude
begin

text \<open>
  \<^verbatim>\<open>examples/threading/threading.{h,c}\<close>: threads that sleep, take a mutex, hold it for a
  while and release it. \<open>thread_step\<close> is one library call of \<open>threadfunc\<close> by one thread; the
  interleavings are the step relation \<open>system_step\<close>. The mutexes are those of
  \<^verbatim>\<open>pthread.h\<close>: locking waits while another thread holds the mutex, and unlocking a mutex one
  does not hold is undefined.
\<close>

section \<open>State\<close>

record thread_data =
  p_mutex :: nat
  wait_to_obtain_ms :: c_int
  wait_to_release_ms :: c_int
  thread_complete_success :: bool

text \<open>The call that a thread makes next.\<close>

datatype pc = Sleep_to_obtain | Lock | Sleep_to_release | Unlock | Store_status | Finished

text \<open>\<open>sleep_requested\<close> counts the microseconds a thread has asked \<open>usleep\<close> for, in the calls that
  returned success; the time spent is at least that long and is not modelled.\<close>

record thread =
  pc :: pc
  arg :: nat
  b_status :: bool
  sleep_requested :: nat

text \<open>
  The allocated \<open>thread_data\<close> structures, which a thread refers to by its argument; the
  threads, numbered in the order of their creation; who holds each mutex.
\<close>

record system =
  blocks :: "thread_data list"
  threads :: "thread list"
  holder :: "nat \<Rightarrow> nat option"

primrec pc_rank :: "pc \<Rightarrow> nat" where
  "pc_rank Sleep_to_obtain = 0"
| "pc_rank Lock = 1"
| "pc_rank Sleep_to_release = 2"
| "pc_rank Unlock = 3"
| "pc_rank Store_status = 4"
| "pc_rank Finished = 5"

lemma pc_rank_inj: "pc_rank a = pc_rank b \<longleftrightarrow> a = b"
  by (cases a; cases b) simp_all

lemma pc_rank_le: "pc_rank a \<le> 5"
  by (cases a) simp_all

text \<open>Program points are ordered as the function runs through them.\<close>

instantiation pc :: linorder
begin

definition less_eq_pc :: "pc \<Rightarrow> pc \<Rightarrow> bool" where
  "less_eq_pc a b \<longleftrightarrow> pc_rank a \<le> pc_rank b"

definition less_pc :: "pc \<Rightarrow> pc \<Rightarrow> bool" where
  "less_pc a b \<longleftrightarrow> pc_rank a < pc_rank b"

instance
  by standard (auto simp: less_eq_pc_def less_pc_def pc_rank_inj)

end

section \<open>threadfunc\<close>

definition data_of_thread :: "system \<Rightarrow> nat \<Rightarrow> thread_data" where
  "data_of_thread s tid = blocks s ! arg (threads s ! tid)"

definition set_thread :: "nat \<Rightarrow> thread \<Rightarrow> system \<Rightarrow> system" where
  "set_thread tid t s = s\<lparr>threads := (threads s)[tid := t]\<rparr>"

text \<open>
  The next call of thread \<open>tid\<close>; \<open>ok\<close> says whether the call reports success. \<open>None\<close>: there is
  no such thread, it has finished, or it waits for the mutex. \<open>usleep\<close> takes the value of
  the field as a number of microseconds (\<open>useconds_t\<close> is unsigned).
\<close>

definition thread_step :: "bool \<Rightarrow> nat \<Rightarrow> system \<Rightarrow> (fault + system) option" where
  "thread_step ok tid s =
     (if length (threads s) \<le> tid then None
      else
        let t = threads s ! tid; d = data_of_thread s tid; m = p_mutex d in
        case pc t of
          Sleep_to_obtain \<Rightarrow> Some (Inr (set_thread tid (t\<lparr>pc := Lock, b_status := (b_status t \<and> ok),
            sleep_requested := sleep_requested t + (if ok then unat (wait_to_obtain_ms d) else 0)\<rparr>) s))
        | Lock \<Rightarrow>
            (if \<not> ok then Some (Inr (set_thread tid (t\<lparr>pc := Sleep_to_release, b_status := False\<rparr>) s))
             else if holder s m \<noteq> None then None
             else Some (Inr (set_thread tid (t\<lparr>pc := Sleep_to_release\<rparr>) (s\<lparr>holder := (holder s)(m \<mapsto> tid)\<rparr>))))
        | Sleep_to_release \<Rightarrow> Some (Inr (set_thread tid (t\<lparr>pc := Unlock, b_status := (b_status t \<and> ok),
            sleep_requested := sleep_requested t + (if ok then unat (wait_to_release_ms d) else 0)\<rparr>) s))
        | Unlock \<Rightarrow>
            (if \<not> ok then Some (Inr (set_thread tid (t\<lparr>pc := Store_status, b_status := False\<rparr>) s))
             else if holder s m \<noteq> Some tid then Some (Inl UnlockNotOwner)
             else Some (Inr (set_thread tid (t\<lparr>pc := Store_status\<rparr>) (s\<lparr>holder := (holder s)(m := None)\<rparr>))))
        | Store_status \<Rightarrow> Some (Inr (set_thread tid (t\<lparr>pc := Finished\<rparr>)
            (s\<lparr>blocks := (blocks s)[arg t := d\<lparr>thread_complete_success := b_status t\<rparr>]\<rparr>)))
        | Finished \<Rightarrow> None)"

section \<open>start_thread_obtaining_mutex\<close>

text \<open>
  \<open>malloc_ok\<close> and \<open>create_result\<close> are the outcomes of the two library calls; \<open>junk\<close> is what the
  uninitialised field of the new structure holds.
\<close>

definition start_thread_obtaining_mutex ::
    "bool \<Rightarrow> c_int \<Rightarrow> bool \<Rightarrow> nat \<Rightarrow> c_int \<Rightarrow> c_int \<Rightarrow> system \<Rightarrow> bool \<times> system" where
  "start_thread_obtaining_mutex malloc_ok create_result junk mutex obtain_ms release_ms s =
     (if \<not> malloc_ok then (False, s)
      else
        let d = \<lparr>p_mutex = mutex, wait_to_obtain_ms = obtain_ms, wait_to_release_ms = release_ms,
                 thread_complete_success = junk\<rparr>;
            s1 = s\<lparr>blocks := blocks s @ [d]\<rparr>
        in if create_result \<noteq> 0 then (False, s1)
           else (True, s1\<lparr>threads := threads s @
             [\<lparr>pc = Sleep_to_obtain, arg = length (blocks s), b_status = True, sleep_requested = 0\<rparr>]\<rparr>))"

section \<open>Interleavings\<close>

text \<open>
  Locking and unlocking succeed, as they do for a valid mutex; \<open>malloc\<close>, \<open>pthread_create\<close> and
  \<open>usleep\<close> may fail.
\<close>

inductive system_step :: "system \<Rightarrow> system \<Rightarrow> bool" where
  start: "start_thread_obtaining_mutex malloc_ok rc junk m o_ms r_ms s = (b, s') \<Longrightarrow> system_step s s'"
| call: "thread_step ok tid s = Some (Inr s') \<Longrightarrow> pc (threads s ! tid) \<in> {Lock, Unlock} \<longrightarrow> ok \<Longrightarrow>
    system_step s s'"

definition empty_system :: system where
  "empty_system = \<lparr>blocks = [], threads = [], holder = (\<lambda>_. None)\<rparr>"

inductive system_reachable :: "system \<Rightarrow> bool" where
  start: "system_reachable empty_system"
| step: "system_reachable s \<Longrightarrow> system_step s s' \<Longrightarrow> system_reachable s'"

inductive_cases system_stepE: "system_step s s'"

text \<open>Threads between the lock and the unlock are the holders of their mutexes.\<close>

definition system_inv :: "system \<Rightarrow> bool" where
  "system_inv s \<longleftrightarrow>
     (\<forall>tid < length (threads s). arg (threads s ! tid) < length (blocks s)
        \<and> (holder s (p_mutex (data_of_thread s tid)) = Some tid
            \<longleftrightarrow> pc (threads s ! tid) \<in> {Sleep_to_release, Unlock}))
     \<and> (\<forall>m tid. holder s m = Some tid \<longrightarrow> tid < length (threads s) \<and> m = p_mutex (data_of_thread s tid))"

lemma system_invD:
  assumes "system_inv s" and "tid < length (threads s)"
  shows "arg (threads s ! tid) < length (blocks s)"
    and "holder s (p_mutex (data_of_thread s tid)) = Some tid \<longleftrightarrow> pc (threads s ! tid) \<in> {Sleep_to_release, Unlock}"
  using assms by (simp_all add: system_inv_def)

lemma system_inv_holder:
  "system_inv s \<Longrightarrow> holder s m = Some tid \<Longrightarrow> tid < length (threads s) \<and> m = p_mutex (data_of_thread s tid)"
  by (simp add: system_inv_def)

lemma system_inv_empty: "system_inv empty_system"
  by (simp add: system_inv_def empty_system_def)

lemma system_inv_start:
  assumes inv: "system_inv s"
    and st: "start_thread_obtaining_mutex malloc_ok rc junk m o_ms r_ms s = (b, s')"
  shows "system_inv s'"
proof -
  have data: "data_of_thread (s\<lparr>blocks := blocks s @ [d], threads := threads s @ ts\<rparr>) tid = data_of_thread s tid"
    if "tid < length (threads s)" for tid d ts
    using that system_invD(1) [OF inv that] by (simp add: data_of_thread_def nth_append)
  have new: "holder s m' \<noteq> Some (length (threads s))" for m'
    using system_inv_holder [OF inv] by blast
  have "system_inv (s\<lparr>blocks := blocks s @ [d], threads := threads s @ ts\<rparr>)"
    if "ts = [] \<or> ts = [\<lparr>pc = Sleep_to_obtain, arg = length (blocks s), b_status = True, sleep_requested = 0\<rparr>]" for d ts
  proof -
    let ?s = "s\<lparr>blocks := blocks s @ [d], threads := threads s @ ts\<rparr>"
    have "arg (threads ?s ! tid) < length (blocks ?s)
        \<and> (holder ?s (p_mutex (data_of_thread ?s tid)) = Some tid
            \<longleftrightarrow> pc (threads ?s ! tid) \<in> {Sleep_to_release, Unlock})"
      if tid: "tid < length (threads ?s)" for tid
    proof (cases "tid < length (threads s)")
      case True
      then show ?thesis using data [OF True] system_invD [OF inv True] by (simp add: nth_append)
    next
      case False
      with tid \<open>ts = [] \<or> _\<close> have "tid = length (threads s)"
        and "ts = [\<lparr>pc = Sleep_to_obtain, arg = length (blocks s), b_status = True, sleep_requested = 0\<rparr>]" by auto
      then show ?thesis using new by (simp add: nth_append)
    qed
    moreover have "holder ?s m' = Some tid \<longrightarrow> tid < length (threads ?s) \<and> m' = p_mutex (data_of_thread ?s tid)" for m' tid
      using system_inv_holder [OF inv] data by (auto intro: trans_less_add1)
    ultimately show ?thesis unfolding system_inv_def by blast
  qed
  from this [of "[]"] this [OF disjI2, OF refl] show ?thesis
    using st inv by (auto simp: start_thread_obtaining_mutex_def Let_def split: if_splits)
qed

section \<open>Every call keeps the invariant\<close>

lemma data_of_set_thread [simp]:
  "data_of_thread (s\<lparr>holder := h\<rparr>) i = data_of_thread s i"
  "arg t = arg (threads s ! tid) \<Longrightarrow> tid < length (threads s) \<Longrightarrow>
    data_of_thread (set_thread tid t s) i = data_of_thread s i"
  by (cases "i = tid"; simp add: data_of_thread_def set_thread_def)+

text \<open>A change of one thread and of the holder of its own mutex.\<close>

lemma system_inv_update:
  assumes inv: "system_inv s" and tid: "tid < length (threads s)"
    and t: "arg t = arg (threads s ! tid)"
    and s': "threads s' = (threads s)[tid := t]" "length (blocks s') = length (blocks s)"
    and data: "\<And>i. p_mutex (data_of_thread s' i) = p_mutex (data_of_thread s i)"
    and m: "m = p_mutex (data_of_thread s tid)"
    and free: "holder s m = None \<or> holder s m = Some tid"
    and h: "holder s' = (holder s)(m := (if pc t \<in> {Sleep_to_release, Unlock} then Some tid else None))"
  shows "system_inv s'"
proof -
  have "arg (threads s' ! i) < length (blocks s')
      \<and> (holder s' (p_mutex (data_of_thread s' i)) = Some i \<longleftrightarrow> pc (threads s' ! i) \<in> {Sleep_to_release, Unlock})"
    if i: "i < length (threads s')" for i
  proof (cases "i = tid")
    case True
    with i show ?thesis using system_invD(1) [OF inv tid] by (simp add: s' t data h m)
  next
    case False
    then have "holder s' (p_mutex (data_of_thread s i)) = Some i
        \<longleftrightarrow> holder s (p_mutex (data_of_thread s i)) = Some i"
      using free by (auto simp: h)
    with False i show ?thesis using system_invD [OF inv, of i] by (simp add: s' data)
  qed
  moreover have "i < length (threads s') \<and> m' = p_mutex (data_of_thread s' i)" if "holder s' m' = Some i" for m' i
    using that system_inv_holder [OF inv, of m' i] tid by (auto simp: h s' data m split: if_splits)
  ultimately show ?thesis unfolding system_inv_def by blast
qed

text \<open>The same when the thread stays on its side of the lock.\<close>

lemma system_inv_local:
  assumes inv: "system_inv s" and tid: "tid < length (threads s)"
    and t: "arg t = arg (threads s ! tid)"
    and pc: "pc t \<in> {Sleep_to_release, Unlock} \<longleftrightarrow> pc (threads s ! tid) \<in> {Sleep_to_release, Unlock}"
    and s': "threads s' = (threads s)[tid := t]" "length (blocks s') = length (blocks s)" "holder s' = holder s"
    and data: "\<And>i. p_mutex (data_of_thread s' i) = p_mutex (data_of_thread s i)"
  shows "system_inv s'"
proof -
  have "arg (threads s' ! i) < length (blocks s')
      \<and> (holder s' (p_mutex (data_of_thread s' i)) = Some i \<longleftrightarrow> pc (threads s' ! i) \<in> {Sleep_to_release, Unlock})"
    if i: "i < length (threads s')" for i
    using system_invD [OF inv, of i] i pc by (cases "i = tid") (simp_all add: s' t data)
  moreover have "i < length (threads s') \<and> m' = p_mutex (data_of_thread s' i)" if "holder s' m' = Some i" for m' i
    using that system_inv_holder [OF inv, of m' i] by (simp add: s' data)
  ultimately show ?thesis unfolding system_inv_def by blast
qed

lemma set_thread_sel [simp]:
  "threads (set_thread tid t s) = (threads s)[tid := t]" "blocks (set_thread tid t s) = blocks s"
  "holder (set_thread tid t s) = holder s"
  by (simp_all add: set_thread_def)

lemma store_data:
  "p_mutex (data_of_thread (s\<lparr>blocks := (blocks s)[arg (threads s ! tid)
      := (data_of_thread s tid)\<lparr>thread_complete_success := b\<rparr>]\<rparr>) i) = p_mutex (data_of_thread s i)"
  by (cases "arg (threads s ! tid) < length (blocks s)"; cases "arg (threads s ! i) = arg (threads s ! tid)")
    (auto simp: data_of_thread_def list_update_beyond)

lemma thread_step_bound: "thread_step ok tid s = Some r \<Longrightarrow> tid < length (threads s)"
  by (auto simp: thread_step_def split: if_splits)

lemma system_inv_call:
  assumes inv: "system_inv s" and st: "thread_step ok tid s = Some (Inr s')"
    and ok: "pc (threads s ! tid) \<in> {Lock, Unlock} \<longrightarrow> ok"
  shows "system_inv s'"
proof -
  note tid = thread_step_bound [OF st]
  let ?m = "p_mutex (data_of_thread s tid)"
  show ?thesis
  proof (cases "pc (threads s ! tid)")
    case Sleep_to_obtain
    with st tid show ?thesis
      by (intro system_inv_local [OF inv tid, where t = "threads s' ! tid"]) (auto simp: thread_step_def Let_def)
  next
    case Lock
    with st tid ok have "holder s ?m = None"
      and "s' = set_thread tid ((threads s ! tid)\<lparr>pc := Sleep_to_release\<rparr>) (s\<lparr>holder := (holder s)(?m \<mapsto> tid)\<rparr>)"
      by (auto simp: thread_step_def Let_def split: if_splits)
    with tid show ?thesis
      by (intro system_inv_update [OF inv tid, where t = "threads s' ! tid" and m = ?m]) auto
  next
    case Sleep_to_release
    with st tid show ?thesis
      by (intro system_inv_local [OF inv tid, where t = "threads s' ! tid"]) (auto simp: thread_step_def Let_def)
  next
    case Unlock
    with st tid ok have "holder s ?m = Some tid"
      and "s' = set_thread tid ((threads s ! tid)\<lparr>pc := Store_status\<rparr>) (s\<lparr>holder := (holder s)(?m := None)\<rparr>)"
      by (auto simp: thread_step_def Let_def split: if_splits)
    with tid show ?thesis
      by (intro system_inv_update [OF inv tid, where t = "threads s' ! tid" and m = ?m]) auto
  next
    case Store_status
    with st tid show ?thesis
      by (intro system_inv_local [OF inv tid, where t = "threads s' ! tid"])
        (auto simp: thread_step_def Let_def store_data)
  next
    case Finished
    with st tid show ?thesis by (simp add: thread_step_def)
  qed
qed

lemma system_step_inv: "system_step s s' \<Longrightarrow> system_inv s \<Longrightarrow> system_inv s'"
  by (erule system_stepE) (blast intro: system_inv_start system_inv_call)+

lemma system_reachable_inv: "system_reachable s \<Longrightarrow> system_inv s"
  by (induction rule: system_reachable.induct) (auto intro: system_inv_empty system_step_inv)

end
