(* ===== verification/Threading_Runs.thy ===== *)
theory Threading_Runs
  imports Threading
begin

text \<open>
  Schedules of the example threads: every call moves its thread one point on, there is always
  a thread that can go on, and the status and sleeping time of each thread are as recorded.
\<close>

section \<open>One call\<close>

lemma thread_step_moves:
  assumes "thread_step ok tid s = Some (Inr s')"
  shows "length (threads s') = length (threads s)" and "length (blocks s') = length (blocks s)"
    and "pc_rank (pc (threads s' ! tid)) = Suc (pc_rank (pc (threads s ! tid)))"
    and "i \<noteq> tid \<Longrightarrow> threads s' ! i = threads s ! i" and "arg (threads s' ! i) = arg (threads s ! i)"
  using assms thread_step_bound [OF assms]
  by (cases "i = tid"; auto simp: thread_step_def Let_def split: if_splits pc.splits)+

text \<open>The calls that are left to all threads.\<close>

definition work :: "system \<Rightarrow> nat" where
  "work s = (\<Sum>t \<leftarrow> threads s. 5 - pc_rank (pc t))"

lemma sum_list_update_less:
  fixes xs :: "nat list"
  shows "i < length xs \<Longrightarrow> xs ! i = Suc x \<Longrightarrow> Suc (sum_list (xs[i := x])) = sum_list xs"
  by (induction xs arbitrary: i) (auto split: nat.splits simp: nth_Cons')

lemma thread_step_work:
  assumes "thread_step ok tid s = Some (Inr s')"
  shows "Suc (work s') = work s"
proof -
  note tid = thread_step_bound [OF assms]
  let ?f = "\<lambda>t. 5 - pc_rank (pc t)"
  have "threads s' = (threads s)[tid := threads s' ! tid]"
  proof (rule nth_equalityI)
    fix i
    show "threads s' ! i = (threads s)[tid := threads s' ! tid] ! i"
      using tid thread_step_moves(4) [OF assms] by (cases "i = tid") simp_all
  qed (simp add: thread_step_moves(1) [OF assms])
  then have "map ?f (threads s') = (map ?f (threads s))[tid := ?f (threads s' ! tid)]"
    by (metis map_update)
  moreover have "map ?f (threads s) ! tid = Suc (?f (threads s' ! tid))"
    using tid thread_step_moves(3) [OF assms] pc_rank_le [of "pc (threads s' ! tid)"] by simp
  ultimately show ?thesis
    using sum_list_update_less [of tid "map ?f (threads s)"] tid by (simp add: work_def)
qed

lemma work_0_iff: "work s = 0 \<longleftrightarrow> (\<forall>t \<in> set (threads s). pc t = Finished)"
proof -
  have "5 - pc_rank p = 0 \<longleftrightarrow> p = Finished" for p by (cases p) simp_all
  then show ?thesis by (simp add: work_def sum_list_eq_0_iff)
qed

text \<open>While a thread is unfinished some thread can make its call.\<close>

lemma some_thread_moves:
  assumes inv: "system_inv s" and tid: "tid < length (threads s)" and "pc (threads s ! tid) \<noteq> Finished"
  shows "\<exists>i s'. thread_step True i s = Some (Inr s')"
proof -
  have free: "\<exists>s'. thread_step True i s = Some (Inr s')"
    if "i < length (threads s)" and "pc (threads s ! i) \<notin> {Lock, Finished}" for i
    using that system_invD(2) [OF inv that(1)]
    by (cases "pc (threads s ! i)") (auto simp: thread_step_def Let_def)
  show ?thesis
  proof (cases "pc (threads s ! tid) = Lock")
    case False
    with assms free show ?thesis by blast
  next
    case True
    show ?thesis
    proof (cases "holder s (p_mutex (data_of_thread s tid))")
      case None
      with True tid have "\<exists>s'. thread_step True tid s = Some (Inr s')"
        by (simp add: thread_step_def Let_def)
      then show ?thesis by blast
    next
      case (Some i)
      with system_inv_holder [OF inv] have "i < length (threads s)"
        and m: "p_mutex (data_of_thread s tid) = p_mutex (data_of_thread s i)" by blast+
      with Some system_invD(2) [OF inv] have "pc (threads s ! i) \<in> {Sleep_to_release, Unlock}" by simp
      with free [OF \<open>i < length (threads s)\<close>] show ?thesis by auto
    qed
  qed
qed

section \<open>Schedules\<close>

text \<open>Each entry names the thread that calls and whether its call succeeds.\<close>

fun run_calls :: "(nat \<times> bool) list \<Rightarrow> system \<Rightarrow> (fault + system) option" where
  "run_calls [] s = Some (Inr s)"
| "run_calls ((tid, ok) # cs) s =
     (case thread_step ok tid s of
        None \<Rightarrow> None
      | Some (Inl e) \<Rightarrow> Some (Inl e)
      | Some (Inr s') \<Rightarrow> run_calls cs s')"

lemma run_calls_work: "run_calls cs s = Some (Inr s') \<Longrightarrow> work s = length cs + work s'"
proof (induction cs s rule: run_calls.induct)
  case (2 tid ok cs s)
  then obtain s1 where st: "thread_step ok tid s = Some (Inr s1)" and "run_calls cs s1 = Some (Inr s')"
    by (auto split: option.splits sum.splits)
  with 2 thread_step_work [OF st] show ?case by simp
qed simp

text \<open>The threads can always be run to their ends, in as many calls as they have left.\<close>

lemma run_to_end:
  "system_inv s \<Longrightarrow> \<exists>cs s'. run_calls cs s = Some (Inr s') \<and> length cs = work s \<and> work s' = 0 \<and> system_inv s'"
proof (induction "work s" arbitrary: s)
  case 0
  then show ?case by (intro exI [of _ "[]"]) simp
next
  case (Suc n)
  then obtain tid where "tid < length (threads s)" and "pc (threads s ! tid) \<noteq> Finished"
    using work_0_iff [of s] by (metis Zero_not_Suc in_set_conv_nth)
  then obtain i s1 where st: "thread_step True i s = Some (Inr s1)"
    using some_thread_moves [OF Suc.prems] by blast
  moreover have "n = work s1" using thread_step_work [OF st] Suc.hyps(2) by simp
  ultimately obtain cs s' where "run_calls cs s1 = Some (Inr s')" "length cs = work s1" "work s' = 0" "system_inv s'"
    using Suc.hyps(1) [of s1] system_inv_call [OF Suc.prems st] by blast
  with st thread_step_work [OF st] show ?case by (intro exI [of _ "(i, True) # cs"]) auto
qed

lemma all_finished_free:
  assumes inv: "system_inv s" and "work s = 0"
  shows "holder s m = None"
proof (cases "holder s m")
  case (Some tid)
  with system_inv_holder [OF inv] have tid: "tid < length (threads s)"
    and "holder s (p_mutex (data_of_thread s tid)) = Some tid" by blast+
  with system_invD(2) [OF inv tid] assms(2) work_0_iff [of s] nth_mem [OF tid] show ?thesis by auto
qed simp

section \<open>Status and sleeping time\<close>

definition owed_sleep :: "thread_data \<Rightarrow> pc \<Rightarrow> nat" where
  "owed_sleep d p = (if Sleep_to_obtain < p then unat (wait_to_obtain_ms d) else 0)
     + (if Sleep_to_release < p then unat (wait_to_release_ms d) else 0)"

definition status_inv :: "system \<Rightarrow> bool" where
  "status_inv s \<longleftrightarrow> distinct (map arg (threads s))
     \<and> (\<forall>tid < length (threads s). arg (threads s ! tid) < length (blocks s)
        \<and> (b_status (threads s ! tid) \<longrightarrow>
            sleep_requested (threads s ! tid) = owed_sleep (data_of_thread s tid) (pc (threads s ! tid)))
        \<and> (pc (threads s ! tid) = Finished \<longrightarrow>
            thread_complete_success (data_of_thread s tid) = b_status (threads s ! tid)))"

lemma status_invD:
  assumes "status_inv s" and "tid < length (threads s)"
  shows "arg (threads s ! tid) < length (blocks s)"
    and "b_status (threads s ! tid) \<longrightarrow>
      sleep_requested (threads s ! tid) = owed_sleep (data_of_thread s tid) (pc (threads s ! tid))"
    and "pc (threads s ! tid) = Finished \<longrightarrow>
      thread_complete_success (data_of_thread s tid) = b_status (threads s ! tid)"
  using assms by (simp_all add: status_inv_def)

lemma status_inv_empty: "status_inv empty_system"
  by (simp add: status_inv_def empty_system_def)

lemma data_append [simp]:
  "arg (threads s ! tid) < length (blocks s) \<Longrightarrow> tid < length (threads s) \<Longrightarrow>
    data_of_thread (s\<lparr>blocks := blocks s @ bs, threads := threads s @ ts\<rparr>) tid = data_of_thread s tid"
  by (simp add: data_of_thread_def nth_append)

lemma status_inv_start:
  assumes inv: "status_inv s"
    and st: "start_thread_obtaining_mutex malloc_ok rc junk m o_ms r_ms s = (b, s')"
  shows "status_inv s'"
proof -
  let ?t = "\<lparr>pc = Sleep_to_obtain, arg = length (blocks s), b_status = True, sleep_requested = 0\<rparr>"
  have fresh: "\<forall>t \<in> set (threads s). arg t \<noteq> length (blocks s)"
    using status_invD(1) [OF inv] by (fastforce simp: in_set_conv_nth)
  have "status_inv (s\<lparr>blocks := blocks s @ [d], threads := threads s @ ts\<rparr>)" if ts: "ts = [] \<or> ts = [?t]" for d ts
  proof -
    let ?s = "s\<lparr>blocks := blocks s @ [d], threads := threads s @ ts\<rparr>"
    have "arg (threads ?s ! i) < length (blocks ?s)
        \<and> (b_status (threads ?s ! i) \<longrightarrow> sleep_requested (threads ?s ! i) = owed_sleep (data_of_thread ?s i) (pc (threads ?s ! i)))
        \<and> (pc (threads ?s ! i) = Finished \<longrightarrow>
            thread_complete_success (data_of_thread ?s i) = b_status (threads ?s ! i))"
      if i: "i < length (threads ?s)" for i
    proof (cases "i < length (threads s)")
      case True
      then show ?thesis using status_invD [OF inv True] by (simp add: nth_append)
    next
      case False
      with i ts have "i = length (threads s)" and "ts = [?t]" by auto
      then show ?thesis by (simp add: owed_sleep_def less_pc_def)
    qed
    moreover have "distinct (map arg (threads ?s))"
      using inv ts fresh by (auto simp: status_inv_def)
    ultimately show ?thesis unfolding status_inv_def by blast
  qed
  from this [of "[]"] this [OF disjI2, OF refl] show ?thesis
    using st inv by (auto simp: start_thread_obtaining_mutex_def Let_def split: if_splits)
qed

text \<open>A call changes the status of its own thread only, and of its structure only at the end.\<close>

lemma status_inv_call:
  assumes inv: "status_inv s" and st: "thread_step ok tid s = Some (Inr s')"
  shows "status_inv s'"
proof -
  note tid = thread_step_bound [OF st] and moves = thread_step_moves [OF st]
  have args: "map arg (threads s') = map arg (threads s)"
    by (rule nth_equalityI) (use moves in auto)
  have other: "data_of_thread s' i = data_of_thread s i" if i: "i < length (threads s)" "i \<noteq> tid" for i
  proof -
    have "arg (threads s ! i) \<noteq> arg (threads s ! tid)"
      using inv i tid nth_eq_iff_index_eq [of "map arg (threads s)" i tid] by (simp add: status_inv_def)
    then have "blocks s' ! arg (threads s ! i) = blocks s ! arg (threads s ! i)"
      using st tid by (auto simp: thread_step_def Let_def split: if_splits pc.splits)
    then show ?thesis by (simp add: data_of_thread_def moves(5))
  qed
  have own: "(b_status (threads s' ! tid) \<longrightarrow>
        sleep_requested (threads s' ! tid) = owed_sleep (data_of_thread s' tid) (pc (threads s' ! tid)))
      \<and> (pc (threads s' ! tid) = Finished \<longrightarrow>
        thread_complete_success (data_of_thread s' tid) = b_status (threads s' ! tid))"
    using st tid status_invD [OF inv tid]
    by (cases "pc (threads s ! tid)")
      (auto simp: thread_step_def Let_def owed_sleep_def less_pc_def data_of_thread_def split: if_splits)
  have "arg (threads s' ! i) < length (blocks s')
      \<and> (b_status (threads s' ! i) \<longrightarrow> sleep_requested (threads s' ! i) = owed_sleep (data_of_thread s' i) (pc (threads s' ! i)))
      \<and> (pc (threads s' ! i) = Finished \<longrightarrow>
          thread_complete_success (data_of_thread s' i) = b_status (threads s' ! i))"
    if i: "i < length (threads s')" for i
    using own other [of i] status_invD [OF inv, of i] i moves(1,2,4,5) by (cases "i = tid") simp_all
  moreover have "distinct (map arg (threads s'))" using inv by (simp add: args status_inv_def)
  ultimately show ?thesis unfolding status_inv_def by blast
qed

lemma system_reachable_status: "system_reachable s \<Longrightarrow> status_inv s"
  by (induction rule: system_reachable.induct)
    (auto intro: status_inv_empty status_inv_start status_inv_call elim!: system_stepE)

end
