(* ===== verification/Threading_Properties.thy ===== *)
theory Threading_Properties
  imports Threading_Runs
begin

text \<open>The properties of the threading example.\<close>

definition started :: "system" where
  "started = snd (start_thread_obtaining_mutex True 0 False 7 20 30
     (snd (start_thread_obtaining_mutex True 0 True 7 1 2 empty_system)))"

lemma started_reachable: "system_reachable started"
proof -
  have one: "system_step s (snd (start_thread_obtaining_mutex a rc j m x y s))" for s a rc j m x y
    by (rule system_step.start [OF prod.collapse [symmetric]])
  show ?thesis unfolding started_def by (intro system_reachable.step [OF _ one] system_reachable.start)
qed

lemma started_eq: "started = \<lparr>
    blocks = [\<lparr>p_mutex = 7, wait_to_obtain_ms = 1, wait_to_release_ms = 2, thread_complete_success = True\<rparr>,
      \<lparr>p_mutex = 7, wait_to_obtain_ms = 20, wait_to_release_ms = 30, thread_complete_success = False\<rparr>],
    threads = [\<lparr>pc = Sleep_to_obtain, arg = 0, b_status = True, sleep_requested = 0\<rparr>,
      \<lparr>pc = Sleep_to_obtain, arg = 1, b_status = True, sleep_requested = 0\<rparr>],
    holder = (\<lambda>_. None)\<rparr>"
  by (simp add: started_def start_thread_obtaining_mutex_def empty_system_def)

text \<open>Both threads have slept, and the first one has finished.\<close>

definition one_done :: system where
  "one_done = \<lparr>
    blocks = [\<lparr>p_mutex = 7, wait_to_obtain_ms = 1, wait_to_release_ms = 2, thread_complete_success = True\<rparr>,
      \<lparr>p_mutex = 7, wait_to_obtain_ms = 20, wait_to_release_ms = 30, thread_complete_success = False\<rparr>],
    threads = [\<lparr>pc = Finished, arg = 0, b_status = True, sleep_requested = 3\<rparr>,
      \<lparr>pc = Lock, arg = 1, b_status = True, sleep_requested = 20\<rparr>],
    holder = (\<lambda>_. None)\<rparr>"

lemma run_calls_reachable:
  "system_reachable s \<Longrightarrow> run_calls cs s = Some (Inr s') \<Longrightarrow> \<forall>c \<in> set cs. snd c \<Longrightarrow> system_reachable s'"
proof (induction cs s rule: run_calls.induct)
  case (2 tid ok cs s)
  then obtain s1 where st: "thread_step ok tid s = Some (Inr s1)" and "run_calls cs s1 = Some (Inr s')"
    by (auto split: option.splits sum.splits)
  moreover have "system_reachable s1"
    using 2 system_reachable.step [OF 2(2) system_step.call [OF st]] by simp
  ultimately show ?case using 2 by simp
qed simp

lemma run_one_done:
  "run_calls [(1, True), (0, True), (0, True), (0, True), (0, True), (0, True)] started = Some (Inr one_done)"
  by (simp add: started_eq one_done_def thread_step_def data_of_thread_def set_thread_def fun_eq_iff)

lemma one_done_reachable: "system_reachable one_done"
  using run_calls_reachable [OF started_reachable run_one_done] by simp

text \<open>
  C15: In every interleaving of any number of threads, two threads between the lock and the
  unlock of the same mutex are the same thread, and no thread ever unlocks a mutex it does
  not hold, provided that lock calls succeed.
\<close>

theorem mutual_exclusion:
  assumes "system_reachable s" and "i < length (threads s)" and "j < length (threads s)"
    and "pc (threads s ! i) \<in> {Sleep_to_release, Unlock}" and "pc (threads s ! j) \<in> {Sleep_to_release, Unlock}"
    and "p_mutex (data_of_thread s i) = p_mutex (data_of_thread s j)"
  shows "i = j \<and> holder s (p_mutex (data_of_thread s i)) = Some i \<and> thread_step ok tid s \<noteq> Some (Inl f)"
proof -
  note inv = system_reachable_inv [OF assms(1)]
  have "thread_step ok tid s \<noteq> Some (Inl f)"
  proof (cases "tid < length (threads s)")
    case True
    then show ?thesis
      using system_invD(2) [OF inv True]
      by (cases "pc (threads s ! tid)") (auto simp: thread_step_def Let_def)
  qed (simp add: thread_step_def)
  then show ?thesis
    using system_invD(2) [OF inv assms(2)] system_invD(2) [OF inv assms(3)] assms(4-6) by simp
qed

definition one_holds :: system where
  "one_holds = one_done\<lparr>threads := [\<lparr>pc = Finished, arg = 0, b_status = True, sleep_requested = 3\<rparr>,
      \<lparr>pc = Sleep_to_release, arg = 1, b_status = True, sleep_requested = 20\<rparr>], holder := [7 \<mapsto> 1]\<rparr>"

lemma one_holds_reachable: "system_reachable one_holds"
proof -
  have "run_calls [(1, True)] one_done = Some (Inr one_holds)"
    by (simp add: one_done_def one_holds_def thread_step_def data_of_thread_def set_thread_def)
  from run_calls_reachable [OF one_done_reachable this] show ?thesis by simp
qed

theorem mutual_exclusion_witness:
  "holder one_holds 7 = Some 1 \<and> thread_step True 1 one_holds \<noteq> Some (Inl UnlockNotOwner)"
  using mutual_exclusion [OF one_holds_reachable, of 1 1 True 1 UnlockNotOwner]
  by (simp add: one_holds_def one_done_def data_of_thread_def)

text \<open>
  C16: The threads never deadlock and always end: from every reachable state some schedule
  of exactly the remaining calls takes every thread to its end with all mutexes free, no
  schedule is longer than that, and it is at most five calls per thread.
\<close>

theorem threads_all_finish:
  assumes "system_reachable s"
  shows "(\<exists>cs s'. run_calls cs s = Some (Inr s') \<and> length cs = work s
      \<and> list_all (\<lambda>t. pc t = Finished) (threads s') \<and> holder s' = (\<lambda>_. None))
    \<and> (\<forall>cs s'. run_calls cs s = Some (Inr s') \<longrightarrow> length cs \<le> work s)
    \<and> work s \<le> 5 * length (threads s)"
proof -
  obtain cs s' where "run_calls cs s = Some (Inr s')" "length cs = work s" "work s' = 0" "system_inv s'"
    using run_to_end [OF system_reachable_inv [OF assms]] by blast
  moreover from this have "list_all (\<lambda>t. pc t = Finished) (threads s')" and "holder s' = (\<lambda>_. None)"
    using work_0_iff [of s'] all_finished_free [of s'] by (auto simp: list_all_iff fun_eq_iff)
  moreover have "work s \<le> 5 * length (threads s)"
    unfolding work_def by (induction "threads s") (auto simp: sum_list_mono2 intro: order_trans [OF sum_list_mono [where g = "\<lambda>_. 5"]] simp: sum_list_triv)
  ultimately show ?thesis using run_calls_work [of _ s] by fastforce
qed

theorem threads_all_finish_witness:
  "\<exists>cs s'. run_calls cs started = Some (Inr s') \<and> length cs = 10 \<and> holder s' = (\<lambda>_. None)"
  using threads_all_finish [OF started_reachable] by (auto simp: work_def started_eq)

text \<open>
  C36: A thread that reports success has requested, in calls of \<open>usleep\<close> that succeeded,
  exactly as many microseconds as its two parameters say; they are documented as milliseconds.
\<close>

theorem successful_thread_slept_microseconds:
  assumes "system_reachable s" and "tid < length (threads s)" and "pc (threads s ! tid) = Finished"
    and "thread_complete_success (data_of_thread s tid)"
  shows "sleep_requested (threads s ! tid) = unat (wait_to_obtain_ms (data_of_thread s tid))
    + unat (wait_to_release_ms (data_of_thread s tid))"
  using status_invD [OF system_reachable_status [OF assms(1)] assms(2)] assms(3,4)
  by (simp add: owed_sleep_def less_pc_def)

theorem successful_thread_slept_microseconds_witness: "sleep_requested (threads one_done ! 0) = 3"
  using successful_thread_slept_microseconds [OF one_done_reachable, of 0]
  by (simp add: one_done_def data_of_thread_def)

text \<open>
  C37: When the lock call of a thread fails, the thread goes on without the mutex and
  finally unlocks it, which is undefined: it may release the mutex under another thread.
\<close>

theorem failed_lock_unlocks_anyway:
  assumes "system_reachable s" and "tid < length (threads s)" and "pc (threads s ! tid) = Lock"
  shows "run_calls [(tid, False), (tid, True), (tid, True)] s = Some (Inl UnlockNotOwner)"
  using system_invD(2) [OF system_reachable_inv [OF assms(1)] assms(2)] assms(2,3)
  by (simp add: thread_step_def Let_def)

theorem failed_lock_unlocks_anyway_witness:
  "run_calls [(1, False), (1, True), (1, True)] one_done = Some (Inl UnlockNotOwner)"
  by (rule failed_lock_unlocks_anyway [OF one_done_reachable]) (simp_all add: one_done_def)

end
