(* ===== verification/C_Library.thy ===== *)
theory C_Library
  imports Driver_Properties
begin

text \<open>
  What the socket server uses of the C library: strings that end at a zero byte, in blocks of
  known size; \<open>sscanf\<close> for the one format string of the server; and streams of \<open>stdio\<close> on
  the character device, opened with mode \<^verbatim>\<open>a+\<close>. A stream buffers what \<open>fprintf\<close> prints until
  the next read or close, and what it has read ahead until \<open>getline\<close> returns it.
\<close>

section \<open>Strings\<close>

definition c_string :: "byte list \<Rightarrow> byte list" where
  "c_string bs = takeWhile (\<lambda>c. c \<noteq> 0) bs"

definition strchr_newline :: "byte list \<Rightarrow> bool" where
  "strchr_newline bs \<longleftrightarrow> newline \<in> set (c_string bs)"

fun strstr :: "byte list \<Rightarrow> byte list \<Rightarrow> bool" where
  "strstr [] needle = (needle = [])"
| "strstr (c # cs) needle = (take (length needle) (c # cs) = needle \<or> strstr cs needle)"

text \<open>Both copy into a block and must find room for the terminating zero.\<close>

definition strcpy :: "byte list \<Rightarrow> byte list \<Rightarrow> fault + byte list" where
  "strcpy dst src =
     (let s = c_string src @ [0] in
      if length s \<le> length dst then Inr (s @ drop (length s) dst) else Inl OutOfBounds)"

definition strcat :: "byte list \<Rightarrow> byte list \<Rightarrow> fault + byte list" where
  "strcat dst src =
     (let s = c_string dst @ c_string src @ [0] in
      if 0 \<notin> set dst then Inl OutOfBounds
      else if length s \<le> length dst then Inr (s @ drop (length s) dst) else Inl OutOfBounds)"

text \<open>The block after \<open>realloc\<close> to \<open>n\<close> bytes; new bytes have no defined value.\<close>

definition resize :: "byte list \<Rightarrow> nat \<Rightarrow> (nat \<Rightarrow> byte) \<Rightarrow> byte list" where
  "resize bs n junk = take n bs @ map junk [length bs..<n]"

lemma c_string_zero [simp]: "0 \<notin> set s \<Longrightarrow> c_string (s @ 0 # rest) = s"
  by (subst c_string_def, subst takeWhile_append2) auto

lemma zero_notin_c_string [simp]: "0 \<notin> set (c_string bs)"
  by (auto simp: c_string_def dest: set_takeWhileD)

lemma length_resize: "length (resize bs n junk) = n"
  by (simp add: resize_def min_def)

lemma resize_string:
  assumes "bs = s @ 0 # rest" and "length bs \<le> n"
  shows "\<exists>rest'. resize bs n junk = s @ 0 # rest'"
  using assms by (simp add: resize_def)

lemma strcpy_ok:
  assumes "0 \<notin> set src" and "length src < length dst"
  shows "\<exists>rest. strcpy dst (src @ [0]) = Inr (src @ 0 # rest) \<and> length (src @ 0 # rest) = length dst"
  using assms by (simp add: strcpy_def Let_def)

lemma strcat_ok:
  assumes "dst = s @ 0 # rest" and "0 \<notin> set s" and "0 \<notin> set src" and "length s + length src < length dst"
  shows "\<exists>rest'. strcat dst (src @ [0]) = Inr ((s @ src) @ 0 # rest') \<and> length ((s @ src) @ 0 # rest') = length dst"
  using assms by (simp add: strcat_def Let_def)

section \<open>sscanf\<close>

text \<open>The characters of \<^verbatim>\<open>AESDCHAR_IOCSEEKTO\<close>, and of the separators.\<close>

definition AESDCHAR_IOCSEEKTO_CMD_STR :: "byte list" where
  "AESDCHAR_IOCSEEKTO_CMD_STR = [65, 69, 83, 68, 67, 72, 65, 82, 95, 73, 79, 67, 83, 69, 69, 75, 84, 79]"

definition isdigit :: "byte \<Rightarrow> bool" where
  "isdigit c \<longleftrightarrow> 48 \<le> c \<and> c \<le> 57"

definition isspace :: "byte \<Rightarrow> bool" where
  "isspace c \<longleftrightarrow> c = 32 \<or> 9 \<le> c \<and> c \<le> 13"

definition decimal :: "byte list \<Rightarrow> nat" where
  "decimal ds = foldl (\<lambda>n c. 10 * n + (unat c - 48)) 0 ds"

text \<open>
  \<^verbatim>\<open>%u\<close>: skip white space, take an optional sign and the digits, convert with saturation at 64
  bits, and store the low 32 bits. \<open>None\<close> when there is no digit.
\<close>

definition scan_unsigned :: "byte list \<Rightarrow> (uint32_t \<times> byte list) option" where
  "scan_unsigned s =
     (let s1 = dropWhile isspace s;
          neg = (s1 \<noteq> [] \<and> hd s1 = 45);
          s2 = (if s1 \<noteq> [] \<and> (hd s1 = 45 \<or> hd s1 = 43) then tl s1 else s1);
          ds = takeWhile isdigit s2;
          v = decimal ds;
          u = (if 2 ^ 64 \<le> v then - 1 else if neg then - of_nat v else of_nat v :: size_t)
      in if ds = [] then None else Some (ucast u, dropWhile isdigit s2))"

text \<open>
  \<^verbatim>\<open>sscanf(s, "AESDCHAR_IOCSEEKTO:%u,%u", &write_cmd, &write_cmd_offset)\<close>: the fields that are
  not reached keep their value.
\<close>

definition sscanf_seekto :: "byte list \<Rightarrow> aesd_seekto \<Rightarrow> aesd_seekto" where
  "sscanf_seekto s q =
     (let lit = AESDCHAR_IOCSEEKTO_CMD_STR @ [58] in
      if take (length lit) s \<noteq> lit then q
      else case scan_unsigned (drop (length lit) s) of
          None \<Rightarrow> q
        | Some (c, s1) \<Rightarrow>
            let q1 = q\<lparr>write_cmd := c\<rparr> in
            if s1 = [] \<or> hd s1 \<noteq> 44 then q1
            else case scan_unsigned (tl s1) of
                None \<Rightarrow> q1
              | Some (off, _) \<Rightarrow> q1\<lparr>write_cmd_offset := off\<rparr>)"

section \<open>Streams on the device\<close>

record stream =
  fil :: kfile
  rbuf :: "byte list"
  wbuf :: "byte list"

text \<open>
  How \<open>stdio\<close> cuts its buffers: \<open>write_split\<close> gives the pieces passed to \<open>write\<close>, \<open>read_size\<close>
  the size asked for by each \<open>read\<close>.
\<close>

record stdio_conf =
  write_split :: "byte list \<Rightarrow> byte list list"
  read_size :: size_t

definition stdio_conf_ok :: "stdio_conf \<Rightarrow> bool" where
  "stdio_conf_ok C \<longleftrightarrow> (\<forall>bs. concat (write_split C bs) = bs) \<and> 0 < read_size C"

text \<open>\<open>fopen\<close> of the device: a new file at position 0 with empty buffers.\<close>

definition open_stream :: stream where
  "open_stream = \<lparr>fil = snd (aesd_open \<lparr>i_cdev = aesd_device\<rparr> \<lparr>private_data = no_device, f_pos = 0\<rparr>),
     rbuf = [], wbuf = []\<rparr>"

text \<open>Pass the pieces to the driver; a negative result drops the rest and reports failure.\<close>

fun write_pieces :: "kernel \<Rightarrow> driver \<Rightarrow> kfile \<Rightarrow> byte list list \<Rightarrow> fault + driver \<times> bool" where
  "write_pieces K d filp [] = Inr (d, True)"
| "write_pieces K d filp (c # cs) =
     (case aesd_write K d filp c (of_nat (length c)) of
        Inl e \<Rightarrow> Inl e
      | Inr (d', r) \<Rightarrow> if sint r < 0 then Inr (d', False) else write_pieces K d' filp cs)"

definition flush :: "stdio_conf \<Rightarrow> kernel \<Rightarrow> driver \<Rightarrow> stream \<Rightarrow> fault + driver \<times> stream \<times> bool" where
  "flush C K d st =
     (if wbuf st = [] then Inr (d, st, True)
      else case write_pieces K d (fil st) (write_split C (wbuf st)) of
          Inl e \<Rightarrow> Inl e
        | Inr (d', ok) \<Rightarrow> Inr (d', st\<lparr>wbuf := []\<rparr>, ok))"

text \<open>
  Read on until there is a line or the end. \<open>None\<close> as the line is the \<open>- 1\<close> of \<open>getline\<close>.
\<close>

partial_function (option) read_line ::
    "stdio_conf \<Rightarrow> kernel \<Rightarrow> driver \<Rightarrow> stream \<Rightarrow> (fault + driver \<times> stream \<times> byte list option) option" where
  "read_line C K d st =
     (if newline \<in> set (rbuf st) then
        let line = takeWhile (\<lambda>c. c \<noteq> newline) (rbuf st) @ [newline]
        in Some (Inr (d, st\<lparr>rbuf := drop (length line) (rbuf st)\<rparr>, Some line))
      else case aesd_read K d (fil st) (read_size C) of
          Inl e \<Rightarrow> Some (Inl e)
        | Inr (d', filp', bs, r) \<Rightarrow>
            if sint r \<le> 0 then
              Some (Inr (d', st\<lparr>fil := filp', rbuf := []\<rparr>, if rbuf st = [] then None else Some (rbuf st)))
            else read_line C K d' (st\<lparr>fil := filp', rbuf := rbuf st @ bs\<rparr>))"

declare read_line.simps [code]

definition getline ::
    "stdio_conf \<Rightarrow> kernel \<Rightarrow> driver \<Rightarrow> stream \<Rightarrow> (fault + driver \<times> stream \<times> byte list option) option" where
  "getline C K d st =
     (case flush C K d st of
        Inl e \<Rightarrow> Some (Inl e)
      | Inr (d', st', ok) \<Rightarrow> if ok then read_line C K d' st' else Some (Inr (d', st', None)))"

text \<open>\<open>fclose\<close>: write out what is left; the device's release does nothing more.\<close>

definition close_stream :: "stdio_conf \<Rightarrow> kernel \<Rightarrow> driver \<Rightarrow> stream \<Rightarrow> fault + driver" where
  "close_stream C K d st =
     (case flush C K d st of Inl e \<Rightarrow> Inl e | Inr (d', _, _) \<Rightarrow> Inr d')"

section \<open>Writing and reading back\<close>

lemma write_pieces_ok:
  assumes K: "serving K" and filp: "private_data filp = aesd_device"
  shows "driver_inv d \<Longrightarrow> device_bytes (dev_abs d) + sum_list (map length cs) < 2 ^ 63 \<Longrightarrow>
    \<exists>d'. write_pieces K d filp cs = Inr (d', True) \<and> driver_inv d'
      \<and> dev_abs d' = fold (\<lambda>c s. spec_write s c) cs (dev_abs d)"
proof (induction cs arbitrary: d)
  case Nil
  then show ?case by simp
next
  case (Cons c cs)
  let ?n = "of_nat (length c) :: size_t"
  have len: "unat ?n = length c" using Cons.prems(2) by simp
  have "write_env_ok K d c ?n"
    using K driver_blocks_bound [OF Cons.prems(1)] len by (simp add: write_env_ok_def serving_def roomy_def)
  then obtain d' where d': "aesd_write K d filp c ?n = Inr (d', ?n)" "driver_inv d'"
    "dev_abs d' = spec_write (dev_abs d) c"
    using aesd_write_correct [OF _ Cons.prems(1) filp, of K c ?n] K Cons.prems(2) len
    by (auto simp: serving_def)
  have "device_bytes (dev_abs d') + sum_list (map length cs) < 2 ^ 63"
    using device_bytes_write [of "dev_abs d" c] Cons.prems(2) d'(3) by simp
  from Cons.IH [OF d'(2) this] d' show ?case
    using Cons.prems(2) by (simp add: signed_of_nat signed_take_bit_int_eq_self)
qed

text \<open>What a stream has still to deliver.\<close>

definition to_read :: "driver \<Rightarrow> stream \<Rightarrow> byte list" where
  "to_read d st = rbuf st @ drop (unat (f_pos (fil st))) (contents (dev_abs d))"

definition stream_ok :: "driver \<Rightarrow> stream \<Rightarrow> bool" where
  "stream_ok d st \<longleftrightarrow> driver_inv d \<and> private_data (fil st) = aesd_device \<and> commands (dev_abs d) \<noteq> []
     \<and> unat (f_pos (fil st)) \<le> length (contents (dev_abs d)) \<and> wbuf st = []"

lemma to_read_split:
  "newline \<in> set (rbuf st) \<Longrightarrow> line = takeWhile (\<lambda>c. c \<noteq> newline) (rbuf st) @ [newline] \<Longrightarrow>
    to_read d st = line @ to_read d (st\<lparr>rbuf := drop (length line) (rbuf st)\<rparr>)"
proof -
  assume nl: "newline \<in> set (rbuf st)" and line: "line = takeWhile (\<lambda>c. c \<noteq> newline) (rbuf st) @ [newline]"
  have "dropWhile (\<lambda>c. c \<noteq> newline) (rbuf st) = newline # tl (dropWhile (\<lambda>c. c \<noteq> newline) (rbuf st))"
    using nl hd_dropWhile [of "\<lambda>c. c \<noteq> newline" "rbuf st"]
    by (metis (mono_tags, lifting) dropWhile_eq_Nil_conv list.exhaust_sel)
  then have "rbuf st = line @ tl (dropWhile (\<lambda>c. c \<noteq> newline) (rbuf st))"
    unfolding line by (metis append.assoc append_Cons append_Nil takeWhile_dropWhile_id)
  then have "rbuf st = line @ drop (length line) (rbuf st)"
    by (metis append_eq_conv_conj)
  then show ?thesis by (simp add: to_read_def)
qed

text \<open>\<open>getline\<close> returns a non-empty piece of the rest, or reports the end exactly when there is none.\<close>

lemma read_line_ok:
  assumes C: "stdio_conf_ok C" and K: "serving K"
  shows "stream_ok d st \<Longrightarrow>
    (to_read d st = [] \<and> (\<exists>st'. read_line C K d st = Some (Inr (d, st', None)) \<and> stream_ok d st'))
    \<or> (\<exists>st' line. read_line C K d st = Some (Inr (d, st', Some line)) \<and> stream_ok d st'
        \<and> line \<noteq> [] \<and> to_read d st = line @ to_read d st')"
proof (induction "length (contents (dev_abs d)) - unat (f_pos (fil st))" arbitrary: st rule: less_induct)
  case less
  note ok = less.prems [unfolded stream_ok_def]
  show ?case
  proof (cases "newline \<in> set (rbuf st)")
    case True
    then show ?thesis
      using to_read_split [OF True refl, of d] less.prems
      by (subst (1 2) read_line.simps) (auto simp: Let_def stream_ok_def)
  next
    case False
    let ?pos = "f_pos (fil st)" and ?s = "dev_abs d"
    let ?bs = "spec_read ?s (unat ?pos) (unat (read_size C))"
    have read: "aesd_read K d (fil st) (read_size C)
        = Inr (d, (fil st)\<lparr>f_pos := ?pos + of_nat (length ?bs)\<rparr>, ?bs, of_nat (length ?bs))"
      using aesd_read_correct [of d "fil st" K "read_size C"] ok K by (simp add: serving_def Let_def)
    have small: "length (contents ?s) < 2 ^ 63"
      using driver_invD(5) [of d] ok by (simp add: device_bytes_def)
    obtain rest where rest: "drop (unat ?pos) (contents ?s) = ?bs @ rest"
      using spec_read_prefix by blast
    then have "length (contents ?s) - unat ?pos = length ?bs + length rest"
      by (metis length_append length_drop)
    then have le: "unat ?pos + length ?bs \<le> length (contents ?s)"
      using ok by linarith
    have pos: "unat (?pos + of_nat (length ?bs)) = unat ?pos + length ?bs"
      using le small by (subst unat_add_no_wrap) simp_all
    have sgn: "sint (of_nat (length ?bs) :: size_t) = int (length ?bs)"
      using le small by (simp add: signed_of_nat signed_take_bit_int_eq_self)
    let ?st = "st\<lparr>fil := (fil st)\<lparr>f_pos := ?pos + of_nat (length ?bs)\<rparr>, rbuf := rbuf st @ ?bs\<rparr>"
    show ?thesis
    proof (cases "?bs = []")
      case True
      then have "\<not> unat ?pos < length (contents ?s)"
        using spec_read_progress [of "unat ?pos" ?s "unat (read_size C)"] C
        by (auto simp: stdio_conf_ok_def unat_gt_0 dest: word_gt_0 [THEN iffD1])
      then have "drop (unat ?pos) (contents ?s) = []" by simp
      with False True read ok show ?thesis
        by (subst (1 2) read_line.simps) (auto simp: to_read_def stream_ok_def)
    next
      case nonempty: False
      have "stream_ok d ?st" using ok le pos by (simp add: stream_ok_def)
      moreover have "drop (unat ?pos + length ?bs) (contents ?s) = rest"
        using arg_cong [OF rest, of "drop (length ?bs)"] by (simp add: add.commute)
      then have "to_read d ?st = to_read d st" by (simp add: to_read_def pos rest)
      moreover have "read_line C K d st = read_line C K d ?st"
        using False nonempty read sgn by (subst read_line.simps) simp
      moreover have "length (contents ?s) - unat (f_pos (fil ?st)) < length (contents ?s) - unat ?pos"
      proof -
        have "0 < length ?bs" using nonempty by simp
        moreover have "unat (f_pos (fil ?st)) = unat ?pos + length ?bs" by (simp add: pos)
        ultimately show ?thesis using le by linarith
      qed
      ultimately show ?thesis using less.hyps [of ?st] by simp
    qed
  qed
qed

end
