(* ===== verification/Socket_Service.thy ===== *)
theory Socket_Service
  imports C_Library
begin

text \<open>
  The service thread of \<^verbatim>\<open>server/aesdsocket.c\<close>, as built with \<open>USE_AESD_CHAR_DEVICE\<close>: it
  collects what a client sends, and on a newline passes it to the device (or sends the
  device a seek command) and writes the device's contents back to the client. The device
  is the driver model. A thread is modelled from one \<open>recv\<close> to the next; the mutex lets only
  one thread use the device between opening and closing it.
\<close>

section \<open>The environment\<close>

text \<open>
  \<open>send sent bs\<close>: the result of \<open>send\<close> for the bytes \<open>bs\<close> on a connection that has accepted
  \<open>sent\<close> bytes before.
\<close>

record service_env =
  kern :: kernel
  conf :: stdio_conf
  send :: "nat \<Rightarrow> byte list \<Rightarrow> loff_t"

text \<open>The documented result: \<open>- 1\<close>, or the number of bytes taken, at least one.\<close>

definition send_ok :: "(nat \<Rightarrow> byte list \<Rightarrow> loff_t) \<Rightarrow> bool" where
  "send_ok f \<longleftrightarrow> (\<forall>n bs. bs \<noteq> [] \<longrightarrow> f n bs = - 1 \<or> 0 < unat (f n bs) \<and> unat (f n bs) \<le> length bs)"

text \<open>
  The answers of the library during one round: whether locking the mutex, \<open>realloc\<close> and \<open>fopen\<close>
  succeed, what the new bytes of the block and the uninitialised \<open>seekto\<close> hold.
\<close>

record answers =
  lock_ok :: bool
  realloc_ok :: bool
  realloc_junk :: "nat \<Rightarrow> byte"
  fopen_ok :: bool
  seekto_junk :: aesd_seekto

text \<open>What \<open>recv\<close> returns: up to \<open>RECV_BUF_LEN - 1\<close> bytes, 0 for a closed connection, or \<open>- 1\<close>.\<close>

datatype recv_result = Received "byte list" answers | Closed | Failed

abbreviation RECV_BUF_LEN :: nat where
  "RECV_BUF_LEN \<equiv> 100"

section \<open>writeback\<close>

text \<open>
  The inner loop: send the line until all of it is taken. \<open>ssize_t\<close> is narrowed to \<open>int\<close>.
  The result is \<open>False\<close> when \<open>send\<close> failed, with the bytes the client has got.
\<close>

partial_function (option) send_loop ::
    "(nat \<Rightarrow> byte list \<Rightarrow> loff_t) \<Rightarrow> byte list \<Rightarrow> c_int \<Rightarrow> byte list \<Rightarrow> (bool \<times> byte list) option" where
  "send_loop f line total_bytes_written sent =
     (if sint total_bytes_written < int (length line) then
        let rest = drop (nat (sint total_bytes_written)) line;
            bytes_written = (ucast (f (length sent) rest) :: c_int)
        in if bytes_written = - 1 then Some (False, sent)
           else send_loop f line (total_bytes_written + bytes_written)
                  (sent @ take (nat (sint bytes_written)) rest)
      else Some (True, sent))"

declare send_loop.simps [code]

partial_function (option) writeback ::
    "service_env \<Rightarrow> driver \<Rightarrow> stream \<Rightarrow> byte list \<Rightarrow> (fault + driver \<times> stream \<times> byte list \<times> bool) option" where
  "writeback E d st sent =
     (case getline (conf E) (kern E) d st of
        None \<Rightarrow> None
      | Some (Inl e) \<Rightarrow> Some (Inl e)
      | Some (Inr (d', st', None)) \<Rightarrow> Some (Inr (d', st', sent, True))
      | Some (Inr (d', st', Some line)) \<Rightarrow>
          (case send_loop (send E) line 0 sent of
             None \<Rightarrow> None
           | Some (ok, sent') \<Rightarrow>
               if ok then writeback E d' st' sent' else Some (Inr (d', st', sent', False))))"

declare writeback.simps [code]

section \<open>service_thread\<close>

text \<open>The locals that live across rounds, and what the client has received.\<close>

record conn =
  p_malloc_buf :: "byte list option"
  malloc_buf_size :: c_int
  byte_string_len :: c_int
  sent_back :: "byte list"

definition new_conn :: conn where
  "new_conn = \<lparr>p_malloc_buf = None, malloc_buf_size = 0, byte_string_len = 0, sent_back = []\<rparr>"

text \<open>
  What \<open>recv\<close> put into \<open>p_buffer\<close> is appended to the text received so far. The result tells
  whether the new part contains a newline; \<open>None\<close> when \<open>realloc\<close> failed.
\<close>

definition receive_text :: "answers \<Rightarrow> byte list \<Rightarrow> conn \<Rightarrow> fault + conn \<times> bool option" where
  "receive_text a bytes c =
     (if RECV_BUF_LEN \<le> length bytes then Inl OutOfBounds
      else
        let p_buffer = bytes @ [0];
            b_contains_newline = strchr_newline p_buffer;
            b_is_first_malloc = (malloc_buf_size c = 0);
            c1 = c\<lparr>byte_string_len := byte_string_len c + of_nat (length bytes),
                   malloc_buf_size := malloc_buf_size c + of_nat (length bytes + 1)\<rparr>
        in if \<not> realloc_ok a then Inr (c1, None)
           else
             let old = (case p_malloc_buf c of None \<Rightarrow> [] | Some b \<Rightarrow> b);
                 blk = resize old (unat (scast (malloc_buf_size c1) :: size_t)) (realloc_junk a)
             in case (if b_is_first_malloc then strcpy blk p_buffer else strcat blk p_buffer) of
                  Inl e \<Rightarrow> Inl e
                | Inr blk' \<Rightarrow> Inr (c1\<lparr>p_malloc_buf := Some blk'\<rparr>, Some b_contains_newline))"

text \<open>
  On the opened stream: the text is printed into the buffer of the stream, or, when it names
  the command, a seek command is sent to the device.
\<close>

definition store_request :: "service_env \<Rightarrow> answers \<Rightarrow> driver \<Rightarrow> byte list \<Rightarrow> fault + driver \<times> stream" where
  "store_request E a d s =
     (if \<not> strstr s AESDCHAR_IOCSEEKTO_CMD_STR then Inr (d, open_stream\<lparr>wbuf := s\<rparr>)
      else
        let seekto = sscanf_seekto s (seekto_junk a) in
        case aesd_ioctl (kern E) d (fil open_stream) AESDCHAR_IOCSEEKTO (bytes_of_seekto seekto) of
          Inl e \<Rightarrow> Inl e
        | Inr (d', filp', result) \<Rightarrow> Inr (d', open_stream\<lparr>fil := filp'\<rparr>))"

text \<open>
  From \<open>open_socket_data_file\<close> to \<open>fclose\<close>. A stream that could not be opened is a null pointer
  which the code goes on to use.
\<close>

definition serve_line ::
    "service_env \<Rightarrow> answers \<Rightarrow> driver \<Rightarrow> conn \<Rightarrow> byte list \<Rightarrow> (fault + driver \<times> conn) option" where
  "serve_line E a d c blk =
     (if \<not> fopen_ok a then Some (Inl NullDeref)
      else
        case store_request E a d (c_string blk) of
          Inl e \<Rightarrow> Some (Inl e)
        | Inr (d1, st) \<Rightarrow>
            (case writeback E d1 st (sent_back c) of
               None \<Rightarrow> None
             | Some (Inl e) \<Rightarrow> Some (Inl e)
             | Some (Inr (d2, st2, sent', ok)) \<Rightarrow>
                 (case close_stream (conf E) (kern E) d2 st2 of
                    Inl e \<Rightarrow> Some (Inl e)
                  | Inr d3 \<Rightarrow> Some (Inr (d3, c\<lparr>sent_back := sent'\<rparr>)))))"

text \<open>
  One round after \<open>recv\<close> returned \<open>bytes\<close>, with a function \<open>serve\<close> for the part between the mutex
  calls; the flag tells whether the loop goes on.
\<close>

definition serve_received :: "(answers \<Rightarrow> 'd \<Rightarrow> conn \<Rightarrow> byte list \<Rightarrow> (fault + 'd \<times> conn) option) \<Rightarrow>
    answers \<Rightarrow> byte list \<Rightarrow> 'd \<Rightarrow> conn \<Rightarrow> (fault + 'd \<times> conn \<times> bool) option" where
  "serve_received serve a bytes d c =
     (case receive_text a bytes c of
        Inl e \<Rightarrow> Some (Inl e)
      | Inr (c1, None) \<Rightarrow> Some (Inr (d, c1, False))
      | Inr (c1, Some b_contains_newline) \<Rightarrow>
          if b_contains_newline then
            (case p_malloc_buf c1 of
               None \<Rightarrow> Some (Inl NullDeref)
             | Some blk \<Rightarrow>
                 (case serve a d c1 blk of
                    None \<Rightarrow> None
                  | Some (Inl e) \<Rightarrow> Some (Inl e)
                  | Some (Inr (d', c')) \<Rightarrow> Some (Inr (d', c', True))))
          else Some (Inr (d, c1, True)))"

definition service_round ::
    "service_env \<Rightarrow> answers \<Rightarrow> byte list \<Rightarrow> driver \<Rightarrow> conn \<Rightarrow> (fault + driver \<times> conn \<times> bool) option" where
  "service_round E = serve_received (serve_line E)"

lemmas round_defs = service_round_def serve_received_def

text \<open>
  The loop over the results of \<open>recv\<close>. The flag is \<open>b_is_thread_complete\<close>; it is still false
  when the thread waits in \<open>recv\<close> after the last one listed. \<open>free\<close> ends the block.
\<close>

fun service_loop ::
    "service_env \<Rightarrow> recv_result list \<Rightarrow> driver \<Rightarrow> conn \<Rightarrow> (fault + driver \<times> conn \<times> bool) option" where
  "service_loop E [] d c = Some (Inr (d, c, False))"
| "service_loop E (Closed # rs) d c = Some (Inr (d, c\<lparr>p_malloc_buf := None\<rparr>, True))"
| "service_loop E (Failed # rs) d c = Some (Inr (d, c\<lparr>p_malloc_buf := None\<rparr>, True))"
| "service_loop E (Received bytes a # rs) d c =
     (case service_round E a bytes d c of
        None \<Rightarrow> None
      | Some (Inl e) \<Rightarrow> Some (Inl e)
      | Some (Inr (d', c', go_on)) \<Rightarrow>
          if go_on then service_loop E rs d' c' else Some (Inr (d', c'\<lparr>p_malloc_buf := None\<rparr>, True)))"

definition service_thread ::
    "service_env \<Rightarrow> bool \<Rightarrow> recv_result list \<Rightarrow> driver \<Rightarrow> (fault + driver \<times> conn \<times> bool) option" where
  "service_thread E ntop_ok rs d =
     (if ntop_ok then service_loop E rs d new_conn else Some (Inr (d, new_conn, True)))"

section \<open>Sending\<close>

text \<open>A connection that takes something of everything it is offered.\<close>

definition send_serves :: "(nat \<Rightarrow> byte list \<Rightarrow> loff_t) \<Rightarrow> bool" where
  "send_serves f \<longleftrightarrow> (\<forall>n bs. bs \<noteq> [] \<longrightarrow> 0 < unat (f n bs) \<and> unat (f n bs) \<le> length bs)"

lemma narrow_small:
  assumes "unat (w :: loff_t) < 2 ^ 31"
  shows "sint (ucast w :: c_int) = int (unat w)"
proof -
  have "(ucast w :: c_int) = of_nat (unat w)" by simp
  with sint_of_nat_32 [OF assms] show ?thesis by (simp only:)
qed

text \<open>However \<open>send\<close> splits it, the whole line arrives, once and in order.\<close>

lemma send_loop_all:
  assumes f: "send_serves f" and len: "length line < 2 ^ 31"
  shows "k \<le> length line \<Longrightarrow> send_loop f line (of_nat k) sent = Some (True, sent @ drop k line)"
proof (induction "length line - k" arbitrary: k sent rule: less_induct)
  case less
  have k: "sint (of_nat k :: c_int) = int k"
    using less.prems len by (intro sint_of_nat_32) simp
  show ?case
  proof (cases "k < length line")
    case False
    with k less.prems have "\<not> sint (of_nat k :: c_int) < int (length line)" by simp
    with False less.prems show ?thesis by (subst send_loop.simps) simp
  next
    case True
    let ?rest = "drop k line"
    let ?n = "unat (f (length sent) ?rest)"
    have "?rest \<noteq> []" using True by simp
    then have n: "0 < ?n" "?n \<le> length ?rest" using f unfolding send_serves_def by blast+
    then have "?n < 2 ^ 31" using len by simp
    note bw = narrow_small [OF this]
    then have "ucast (f (length sent) ?rest) \<noteq> (- 1 :: c_int)"
      using n(1) by (metis less_int_code(1) of_nat_0_less_iff of_nat_less_0_iff signed_minus_1 neg_0_less_iff_less not_less_iff_gr_or_eq zero_less_one)
    moreover have "(of_nat k + ucast (f (length sent) ?rest) :: c_int) = of_nat (k + ?n)"
      by simp
    moreover have "send_loop f line (of_nat (k + ?n)) (sent @ take ?n ?rest)
        = Some (True, (sent @ take ?n ?rest) @ drop (k + ?n) line)"
      using n True by (intro less.hyps) auto
    moreover have "take ?n ?rest @ drop (k + ?n) line = ?rest"
      by (metis add.commute append_take_drop_id drop_drop)
    ultimately show ?thesis
      using True by (subst send_loop.simps) (simp add: k bw Let_def)
  qed
qed

lemma getline_ready: "wbuf st = [] \<Longrightarrow> getline C K d st = read_line C K d st"
  by (simp add: getline_def flush_def)

lemma writeback_ready:
  assumes C: "stdio_conf_ok (conf E)" and K: "serving (kern E)" and f: "send_serves (send E)"
  shows "stream_ok d st \<Longrightarrow> length (to_read d st) < 2 ^ 31 \<Longrightarrow>
    \<exists>st'. writeback E d st sent = Some (Inr (d, st', sent @ to_read d st, True)) \<and> wbuf st' = []"
proof (induction "length (to_read d st)" arbitrary: st sent rule: less_induct)
  case less
  have gl: "getline (conf E) (kern E) d st = read_line (conf E) (kern E) d st"
    using less.prems by (intro getline_ready) (simp add: stream_ok_def)
  from read_line_ok [OF C K less.prems(1)] show ?case
  proof (elim disjE exE conjE)
    fix st' assume "to_read d st = []" "read_line (conf E) (kern E) d st = Some (Inr (d, st', None))" "stream_ok d st'"
    then show ?case by (subst writeback.simps) (simp add: gl stream_ok_def)
  next
    fix st' line
    assume rl: "read_line (conf E) (kern E) d st = Some (Inr (d, st', Some line))" "stream_ok d st'"
      and line: "line \<noteq> []" "to_read d st = line @ to_read d st'"
    have "length (to_read d st') < length (to_read d st)" "length (to_read d st') < 2 ^ 31"
      using line less.prems(2) by (simp_all add: line(2) line(1))
    from less.hyps [OF this(1) rl(2) this(2), of "sent @ line"] obtain st'' where
      "writeback E d st' (sent @ line) = Some (Inr (d, st'', (sent @ line) @ to_read d st', True))" "wbuf st'' = []"
      by blast
    moreover have "send_loop (send E) line 0 sent = Some (True, sent @ line)"
      using send_loop_all [OF f, of line 0 sent] line(2) less.prems(2) by simp
    ultimately show ?case
      using line by (subst writeback.simps) (simp add: gl rl)
  qed
qed

end
