(* ===== verification/Socket_Proofs.thy ===== *)
theory Socket_Proofs
  imports Socket_Service
begin

text \<open>
  The service thread against its specification \<open>spec_service\<close>: the memory safety of the
  string handling, what is written to the device, and what is sent back.
\<close>

section \<open>A send that may fail\<close>

lemma send_loop_prefix:
  assumes f: "send_ok f" and len: "length line < 2 ^ 31"
  shows "k \<le> length line \<Longrightarrow> \<exists>n ok. send_loop f line (of_nat k) sent = Some (ok, sent @ take n (drop k line))
    \<and> n \<le> length line - k \<and> (ok \<longleftrightarrow> n = length line - k)"
proof (induction "length line - k" arbitrary: k sent rule: less_induct)
  case less
  have k: "sint (of_nat k :: c_int) = int k"
    using less.prems len by (intro sint_of_nat_32) simp
  show ?case
  proof (cases "k < length line")
    case False
    with k less.prems have "\<not> sint (of_nat k :: c_int) < int (length line)" by simp
    then have "send_loop f line (of_nat k) sent = Some (True, sent)"
      by (subst send_loop.simps) simp
    with False less.prems show ?thesis by (intro exI [of _ 0] exI [of _ True]) simp
  next
    case True
    let ?rest = "drop k line"
    let ?r = "f (length sent) ?rest"
    have "?rest \<noteq> []" using True by simp
    from f [unfolded send_ok_def, rule_format, OF this, of "length sent"]
    consider (fail) "?r = - 1" | (some) "0 < unat ?r" "unat ?r \<le> length ?rest"
      by (elim disjE conjE)
    then show ?thesis
    proof cases
      case fail
      then have "send_loop f line (of_nat k) sent = Some (False, sent)"
        using True by (subst send_loop.simps) (simp add: k Let_def)
      with True show ?thesis by (intro exI [of _ 0] exI [of _ False]) simp
    next
      case some
      then have "unat ?r < 2 ^ 31" using len by simp
      note bw = narrow_small [OF this]
      have ne: "(ucast ?r :: c_int) \<noteq> - 1"
      proof
        assume "(ucast ?r :: c_int) = - 1"
        then have "int (unat ?r) = - 1" using bw by (simp only: sint_n1)
        then show False by linarith
      qed
      have "(of_nat k + ucast ?r :: c_int) = of_nat (k + unat ?r)" by simp
      with ne have step: "send_loop f line (of_nat k) sent = send_loop f line (of_nat (k + unat ?r)) (sent @ take (unat ?r) ?rest)"
        using True by (subst send_loop.simps) (simp add: k bw Let_def)
      have "length line - (k + unat ?r) < length line - k" and "k + unat ?r \<le> length line"
        using some True by auto
      from less.hyps [OF this, of "sent @ take (unat ?r) ?rest"]
      obtain n ok where n: "send_loop f line (of_nat (k + unat ?r)) (sent @ take (unat ?r) ?rest)
          = Some (ok, (sent @ take (unat ?r) ?rest) @ take n (drop (k + unat ?r) line))"
        "n \<le> length line - (k + unat ?r)" "ok \<longleftrightarrow> n = length line - (k + unat ?r)"
        by (elim exE conjE)
      have "take (unat ?r) ?rest @ take n (drop (k + unat ?r) line) = take (unat ?r + n) ?rest"
        by (rule take_drop_take)
      then show ?thesis
        using step n some by (intro exI [of _ "unat ?r + n"] exI [of _ ok]) auto
    qed
  qed
qed

lemma writeback_prefix:
  assumes C: "stdio_conf_ok (conf E)" and K: "serving (kern E)" and f: "send_ok (send E)"
  shows "stream_ok d st \<Longrightarrow> length (to_read d st) < 2 ^ 31 \<Longrightarrow>
    \<exists>st' n ok. writeback E d st sent = Some (Inr (d, st', sent @ take n (to_read d st), ok)) \<and> wbuf st' = []
      \<and> n \<le> length (to_read d st) \<and> (ok \<longleftrightarrow> n = length (to_read d st))"
proof (induction "length (to_read d st)" arbitrary: st sent rule: less_induct)
  case less
  have gl: "getline (conf E) (kern E) d st = read_line (conf E) (kern E) d st"
    using less.prems by (intro getline_ready) (simp add: stream_ok_def)
  from read_line_ok [OF C K less.prems(1)] show ?case
  proof (elim disjE exE conjE)
    fix st' assume "to_read d st = []" "read_line (conf E) (kern E) d st = Some (Inr (d, st', None))" "stream_ok d st'"
    then show ?case by (subst writeback.simps) (simp add: gl stream_ok_def)
  next
    fix st' line
    assume rl: "read_line (conf E) (kern E) d st = Some (Inr (d, st', Some line))" "stream_ok d st'"
      and line: "line \<noteq> []" "to_read d st = line @ to_read d st'"
    obtain n ok where sl: "send_loop (send E) line 0 sent = Some (ok, sent @ take n line)"
      and n: "n \<le> length line" "ok \<longleftrightarrow> n = length line"
      using send_loop_prefix [OF f, of line 0 sent] line(2) less.prems(2) by auto
    show ?case
    proof (cases ok)
      case False
      then have "writeback E d st sent = Some (Inr (d, st', sent @ take n line, False))"
        using sl by (subst writeback.simps) (simp add: gl rl)
      with False n rl(2) line(2) show ?thesis
        by (intro exI [of _ st'] exI [of _ n] exI [of _ False]) (auto simp: stream_ok_def)
    next
      case True
      have "length (to_read d st') < length (to_read d st)" "length (to_read d st') < 2 ^ 31"
        using line less.prems(2) by (simp_all add: line(2) line(1))
      from less.hyps [OF this(1) rl(2) this(2), of "sent @ line"] obtain st'' m ok' where
        "writeback E d st' (sent @ line) = Some (Inr (d, st'', (sent @ line) @ take m (to_read d st'), ok'))"
        "wbuf st'' = []" "m \<le> length (to_read d st')" "ok' \<longleftrightarrow> m = length (to_read d st')"
        by blast
      with True n sl line show ?thesis
        by (intro exI [of _ st''] exI [of _ "length line + m"] exI [of _ ok'])
          (subst writeback.simps, simp add: gl rl)
    qed
  qed
qed

section \<open>A stream just opened for writing\<close>

lemma fold_write_commands:
  "commands s \<noteq> [] \<or> newline \<in> set (partial s @ concat cs) \<and> newline \<notin> set (partial s) \<Longrightarrow>
    commands (fold (\<lambda>c s. spec_write s c) cs s) \<noteq> []"
proof (induction cs arbitrary: s)
  case Nil
  then show ?case by auto
next
  case (Cons c cs)
  have "keep_last 10 (commands s @ [p]) \<noteq> []" for p
    by (simp add: keep_last_def)
  with Cons.prems show ?case
    by (simp only: fold_Cons comp_apply, intro Cons.IH) (auto simp: spec_write_def Let_def)
qed

lemma open_stream_sel [simp]:
  "private_data (fil open_stream) = aesd_device" "f_pos (fil open_stream) = 0"
  "rbuf open_stream = []" "wbuf open_stream = []"
  by (simp_all add: open_stream_def aesd_open_def)

text \<open>
  Writing the text and reading everything back: the pieces reach the device as writes, and
  the client gets the new contents.
\<close>

lemma writeback_after_write:
  assumes C: "stdio_conf_ok (conf E)" and K: "serving (kern E)" and f: "send_serves (send E)"
    and inv: "driver_inv d" and room: "device_bytes (dev_abs d) + length s < 2 ^ 31" and nl: "newline \<in> set s"
  shows "\<exists>d' st'. writeback E d (open_stream\<lparr>wbuf := s\<rparr>) sent
      = Some (Inr (d', st', sent @ contents (dev_abs d'), True)) \<and> wbuf st' = [] \<and> driver_inv d'
    \<and> dev_abs d' = fold (\<lambda>c s. spec_write s c) (write_split (conf E) s) (dev_abs d)"
proof -
  let ?cs = "write_split (conf E) s" and ?st = "open_stream\<lparr>wbuf := s\<rparr>"
  have cs: "concat ?cs = s" using C by (simp add: stdio_conf_ok_def)
  have "sum_list (map length ?cs) = length s" by (metis cs length_concat)
  then obtain d' where w: "write_pieces (kern E) d (fil open_stream) ?cs = Inr (d', True)" and inv': "driver_inv d'"
    and abs: "dev_abs d' = fold (\<lambda>c s. spec_write s c) ?cs (dev_abs d)"
    using write_pieces_ok [OF K _ inv, of "fil open_stream" ?cs] room by auto
  have "newline \<notin> set (partial (dev_abs d))"
    using heap_okD(6) [OF driver_invD(4) [OF inv]] by (simp add: dev_abs_def)
  then have some: "commands (dev_abs d') \<noteq> []"
    unfolding abs using nl cs by (intro fold_write_commands) simp
  have "device_bytes (fold (\<lambda>c s. spec_write s c) cs s) \<le> device_bytes s + sum_list (map length cs)" for cs s
  proof (induction cs arbitrary: s)
    case (Cons c cs)
    from this [of "spec_write s c"] device_bytes_write [of s c] show ?case by simp
  qed simp
  from this [of ?cs "dev_abs d"] have small: "length (contents (dev_abs d')) < 2 ^ 31"
    using room \<open>sum_list (map length ?cs) = length s\<close> by (simp add: abs device_bytes_def)
  have ok: "stream_ok d' open_stream" using inv' some by (simp add: stream_ok_def)
  have "to_read d' open_stream = contents (dev_abs d')" by (simp add: to_read_def)
  with writeback_ready [OF C K f ok, of sent] small obtain st' where
    wb: "writeback E d' open_stream sent = Some (Inr (d', st', sent @ contents (dev_abs d'), True))" "wbuf st' = []"
    by auto
  have "s \<noteq> []" using nl by auto
  then have "flush (conf E) (kern E) d ?st = Inr (d', open_stream, True)"
    using w by (simp add: flush_def)
  then have "getline (conf E) (kern E) d ?st = getline (conf E) (kern E) d' open_stream"
    by (simp add: getline_def flush_def)
  then have "writeback E d ?st sent = writeback E d' open_stream sent"
    by (subst (1 2) writeback.simps) simp
  with wb inv' abs show ?thesis by auto
qed

section \<open>The specification of a connection\<close>

text \<open>
  \<open>acc\<close> is everything received so far. On a newline all of it is written, and the new contents
  of the device are sent.
\<close>

fun spec_service ::
    "(byte list \<Rightarrow> byte list list) \<Rightarrow> device \<Rightarrow> byte list \<Rightarrow> byte list list \<Rightarrow> device \<times> byte list" where
  "spec_service split s acc [] = (s, [])"
| "spec_service split s acc (c # cs) =
     (if newline \<in> set c then
        let s' = fold (\<lambda>p s. spec_write s p) (split (acc @ c)) s;
            (s'', out) = spec_service split s' (acc @ c) cs
        in (s'', contents s' @ out)
      else spec_service split s (acc @ c) cs)"

lemma take_prefix_iff: "take (length n) xs = n \<longleftrightarrow> (\<exists>r. xs = n @ r)"
  by (metis append_eq_conv_conj append_take_drop_id)

lemma strstr_iff: "strstr xs n \<longleftrightarrow> (\<exists>p r. xs = p @ n @ r)"
proof (induction xs)
  case Nil
  then show ?case by auto
next
  case (Cons c cs)
  have "(\<exists>p r. c # cs = p @ n @ r) \<longleftrightarrow> (\<exists>r. c # cs = n @ r) \<or> (\<exists>p r. cs = p @ n @ r)"
    by (metis append_Cons append_Nil list.exhaust list.inject)
  then show ?case using Cons by (simp only: strstr.simps take_prefix_iff)
qed

lemma strstr_append: "strstr xs n \<Longrightarrow> strstr (xs @ ys) n"
  unfolding strstr_iff by (metis append.assoc)

section \<open>The received string\<close>

text \<open>The block holds what was received so far, as a string that fits.\<close>

definition conn_ok :: "conn \<Rightarrow> byte list \<Rightarrow> bool" where
  "conn_ok c acc \<longleftrightarrow> 0 \<notin> set acc \<and>
     (case p_malloc_buf c of
        None \<Rightarrow> acc = [] \<and> malloc_buf_size c = 0
      | Some b \<Rightarrow> (\<exists>rest. b = acc @ 0 # rest) \<and> length b = unat (malloc_buf_size c))"

lemma conn_ok_new: "conn_ok new_conn []"
  by (simp add: conn_ok_def new_conn_def)

lemma strchr_newline_iff: "0 \<notin> set bs \<Longrightarrow> strchr_newline (bs @ [0]) \<longleftrightarrow> newline \<in> set bs"
  by (simp add: strchr_newline_def)

lemma unat_scast_32:
  assumes "unat (w :: c_int) < 2 ^ 31"
  shows "unat (scast w :: size_t) = unat w"
proof -
  have "w = of_nat (unat w)" by simp
  then have "unat (scast w :: size_t) = unat (of_nat (unat w) :: size_t)"
    using scast_of_nat_32 [OF assms] by metis
  also have "\<dots> = unat w"
    using assms by (intro unat_of_nat_less) simp
  finally show ?thesis .
qed

text \<open>One round of receiving never writes outside the block.\<close>

lemma collect:
  fixes junk :: "nat \<Rightarrow> byte"
  assumes c: "conn_ok c acc" and b: "0 \<notin> set b"
    and size: "unat (malloc_buf_size c) + length b + 1 < 2 ^ 31"
  defines "mbs \<equiv> malloc_buf_size c + of_nat (length b + 1)"
  defines "old \<equiv> (case p_malloc_buf c of None \<Rightarrow> [] | Some x \<Rightarrow> x)"
  defines "blk \<equiv> resize old (unat (scast mbs :: size_t)) junk"
  obtains rest where "(if malloc_buf_size c = 0 then strcpy blk (b @ [0]) else strcat blk (b @ [0]))
      = Inr ((acc @ b) @ 0 # rest)"
    and "length ((acc @ b) @ 0 # rest) = unat mbs" and "unat mbs = unat (malloc_buf_size c) + length b + 1"
proof -
  have mbs: "unat mbs = unat (malloc_buf_size c) + length b + 1"
    unfolding mbs_def using size by (subst unat_add_no_wrap) (simp_all del: of_nat_Suc of_nat_add add: Suc_eq_plus1 [symmetric])
  then have len: "length blk = unat mbs"
    using size by (simp add: blk_def length_resize unat_scast_32)
  show thesis
  proof (cases "p_malloc_buf c")
    case None
    then have "acc = []" and "malloc_buf_size c = 0" using c by (simp_all add: conn_ok_def)
    moreover obtain rest where "strcpy blk (b @ [0]) = Inr (b @ 0 # rest)" "length (b @ 0 # rest) = length blk"
      using strcpy_ok [OF b, of blk] len mbs by auto
    ultimately show thesis
      using len mbs by (intro that [of rest]) simp_all
  next
    case (Some x)
    then obtain rest where x: "x = acc @ 0 # rest" "length x = unat (malloc_buf_size c)" and acc: "0 \<notin> set acc"
      using c by (auto simp: conn_ok_def)
    then have nz: "malloc_buf_size c \<noteq> 0" by auto
    have "length x \<le> unat (scast mbs :: size_t)"
      using x(2) mbs size by (simp add: unat_scast_32)
    from resize_string [OF x(1) this, of junk] obtain rest' where
      "resize x (unat (scast mbs :: size_t)) junk = acc @ 0 # rest'" by (elim exE)
    then have blk: "blk = acc @ 0 # rest'" by (simp only: blk_def old_def Some option.case)
    have "length acc + length b < length blk"
      using x mbs len by simp
    from strcat_ok [OF blk acc b this] obtain rest'' where
      "strcat blk (b @ [0]) = Inr ((acc @ b) @ 0 # rest'')" "length ((acc @ b) @ 0 # rest'') = length blk"
      by (elim exE conjE)
    with nz len mbs show thesis by (intro that [of rest'']) simp_all
  qed
qed

lemma collected_ok:
  assumes "0 \<notin> set (acc @ b)" and "length ((acc @ b) @ 0 # rest) = unat (malloc_buf_size c)"
  shows "conn_ok (c\<lparr>p_malloc_buf := Some ((acc @ b) @ 0 # rest)\<rparr>) (acc @ b)"
  using assms by (simp add: conn_ok_def)

section \<open>The thread implements its specification\<close>

definition service_env_ok :: "service_env \<Rightarrow> bool" where
  "service_env_ok E \<longleftrightarrow> stdio_conf_ok (conf E) \<and> serving (kern E) \<and> send_serves (send E)"

lemma serve_line_ok:
  assumes E: "service_env_ok E" and a: "fopen_ok a" and inv: "driver_inv d" and s: "c_string blk = s"
    and cmd: "\<not> strstr s AESDCHAR_IOCSEEKTO_CMD_STR"
    and room: "device_bytes (dev_abs d) + length s < 2 ^ 31" and nl: "newline \<in> set s"
  shows "\<exists>d'. serve_line E a d c blk = Some (Inr (d', c\<lparr>sent_back := sent_back c @ contents (dev_abs d')\<rparr>))
    \<and> driver_inv d' \<and> dev_abs d' = fold (\<lambda>p s. spec_write s p) (write_split (conf E) s) (dev_abs d)"
proof -
  obtain d' st' where "writeback E d (open_stream\<lparr>wbuf := s\<rparr>) (sent_back c)
      = Some (Inr (d', st', sent_back c @ contents (dev_abs d'), True))" "wbuf st' = []" "driver_inv d'"
    "dev_abs d' = fold (\<lambda>p s. spec_write s p) (write_split (conf E) s) (dev_abs d)"
    using writeback_after_write [OF _ _ _ inv room nl, of E "sent_back c"] E
    unfolding service_env_ok_def by blast
  with a cmd show ?thesis
    by (simp add: serve_line_def store_request_def s Let_def close_stream_def flush_def)
qed

lemma device_bytes_pieces:
  "device_bytes (fold (\<lambda>p s. spec_write s p) ps s) \<le> device_bytes s + length (concat ps)"
proof (induction ps arbitrary: s)
  case (Cons p ps)
  from this [of "spec_write s p"] device_bytes_write [of s p] show ?case by simp
qed simp

definition round_ok :: "byte list \<times> answers \<Rightarrow> bool" where
  "round_ok r \<longleftrightarrow> 0 \<notin> set (fst r) \<and> length (fst r) < RECV_BUF_LEN \<and> realloc_ok (snd r) \<and> fopen_ok (snd r)"

text \<open>Receiving: the text grows by what was received, in a block that fits.\<close>

lemma receive_text_ok:
  assumes c: "conn_ok c acc" and r: "round_ok (b, a)" and size: "unat (malloc_buf_size c) + length b + 1 < 2 ^ 31"
  shows "\<exists>c' rest. receive_text a b c = Inr (c', Some (newline \<in> set b)) \<and> conn_ok c' (acc @ b)
    \<and> unat (malloc_buf_size c') = unat (malloc_buf_size c) + length b + 1
    \<and> p_malloc_buf c' = Some ((acc @ b) @ 0 # rest) \<and> sent_back c' = sent_back c"
proof -
  have b: "0 \<notin> set b" and acc: "0 \<notin> set acc" using r c by (simp_all add: round_ok_def conn_ok_def)
  let ?c1 = "c\<lparr>byte_string_len := byte_string_len c + of_nat (length b),
    malloc_buf_size := malloc_buf_size c + of_nat (length b + 1)\<rparr>"
  obtain rest where copy: "(if malloc_buf_size c = 0
      then strcpy (resize (case p_malloc_buf c of None \<Rightarrow> [] | Some x \<Rightarrow> x)
          (unat (scast (malloc_buf_size c + of_nat (length b + 1)) :: size_t)) (realloc_junk a)) (b @ [0])
      else strcat (resize (case p_malloc_buf c of None \<Rightarrow> [] | Some x \<Rightarrow> x)
          (unat (scast (malloc_buf_size c + of_nat (length b + 1)) :: size_t)) (realloc_junk a)) (b @ [0]))
      = Inr ((acc @ b) @ 0 # rest)"
    and len1: "length ((acc @ b) @ 0 # rest) = unat (malloc_buf_size c + of_nat (length b + 1))"
    and mbs1: "unat (malloc_buf_size c + of_nat (length b + 1)) = unat (malloc_buf_size c) + length b + 1"
    by (rule collect [OF c b size, of "realloc_junk a"])
  have sel: "malloc_buf_size ?c1 = malloc_buf_size c + of_nat (length b + 1)" "p_malloc_buf ?c1 = p_malloc_buf c"
    by simp_all
  have len: "length ((acc @ b) @ 0 # rest) = unat (malloc_buf_size ?c1)"
    and mbs: "unat (malloc_buf_size ?c1) = unat (malloc_buf_size c) + length b + 1"
    unfolding sel(1) by (rule len1, rule mbs1)
  let ?c2 = "?c1\<lparr>p_malloc_buf := Some ((acc @ b) @ 0 # rest)\<rparr>"
  have "conn_ok ?c2 (acc @ b)" using collected_ok [OF _ len] b acc by simp
  moreover have "receive_text a b c = Inr (?c2, Some (newline \<in> set b))"
    using r unfolding receive_text_def Let_def strchr_newline_iff [OF b] sel copy
    by (simp only: round_ok_def fst_conv snd_conv not_less [symmetric] if_True if_False not_True_eq_False not_False_eq_True sum.case simp_thms)
  moreover have "p_malloc_buf ?c2 = Some ((acc @ b) @ 0 # rest)" "sent_back ?c2 = sent_back c"
    "unat (malloc_buf_size ?c2) = unat (malloc_buf_size c) + length b + 1"
    using mbs by simp_all
  ultimately show ?thesis by blast
qed

text \<open>One round, with or without a newline.\<close>

lemma service_round_ok:
  assumes E: "service_env_ok E" and inv: "driver_inv d" and c: "conn_ok c acc" and r: "round_ok (b, a)"
    and cmd: "\<not> strstr (acc @ b) AESDCHAR_IOCSEEKTO_CMD_STR"
    and size: "unat (malloc_buf_size c) + length b + 1 < 2 ^ 31"
    and room: "device_bytes (dev_abs d) + length (acc @ b) < 2 ^ 31"
  shows "\<exists>d' c'. service_round E a b d c = Some (Inr (d', c', True)) \<and> driver_inv d' \<and> conn_ok c' (acc @ b)
    \<and> unat (malloc_buf_size c') = unat (malloc_buf_size c) + length b + 1
    \<and> (if newline \<in> set b
       then dev_abs d' = fold (\<lambda>p s. spec_write s p) (write_split (conf E) (acc @ b)) (dev_abs d)
         \<and> sent_back c' = sent_back c @ contents (dev_abs d')
       else dev_abs d' = dev_abs d \<and> sent_back c' = sent_back c)"
proof -
  obtain c2 rest where received: "receive_text a b c = Inr (c2, Some (newline \<in> set b))" and ok2: "conn_ok c2 (acc @ b)"
    and mbs: "unat (malloc_buf_size c2) = unat (malloc_buf_size c) + length b + 1"
    and buf: "p_malloc_buf c2 = Some ((acc @ b) @ 0 # rest)" and sent: "sent_back c2 = sent_back c"
    using receive_text_ok [OF c r size] by (elim exE conjE)
  show ?thesis
  proof (cases "newline \<in> set b")
    case False
    with received inv ok2 mbs sent show ?thesis by (simp add: round_defs)
  next
    case True
    have "0 \<notin> set (acc @ b)" using ok2 by (simp add: conn_ok_def)
    then have str: "c_string ((acc @ b) @ 0 # rest) = acc @ b" by (rule c_string_zero)
    have "fopen_ok a" and "newline \<in> set (acc @ b)" using r True by (simp_all add: round_ok_def)
    from serve_line_ok [OF E this(1) inv str cmd room this(2), of c2]
    obtain d' where "serve_line E a d c2 ((acc @ b) @ 0 # rest)
        = Some (Inr (d', c2\<lparr>sent_back := sent_back c2 @ contents (dev_abs d')\<rparr>))" "driver_inv d'"
      "dev_abs d' = fold (\<lambda>p s. spec_write s p) (write_split (conf E) (acc @ b)) (dev_abs d)"
      by (elim exE conjE)
    with True received buf ok2 mbs sent show ?thesis by (simp add: conn_ok_def round_defs)
  qed
qed

lemma service_loop_ok:
  assumes E: "service_env_ok E"
  shows "driver_inv d \<Longrightarrow> conn_ok c acc \<Longrightarrow> list_all round_ok rs \<Longrightarrow>
    \<not> strstr (acc @ concat (map fst rs)) AESDCHAR_IOCSEEKTO_CMD_STR \<Longrightarrow>
    unat (malloc_buf_size c) + length (concat (map fst rs)) + length rs < 2 ^ 31 \<Longrightarrow>
    device_bytes (dev_abs d) + length rs * length (acc @ concat (map fst rs)) < 2 ^ 31 \<Longrightarrow>
    \<exists>d' c'. service_loop E (map (\<lambda>(b, a). Received b a) rs) d c = Some (Inr (d', c', False))
      \<and> driver_inv d' \<and> conn_ok c' (acc @ concat (map fst rs))
      \<and> dev_abs d' = fst (spec_service (write_split (conf E)) (dev_abs d) acc (map fst rs))
      \<and> sent_back c' = sent_back c @ snd (spec_service (write_split (conf E)) (dev_abs d) acc (map fst rs))"
proof (induction rs arbitrary: d c acc)
  case Nil
  then show ?case by simp
next
  case (Cons r rs)
  obtain b a where r: "r = (b, a)" by (cases r)
  let ?total = "length (acc @ concat (map fst (r # rs)))"
  have split: "concat (write_split (conf E) x) = x" for x
    using E by (simp add: service_env_ok_def stdio_conf_ok_def)
  have cmd: "\<not> strstr (acc @ b) AESDCHAR_IOCSEEKTO_CMD_STR"
    using Cons.prems(4) strstr_append [of "acc @ b" _ "concat (map fst rs)"] by (auto simp: r)
  have "length (acc @ b) \<le> ?total" by (simp add: r)
  then have room: "device_bytes (dev_abs d) + length (acc @ b) < 2 ^ 31"
    and room': "device_bytes (dev_abs d) + length (acc @ b) + length rs * ?total < 2 ^ 31"
    using Cons.prems(6) by (simp_all add: r)
  obtain d1 c1 where one: "service_round E a b d c = Some (Inr (d1, c1, True))" "driver_inv d1" "conn_ok c1 (acc @ b)"
    "unat (malloc_buf_size c1) = unat (malloc_buf_size c) + length b + 1"
    "if newline \<in> set b
       then dev_abs d1 = fold (\<lambda>p s. spec_write s p) (write_split (conf E) (acc @ b)) (dev_abs d)
         \<and> sent_back c1 = sent_back c @ contents (dev_abs d1)
       else dev_abs d1 = dev_abs d \<and> sent_back c1 = sent_back c"
    using service_round_ok [OF E Cons.prems(1,2) _ cmd _ room, of a] Cons.prems(3,5) r by auto
  have "device_bytes (dev_abs d1) \<le> device_bytes (dev_abs d) + length (acc @ b)"
    using one(5) device_bytes_pieces [of "write_split (conf E) (acc @ b)" "dev_abs d"] split
    by (auto split: if_splits)
  then have "device_bytes (dev_abs d1) + length rs * length ((acc @ b) @ concat (map fst rs)) < 2 ^ 31"
    using room' by (simp add: r)
  then obtain d' c' where "service_loop E (map (\<lambda>(b, a). Received b a) rs) d1 c1 = Some (Inr (d', c', False))"
    "driver_inv d'" "conn_ok c' ((acc @ b) @ concat (map fst rs))"
    "dev_abs d' = fst (spec_service (write_split (conf E)) (dev_abs d1) (acc @ b) (map fst rs))"
    "sent_back c' = sent_back c1 @ snd (spec_service (write_split (conf E)) (dev_abs d1) (acc @ b) (map fst rs))"
    using Cons.IH [OF one(2,3)] Cons.prems(3-5) one(4) by (auto simp: r)
  then show ?case
    using one(1,5) by (auto simp: r Let_def split: prod.splits if_splits)
qed

end
