(* ===== verification/Socket_Server.thy ===== *)
theory Socket_Server
  imports AESD_Prelude
begin

text \<open>
  The main program of \<^verbatim>\<open>server/aesdsocket.c\<close> around its service threads: binding the
  listening socket, daemonizing, the signal handler, and the main thread from its accept loop
  to the end, as a state machine over what happens to it: it waits in \<open>accept\<close> and in
  \<open>pthread_join\<close>, and signals and the ends of threads come at any time. The list of threads is
  the singly linked \<^verbatim>\<open>SLIST\<close> of \<^verbatim>\<open>sys/queue.h\<close>, in a memory of nodes, so that an access to a node
  that was freed shows up.
\<close>

section \<open>bind_to_address\<close>

text \<open>What the three calls return for one address of the list.\<close>

record address =
  socket :: c_int
  setsockopt :: c_int
  bind_result :: c_int

text \<open>The loop: whether it ended on an address, the last descriptor, the descriptors opened.\<close>

fun try_addresses :: "address list \<Rightarrow> c_int \<Rightarrow> c_int list \<Rightarrow> bool \<times> c_int \<times> c_int list" where
  "try_addresses [] h opened = (False, h, opened)"
| "try_addresses (a # as) h opened =
     (if socket a = - 1 then try_addresses as (- 1) opened
      else if setsockopt a = - 1 then try_addresses as (socket a) (opened @ [socket a])
      else if bind_result a = - 1 then try_addresses as (socket a) (opened @ [socket a])
      else (True, socket a, opened @ [socket a]))"

text \<open>\<open>None\<close> when \<open>getaddrinfo\<close> fails.\<close>

definition bind_to_address :: "address list option \<Rightarrow> bool \<times> c_int \<times> c_int list" where
  "bind_to_address result = (case result of None \<Rightarrow> (False, 0, []) | Some as \<Rightarrow> try_addresses as 0 [])"

definition usable :: "address \<Rightarrow> bool" where
  "usable a \<longleftrightarrow> socket a \<noteq> - 1 \<and> setsockopt a \<noteq> - 1 \<and> bind_result a \<noteq> - 1"

lemma try_addresses_step:
  "usable a \<Longrightarrow> try_addresses (a # as) h opened = (True, socket a, opened @ [socket a])"
  "\<not> usable a \<Longrightarrow> try_addresses (a # as) h opened
    = try_addresses as (socket a) (opened @ (if socket a = - 1 then [] else [socket a]))"
  by (auto simp: usable_def)

text \<open>The descriptors of the addresses before the first usable one stay open.\<close>

lemma try_addresses_eq:
  "try_addresses as h opened =
     (let tried = map socket (filter (\<lambda>a. socket a \<noteq> - 1) (takeWhile (\<lambda>a. \<not> usable a) as)) in
      case dropWhile (\<lambda>a. \<not> usable a) as of
        [] \<Rightarrow> (False, if as = [] then h else socket (last as), opened @ tried)
      | a # _ \<Rightarrow> (True, socket a, opened @ tried @ [socket a]))"
proof (induction as arbitrary: h opened)
  case Nil
  then show ?case by simp
next
  case (Cons a as)
  show ?case
  proof (cases "usable a")
    case True
    then show ?thesis by (simp add: try_addresses_step(1) del: try_addresses.simps)
  next
    case False
    then show ?thesis
      using Cons.IH [of "socket a"]
      by (cases "dropWhile (\<lambda>a. \<not> usable a) as")
        (auto simp: try_addresses_step(2) Let_def simp del: try_addresses.simps dropWhile_eq_Nil_conv)
  qed
qed

section \<open>daemonize_process\<close>

datatype daemon_result = Exit_success | Returned bool

text \<open>The library's answers in the child; a call that is not reached is not used.\<close>

record daemon_env =
  fork_pid :: c_int
  setsid :: c_int
  chdir_root :: c_int
  fcloseall :: c_int
  open_null :: c_int
  dup2_stdout :: c_int
  dup2_stderr :: c_int
  dup2_stdin :: c_int
  close_null :: c_int

definition daemonize_process :: "daemon_env \<Rightarrow> daemon_result" where
  "daemonize_process E =
     (if fork_pid E = - 1 then Returned True
      else if fork_pid E = 0 then
        let b1 = (setsid E \<noteq> - 1 \<and> chdir_root E \<noteq> - 1 \<and> fcloseall E \<noteq> - 1);
            b2 = (if open_null E = - 1 then False
                  else b1
                    \<and> \<not> (dup2_stdout E = - 1 \<or> dup2_stderr E = - 1 \<or> dup2_stdin E = - 1)
                    \<and> close_null E \<noteq> - 1)
        in Returned b2
      else Exit_success)"

section \<open>The list of threads\<close>

record node =
  b_is_thread_complete :: bool
  next_node :: "nat option"

text \<open>
  Where the main thread is: at the test of its loop, past it and in \<open>accept\<close>, at the loop over
  the list, in the cleanup, or gone with an exit code.
\<close>

datatype main_pc = Testing | Accepting | Sweeping | Joining | Exited int

record server =
  main_at :: main_pc
  slist_head :: "nat option"
  nodes :: "nat \<rightharpoonup> node"
  b_accept_connections :: bool
  open_fds :: "nat list"
  joined :: "nat list"

text \<open>\<open>SLIST_NEXT\<close>: reading a node that is not allocated is an error.\<close>

definition slist_next :: "(nat \<rightharpoonup> node) \<Rightarrow> nat \<Rightarrow> fault + nat option" where
  "slist_next m p = (case m p of None \<Rightarrow> Inl UseAfterFree | Some n \<Rightarrow> Inr (next_node n))"

text \<open>\<open>SLIST_INSERT_HEAD\<close>\<close>

definition slist_insert_head :: "nat \<Rightarrow> node \<Rightarrow> server \<Rightarrow> server" where
  "slist_insert_head p n s =
     s\<lparr>slist_head := Some p, nodes := (nodes s)(p \<mapsto> n\<lparr>next_node := slist_head s\<rparr>)\<rparr>"

text \<open>The search of \<open>SLIST_REMOVE\<close> for the predecessor of \<open>p\<close>, from the node \<open>cur\<close> on.\<close>

partial_function (option) slist_unlink :: "(nat \<rightharpoonup> node) \<Rightarrow> nat \<Rightarrow> nat \<Rightarrow> (fault + (nat \<rightharpoonup> node)) option" where
  "slist_unlink m cur p =
     (case m cur of
        None \<Rightarrow> Some (Inl UseAfterFree)
      | Some n \<Rightarrow>
          (case next_node n of
             None \<Rightarrow> Some (Inl NullDeref)
           | Some q \<Rightarrow>
               if q = p then
                 (case m q of
                    None \<Rightarrow> Some (Inl UseAfterFree)
                  | Some n' \<Rightarrow> Some (Inr (m(cur \<mapsto> n\<lparr>next_node := next_node n'\<rparr>))))
               else slist_unlink m q p))"

declare slist_unlink.simps [code]

definition slist_remove :: "nat \<Rightarrow> server \<Rightarrow> (fault + server) option" where
  "slist_remove p s =
     (case slist_head s of
        None \<Rightarrow> Some (Inl NullDeref)
      | Some h \<Rightarrow>
          if h = p then
            (case slist_next (nodes s) p of Inl e \<Rightarrow> Some (Inl e) | Inr q \<Rightarrow> Some (Inr (s\<lparr>slist_head := q\<rparr>)))
          else
            (case slist_unlink (nodes s) h p of
               None \<Rightarrow> None
             | Some (Inl e) \<Rightarrow> Some (Inl e)
             | Some (Inr m) \<Rightarrow> Some (Inr (s\<lparr>nodes := m\<rparr>))))"

definition free_node :: "nat \<Rightarrow> server \<Rightarrow> server" where
  "free_node p s = s\<lparr>nodes := (nodes s)(p := None)\<rparr>"

text \<open>The loop that joins and frees the threads that are complete, from the node \<open>p\<close> on.\<close>

partial_function (option) sweep :: "nat option \<Rightarrow> server \<Rightarrow> (fault + server) option" where
  "sweep p s =
     (case p of
        None \<Rightarrow> Some (Inr s)
      | Some q \<Rightarrow>
          (case nodes s q of
             None \<Rightarrow> Some (Inl UseAfterFree)
           | Some n \<Rightarrow>
               if b_is_thread_complete n then
                 (case slist_remove q (s\<lparr>joined := joined s @ [q]\<rparr>) of
                    None \<Rightarrow> None
                  | Some (Inl e) \<Rightarrow> Some (Inl e)
                  | Some (Inr s1) \<Rightarrow>
                      let s2 = free_node q s1 in
                      (case slist_next (nodes s2) q of
                         Inl e \<Rightarrow> Some (Inl e)
                       | Inr r \<Rightarrow> sweep r s2))
               else
                 (case slist_next (nodes s) q of
                    Inl e \<Rightarrow> Some (Inl e)
                  | Inr r \<Rightarrow> sweep r s)))"

declare sweep.simps [code]

section \<open>The accept loop\<close>

abbreviation SIGINT :: nat where "SIGINT \<equiv> 2"
abbreviation SIGTERM :: nat where "SIGTERM \<equiv> 15"

definition signal_handler :: "nat \<Rightarrow> server \<Rightarrow> server" where
  "signal_handler signo s =
     (if signo = SIGINT \<or> signo = SIGTERM then s\<lparr>b_accept_connections := False\<rparr> else s)"

text \<open>
  What happens: a signal whose handler runs without interrupting a call (in whichever thread,
  or before the main thread has blocked); a thread that sets its flag and ends; the blocked
  \<open>accept\<close> returning a descriptor, with the address \<open>malloc\<close> returns and whether \<open>pthread_create\<close>
  succeeds; \<open>accept\<close> failing; a signal that interrupts the blocked \<open>accept\<close>, which fails as the
  handler is installed without \<^verbatim>\<open>SA_RESTART\<close>; the main thread going on by itself.
\<close>

datatype main_event = Signal nat | Completes nat | Accepted nat "nat option" bool | Accept_failed
  | Interrupted nat | Proceed

definition accept_client :: "nat \<Rightarrow> nat option \<Rightarrow> bool \<Rightarrow> server \<Rightarrow> server" where
  "accept_client fd addr created s =
     (let s1 = s\<lparr>open_fds := open_fds s @ [fd]\<rparr> in
      case addr of
        None \<Rightarrow> s1
      | Some p \<Rightarrow>
          if \<not> created then s1
          else slist_insert_head p \<lparr>b_is_thread_complete = False, next_node = None\<rparr> s1)"

definition thread_completes :: "nat \<Rightarrow> server \<Rightarrow> server" where
  "thread_completes p s =
     (case nodes s p of None \<Rightarrow> s | Some n \<Rightarrow> s\<lparr>nodes := (nodes s)(p \<mapsto> n\<lparr>b_is_thread_complete := True\<rparr>)\<rparr>)"

text \<open>The test of the loop.\<close>

definition test_loop :: "server \<Rightarrow> server" where
  "test_loop s = s\<lparr>main_at := (if b_accept_connections s then Accepting else Joining)\<rparr>"

text \<open>\<open>accept\<close> returns an unused descriptor, \<open>malloc\<close> an address that is not in use.\<close>

definition fresh_client :: "nat \<Rightarrow> nat option \<Rightarrow> server \<Rightarrow> bool" where
  "fresh_client fd addr s \<longleftrightarrow> fd \<notin> set (open_fds s) \<and> (case addr of None \<Rightarrow> True | Some p \<Rightarrow> nodes s p = None)"

text \<open>
  One round of the cleanup, which joins and frees the head of the list, and after the last one
  the end of \<open>main\<close>. \<open>None\<close>: the thread at the head is still running, \<open>pthread_join\<close> waits for it.
\<close>

definition join_first :: "nat \<Rightarrow> server \<Rightarrow> (fault + server) option" where
  "join_first h_sockfd s =
     (case slist_head s of
        None \<Rightarrow> Some (Inr (s\<lparr>open_fds := remove1 h_sockfd (open_fds s),
          main_at := Exited (if b_accept_connections s then - 1 else 0)\<rparr>))
      | Some p \<Rightarrow>
          (case nodes s p of
             None \<Rightarrow> Some (Inl UseAfterFree)
           | Some n \<Rightarrow>
               if \<not> b_is_thread_complete n then None
               else Some (Inr (free_node p (s\<lparr>joined := joined s @ [p], slist_head := next_node n\<rparr>)))))"

text \<open>The signals for which \<open>main\<close> installs the handler; no other signal reaches it.\<close>

definition caught :: "nat \<Rightarrow> bool" where
  "caught signo \<longleftrightarrow> signo = SIGINT \<or> signo = SIGTERM"

text \<open>
  \<open>None\<close>: the event cannot occur there; for \<open>Proceed\<close>, the main thread waits. The loop over the
  thread list is one step: a thread that completes meanwhile does so as if before the step or
  after it, depending on whether its node has been tested.
\<close>

fun main_step :: "nat \<Rightarrow> main_event \<Rightarrow> server \<Rightarrow> (fault + server) option" where
  "main_step h_sockfd (Signal signo) s =
     (case main_at s of
        Exited code \<Rightarrow> None
      | _ \<Rightarrow> if caught signo then Some (Inr (signal_handler signo s)) else None)"
| "main_step h_sockfd (Completes p) s =
     (case nodes s p of
        None \<Rightarrow> None
      | Some n \<Rightarrow> if b_is_thread_complete n then None else Some (Inr (thread_completes p s)))"
| "main_step h_sockfd (Accepted fd addr created) s =
     (if main_at s = Accepting \<and> fresh_client fd addr s
      then Some (Inr ((accept_client fd addr created s)\<lparr>main_at := Sweeping\<rparr>)) else None)"
| "main_step h_sockfd Accept_failed s =
     (if main_at s = Accepting then Some (Inr (s\<lparr>main_at := Joining\<rparr>)) else None)"
| "main_step h_sockfd (Interrupted signo) s =
     (if main_at s = Accepting \<and> caught signo
      then Some (Inr ((signal_handler signo s)\<lparr>main_at := Joining\<rparr>)) else None)"
| "main_step h_sockfd Proceed s =
     (case main_at s of
        Testing \<Rightarrow> Some (Inr (test_loop s))
      | Accepting \<Rightarrow> None
      | Sweeping \<Rightarrow>
          (case sweep (slist_head s) s of
             None \<Rightarrow> None
           | Some (Inl e) \<Rightarrow> Some (Inl e)
           | Some (Inr s') \<Rightarrow> Some (Inr (s'\<lparr>main_at := Testing\<rparr>)))
      | Joining \<Rightarrow> join_first h_sockfd s
      | Exited code \<Rightarrow> None)"

fun run_main :: "nat \<Rightarrow> main_event list \<Rightarrow> server \<Rightarrow> (fault + server) option" where
  "run_main h_sockfd [] s = Some (Inr s)"
| "run_main h_sockfd (e # es) s =
     (case main_step h_sockfd e s of
        None \<Rightarrow> None
      | Some (Inl f) \<Rightarrow> Some (Inl f)
      | Some (Inr s') \<Rightarrow> run_main h_sockfd es s')"

definition initial_server :: "nat \<Rightarrow> server" where
  "initial_server h_sockfd = \<lparr>main_at = Testing, slist_head = None, nodes = Map.empty, b_accept_connections = True,
     open_fds = [h_sockfd], joined = []\<rparr>"

section \<open>Lists in memory\<close>

text \<open>The nodes \<open>ps\<close> form the list that starts at \<open>p\<close>.\<close>

fun chain :: "(nat \<rightharpoonup> node) \<Rightarrow> nat option \<Rightarrow> nat list \<Rightarrow> bool" where
  "chain m p [] = (p = None)"
| "chain m p (q # qs) = (p = Some q \<and> (case m q of None \<Rightarrow> False | Some n \<Rightarrow> chain m (next_node n) qs))"

fun_cases chain_NilE: "chain m p []"
fun_cases chain_ConsE: "chain m p (q # qs)"

lemma chain_frame: "(\<And>q. q \<in> set qs \<Longrightarrow> m' q = m q) \<Longrightarrow> chain m p qs \<Longrightarrow> chain m' p qs"
  by (induction qs arbitrary: p) (auto split: option.splits)

lemma chain_allocated: "chain m p qs \<Longrightarrow> q \<in> set qs \<Longrightarrow> \<exists>n. m q = Some n"
  by (induction qs arbitrary: p) (auto split: option.splits)

definition list_inv :: "server \<Rightarrow> nat list \<Rightarrow> bool" where
  "list_inv s ps \<longleftrightarrow> chain (nodes s) (slist_head s) ps \<and> distinct ps"

text \<open>Inserting a fresh node keeps a list.\<close>

lemma chain_insert:
  assumes "chain m h qs" and "p \<notin> set qs"
  shows "chain (m(p \<mapsto> n\<lparr>next_node := h\<rparr>)) (Some p) (p # qs)"
proof -
  have "chain (m(p \<mapsto> n\<lparr>next_node := h\<rparr>)) h qs"
    by (rule chain_frame [OF _ assms(1)]) (use assms(2) in auto)
  then show ?thesis by simp
qed

lemma list_inv_insert:
  "list_inv s ps \<Longrightarrow> p \<notin> set ps \<Longrightarrow> list_inv (slist_insert_head p n s) (p # ps)"
  using chain_insert [of "nodes s" "slist_head s" ps p n] by (simp add: list_inv_def slist_insert_head_def)

section \<open>The loops\<close>

lemma sweep_nothing:
  "chain (nodes s) p ps \<Longrightarrow> \<forall>q \<in> set ps. \<forall>n. nodes s q = Some n \<longrightarrow> \<not> b_is_thread_complete n \<Longrightarrow>
    sweep p s = Some (Inr s)"
proof (induction ps arbitrary: p)
  case Nil
  then show ?case by (simp add: sweep.simps)
next
  case (Cons q qs)
  then obtain n where "p = Some q" "nodes s q = Some n" "chain (nodes s) (next_node n) qs" "\<not> b_is_thread_complete n"
    by (auto split: option.splits)
  with Cons.IH [of "next_node n"] Cons.prems(2) show ?case
    by (subst sweep.simps) (simp add: slist_next_def)
qed

text \<open>Unlinking finds the predecessor.\<close>

lemma slist_unlink_found:
  "chain m (Some c) (c # qs @ p # rs) \<Longrightarrow> distinct (c # qs @ p # rs) \<Longrightarrow>
    \<exists>m'. slist_unlink m c p = Some (Inr m') \<and> (m' p = m p)"
proof (induction qs arbitrary: c)
  case Nil
  then obtain n n' where "m c = Some n" "next_node n = Some p" "m p = Some n'" "c \<noteq> p"
    by (auto split: option.splits)
  then show ?case by (subst slist_unlink.simps) simp
next
  case (Cons q qs)
  then obtain n where n: "m c = Some n" "next_node n = Some q" "chain m (Some q) (q # qs @ p # rs)" "q \<noteq> p"
    by (auto split: option.splits)
  with Cons.IH [OF n(3)] Cons.prems(2) show ?case by (subst slist_unlink.simps) simp
qed

lemma slist_remove_found:
  assumes "list_inv s (qs @ p # rs)"
  shows "\<exists>s'. slist_remove p s = Some (Inr s')"
proof (cases qs)
  case Nil
  with assms show ?thesis by (auto simp: list_inv_def slist_remove_def slist_next_def split: option.splits)
next
  case (Cons c cs)
  then have "slist_head s = Some c" "chain (nodes s) (Some c) (c # cs @ p # rs)" "distinct (c # cs @ p # rs)"
    using assms by (auto simp: list_inv_def)
  with slist_unlink_found [of "nodes s" c cs p rs] show ?thesis by (auto simp: slist_remove_def)
qed

text \<open>The first complete thread is freed and then read.\<close>

lemma sweep_faults:
  assumes inv: "list_inv s ps"
  shows "ps = done @ qs @ p # rs \<Longrightarrow> chain (nodes s) h (qs @ p # rs) \<Longrightarrow>
    \<forall>q \<in> set qs. \<forall>n. nodes s q = Some n \<longrightarrow> \<not> b_is_thread_complete n \<Longrightarrow>
    nodes s p = Some n \<Longrightarrow> b_is_thread_complete n \<Longrightarrow> sweep h s = Some (Inl UseAfterFree)"
proof (induction qs arbitrary: "done" h)
  case Nil
  have "list_inv (s\<lparr>joined := joined s @ [p]\<rparr>) (done @ p # rs)"
    using inv Nil.prems(1) by (simp add: list_inv_def)
  from slist_remove_found [OF this] obtain s1 where "slist_remove p (s\<lparr>joined := joined s @ [p]\<rparr>) = Some (Inr s1)" ..
  with Nil.prems show ?case
    by (subst sweep.simps) (simp add: Let_def free_node_def slist_next_def)
next
  case (Cons q qs)
  then obtain nq where "h = Some q" "nodes s q = Some nq" "chain (nodes s) (next_node nq) (qs @ p # rs)"
    "\<not> b_is_thread_complete nq"
    by (auto split: option.splits)
  with Cons.IH [of "done @ [q]" "next_node nq"] Cons.prems show ?case
    by (subst sweep.simps) (simp add: slist_next_def)
qed

lemma run_main_append:
  "run_main h es s = Some (Inr s1) \<Longrightarrow> run_main h (es @ fs) s = run_main h fs s1"
  by (induction es arbitrary: s) (auto split: option.splits sum.splits)

text \<open>Threads end, in any order; the list stays.\<close>

definition mark :: "nat set \<Rightarrow> (nat \<rightharpoonup> node) \<Rightarrow> nat \<rightharpoonup> node" where
  "mark A m = (\<lambda>q. map_option (\<lambda>n. if q \<in> A then n\<lparr>b_is_thread_complete := True\<rparr> else n) (m q))"

lemma mark_empty [simp]: "mark {} m = m"
  by (simp add: mark_def option.map_ident)

lemma dom_mark [simp]: "dom (mark A m) = dom m"
  by (auto simp: mark_def)

lemma chain_mark: "chain m p qs \<Longrightarrow> chain (mark A m) p qs"
  by (induction qs arbitrary: p) (auto simp: mark_def split: option.splits)

lemma run_completes:
  "distinct ps \<Longrightarrow> \<forall>p \<in> set ps. \<exists>n. nodes s p = Some n \<and> \<not> b_is_thread_complete n \<Longrightarrow>
    run_main h (map Completes ps) s = Some (Inr (s\<lparr>nodes := mark (set ps) (nodes s)\<rparr>))"
proof (induction ps arbitrary: s)
  case (Cons p ps)
  let ?s = "s\<lparr>nodes := mark {p} (nodes s)\<rparr>"
  obtain n where n: "nodes s p = Some n" "\<not> b_is_thread_complete n" using Cons.prems(2) by auto
  then have "(nodes s)(p \<mapsto> n\<lparr>b_is_thread_complete := True\<rparr>) = mark {p} (nodes s)"
    by (auto simp: mark_def fun_eq_iff option.map_ident)
  with n have "main_step h (Completes p) s = Some (Inr ?s)" by (simp add: thread_completes_def)
  moreover have "\<forall>q \<in> set ps. \<exists>n. nodes ?s q = Some n \<and> \<not> b_is_thread_complete n"
  proof
    fix q assume "q \<in> set ps"
    then have "q \<noteq> p" "\<exists>n. nodes s q = Some n \<and> \<not> b_is_thread_complete n" using Cons.prems by auto
    then show "\<exists>n. nodes ?s q = Some n \<and> \<not> b_is_thread_complete n" by (auto simp: mark_def)
  qed
  moreover have "mark (set ps) (mark {p} (nodes s)) = mark (set (p # ps)) (nodes s)"
    by (auto simp: mark_def fun_eq_iff option.map_comp comp_def intro!: option.map_cong)
  ultimately show ?case using Cons.IH [of ?s] Cons.prems(1) by simp
qed simp

text \<open>The cleanup joins the whole list once its threads have ended, and \<open>main\<close> returns.\<close>

lemma run_joins:
  "list_inv s ps \<Longrightarrow> \<forall>p \<in> set ps. \<exists>n. nodes s p = Some n \<and> b_is_thread_complete n \<Longrightarrow> main_at s = Joining \<Longrightarrow>
    \<exists>s'. run_main h (replicate (Suc (length ps)) Proceed) s = Some (Inr s')
    \<and> main_at s' = Exited (if b_accept_connections s then - 1 else 0) \<and> slist_head s' = None
    \<and> joined s' = joined s @ ps \<and> dom (nodes s') = dom (nodes s) - set ps \<and> open_fds s' = remove1 h (open_fds s)"
proof (induction ps arbitrary: s)
  case Nil
  then show ?case by (simp add: list_inv_def join_first_def)
next
  case (Cons p ps)
  have "chain (nodes s) (slist_head s) (p # ps)" using Cons.prems(1) by (simp only: list_inv_def)
  then obtain n where n: "slist_head s = Some p" "nodes s p = Some n" "chain (nodes s) (next_node n) ps"
    by (auto split: option.splits)
  let ?s = "free_node p (s\<lparr>joined := joined s @ [p], slist_head := next_node n\<rparr>)"
  have "chain (nodes ?s) (next_node n) ps"
  proof (rule chain_frame [OF _ n(3)])
    show "nodes ?s q = nodes s q" if "q \<in> set ps" for q
      using that Cons.prems by (auto simp: free_node_def list_inv_def)
  qed
  then have inv: "list_inv ?s ps" using Cons.prems by (simp add: list_inv_def free_node_def)
  have ended: "\<forall>q \<in> set ps. \<exists>n. nodes ?s q = Some n \<and> b_is_thread_complete n"
    using Cons.prems(1,2) by (auto simp: free_node_def list_inv_def)
  have "main_at ?s = Joining" using Cons.prems(3) by (simp add: free_node_def)
  from Cons.IH [OF inv ended this] obtain s' where s': "run_main h (replicate (Suc (length ps)) Proceed) ?s = Some (Inr s')"
    "main_at s' = Exited (if b_accept_connections ?s then - 1 else 0)" "slist_head s' = None"
    "joined s' = joined ?s @ ps" "dom (nodes s') = dom (nodes ?s) - set ps" "open_fds s' = remove1 h (open_fds ?s)"
    by (elim exE conjE)
  have step: "main_step h Proceed s = Some (Inr ?s)"
    using n Cons.prems(2,3) by (simp add: join_first_def)
  have "run_main h (replicate (Suc (length (p # ps))) Proceed) s = Some (Inr s')"
    using step s'(1) by (simp del: main_step.simps)
  moreover have "joined ?s = joined s @ [p]" "dom (nodes ?s) = dom (nodes s) - {p}" "open_fds ?s = open_fds s"
    "b_accept_connections ?s = b_accept_connections s"
    by (simp_all add: free_node_def)
  ultimately show ?case using s' by (intro exI [of _ s']) auto
qed

end
