(* ===== verification/Socket_Main.thy ===== *)
theory Socket_Main
  imports Socket_Server
begin

text \<open>
  \<open>main\<close> of \<^verbatim>\<open>server/aesdsocket.c\<close> from its command line to its exit status: parsing, binding,
  daemonizing, installing the signal handlers, listening, and then the steps of the main
  thread of \<open>Socket_Server\<close>. The invariant \<open>main_inv\<close> relates the state after any events to
  these events: which threads were started, joined and are in the list, and why it stopped.
\<close>

section \<open>The command line\<close>

text \<open>
  What \<open>getopt(argc, argv, "d")\<close> returns, call by call, before the \<open>- 1\<close>: the letter of each
  option, a question mark for one that is not \<open>d\<close>. An argument that is no option is passed
  over, and \<^verbatim>\<open>--\<close> ends the options. \<open>args\<close> are the arguments after the name of the program.
\<close>

fun getopt_d :: "byte list list \<Rightarrow> byte list" where
  "getopt_d [] = []"
| "getopt_d (arg # args) =
     (if arg = [45, 45] then []
      else if 2 \<le> length arg \<and> hd arg = 45 then map (\<lambda>c. if c = 100 then c else 63) (tl arg) @ getopt_d args
      else getopt_d args)"

text \<open>The loop over them: \<open>None\<close> is the exit for an invalid option, else whether to daemonize.\<close>

fun option_loop :: "byte list \<Rightarrow> bool \<Rightarrow> bool option" where
  "option_loop [] b_daemonize = Some b_daemonize"
| "option_loop (opt_char # opts) b_daemonize = (if opt_char = 100 then option_loop opts True else None)"

definition parse_arguments :: "byte list list \<Rightarrow> bool option" where
  "parse_arguments args = (if 2 < Suc (length args) then None else option_loop (getopt_d args) False)"

section \<open>The start of main\<close>

text \<open>Whether both calls of \<open>sigaction\<close> succeeded, and the signals that now have the handler.\<close>

definition assign_signal_handler :: "c_int \<Rightarrow> c_int \<Rightarrow> bool \<times> nat list" where
  "assign_signal_handler sigaction_int sigaction_term =
     (let b1 = (if sigaction_int = - 1 then False else True);
          b2 = (if sigaction_term = - 1 then False else b1)
      in (b2, (if sigaction_int = - 1 then [] else [SIGINT]) @ (if sigaction_term = - 1 then [] else [SIGTERM])))"

record start_env =
  resolved :: "address list option"
  daemon :: daemon_env
  sigaction_int :: c_int
  sigaction_term :: c_int
  listen :: c_int

text \<open>
  The exit status (\<open>None\<close> while \<open>main\<close> is still running after the events), whether the usage was
  printed, and the state. The socket \<open>main\<close> listens on is \<open>bound_socket\<close>.
\<close>

definition exit_code :: "server \<Rightarrow> int option" where
  "exit_code s = (case main_at s of Exited code \<Rightarrow> Some code | _ \<Rightarrow> None)"

definition bound_socket :: "start_env \<Rightarrow> nat" where
  "bound_socket E = unat (fst (snd (bind_to_address (resolved E))))"

definition server_main ::
    "start_env \<Rightarrow> byte list list \<Rightarrow> main_event list \<Rightarrow> (fault + int option \<times> bool \<times> server) option" where
  "server_main E args es =
     (case parse_arguments args of
        None \<Rightarrow> Some (Inr (Some (- 1), True, (initial_server 0)\<lparr>open_fds := []\<rparr>))
      | Some b_daemonize \<Rightarrow>
          (case bind_to_address (resolved E) of (bound, h_sockfd, opened) \<Rightarrow>
             let s0 = (initial_server (unat h_sockfd))\<lparr>open_fds := map unat opened\<rparr> in
             if \<not> bound then Some (Inr (Some (- 1), False, s0))
             else case (if b_daemonize then daemonize_process (daemon E) else Returned True) of
                 Exit_success \<Rightarrow> Some (Inr (Some 0, False, s0))
               | Returned daemonized \<Rightarrow>
                   if \<not> daemonized then Some (Inr (Some (- 1), False, s0))
                   else if \<not> fst (assign_signal_handler (sigaction_int E) (sigaction_term E))
                   then Some (Inr (Some (- 1), False, s0))
                   else if listen E = - 1 then Some (Inr (Some (- 1), False, s0))
                   else case run_main (unat h_sockfd) es s0 of
                       None \<Rightarrow> None
                     | Some (Inl e) \<Rightarrow> Some (Inl e)
                     | Some (Inr s) \<Rightarrow> Some (Inr (exit_code s, False, s))))"

lemma option_loop_eq: "option_loop opts b = (if set opts \<subseteq> {100} then Some (b \<or> opts \<noteq> []) else None)"
  by (induction opts arbitrary: b) auto

section \<open>The list and the events\<close>

text \<open>The loop over the list changes nothing, or it meets a complete thread and faults.\<close>

lemma sweep_cases:
  assumes inv: "list_inv s ps"
  shows "sweep (slist_head s) s = Some (Inr s)
    \<or> sweep (slist_head s) s = Some (Inl UseAfterFree) \<and> (\<exists>p n. nodes s p = Some n \<and> b_is_thread_complete n)"
proof (cases "\<forall>q \<in> set ps. \<forall>n. nodes s q = Some n \<longrightarrow> \<not> b_is_thread_complete n")
  case True
  with sweep_nothing [of s "slist_head s" ps] inv show ?thesis by (simp add: list_inv_def)
next
  case False
  let ?P = "\<lambda>q. \<exists>n. nodes s q = Some n \<and> b_is_thread_complete n"
  from False have "\<exists>q \<in> set ps. ?P q" by blast
  then obtain qs q rs where ps: "ps = qs @ q # rs" and q: "?P q" and "\<forall>x \<in> set qs. \<not> ?P x"
    by (rule split_list_first_propE)
  moreover have "chain (nodes s) (slist_head s) (qs @ q # rs)" using inv by (simp add: list_inv_def ps)
  ultimately show ?thesis using sweep_faults [OF inv, of "[]" qs q rs "slist_head s"] by auto
qed

lemma chain_flags:
  "chain m p qs \<Longrightarrow> (\<And>q. map_option next_node (m' q) = map_option next_node (m q)) \<Longrightarrow> chain m' p qs"
proof (induction qs arbitrary: p)
  case (Cons q qs)
  then obtain n where n: "p = Some q" "m q = Some n" "chain m (next_node n) qs" by (auto split: option.splits)
  with Cons.prems(2) [of q] obtain n' where "m' q = Some n'" "next_node n' = next_node n" by auto
  with n Cons show ?case by simp
qed simp

text \<open>The list of a state is all of its memory.\<close>

definition threads_inv :: "server \<Rightarrow> nat list \<Rightarrow> bool" where
  "threads_inv s ps \<longleftrightarrow> list_inv s ps \<and> dom (nodes s) = set ps"

lemma threads_inv_completes:
  assumes "threads_inv s ps"
  shows "threads_inv (thread_completes p s) ps"
proof (cases "nodes s p")
  case None
  with assms show ?thesis by (simp add: thread_completes_def)
next
  case (Some n)
  let ?m = "(nodes s)(p \<mapsto> n\<lparr>b_is_thread_complete := True\<rparr>)"
  have s': "thread_completes p s = s\<lparr>nodes := ?m\<rparr>" using Some by (simp add: thread_completes_def)
  have "chain (nodes s) (slist_head s) ps" using assms by (simp add: threads_inv_def list_inv_def)
  then have "chain ?m (slist_head s) ps" by (rule chain_flags) (simp add: Some)
  moreover have "dom ?m = dom (nodes s)" using Some by auto
  ultimately show ?thesis using assms unfolding s' by (simp add: threads_inv_def list_inv_def)
qed

text \<open>What a list of events says: the threads started, the descriptors, a signal to stop.\<close>

fun started_threads :: "main_event list \<Rightarrow> nat list" where
  "started_threads [] = []"
| "started_threads (Accepted fd (Some p) True # es) = p # started_threads es"
| "started_threads (e # es) = started_threads es"

fun accepted_fds :: "main_event list \<Rightarrow> nat list" where
  "accepted_fds [] = []"
| "accepted_fds (Accepted fd addr created # es) = fd # accepted_fds es"
| "accepted_fds (e # es) = accepted_fds es"

fun stop_signal :: "main_event list \<Rightarrow> bool" where
  "stop_signal [] = False"
| "stop_signal (Signal signo # es) = (signo = SIGINT \<or> signo = SIGTERM \<or> stop_signal es)"
| "stop_signal (Interrupted signo # es) = (signo = SIGINT \<or> signo = SIGTERM \<or> stop_signal es)"
| "stop_signal (e # es) = stop_signal es"

lemma started_threads_append [simp]: "started_threads (es @ fs) = started_threads es @ started_threads fs"
  by (induction es rule: started_threads.induct) simp_all

lemma accepted_fds_append [simp]: "accepted_fds (es @ fs) = accepted_fds es @ accepted_fds fs"
  by (induction es rule: accepted_fds.induct) simp_all

lemma stop_signal_append [simp]: "stop_signal (es @ fs) \<longleftrightarrow> stop_signal es \<or> stop_signal fs"
  by (induction es rule: stop_signal.induct) simp_all

text \<open>
  After the events \<open>es\<close>: \<open>ps\<close> is the list, \<open>opened\<close> are the descriptors of the start.
\<close>

definition main_inv :: "nat \<Rightarrow> nat list \<Rightarrow> main_event list \<Rightarrow> nat list \<Rightarrow> server \<Rightarrow> bool" where
  "main_inv h opened es ps s \<longleftrightarrow> threads_inv s ps \<and> joined s @ ps = rev (started_threads es)
     \<and> (main_at s \<in> {Testing, Accepting, Sweeping} \<longrightarrow> joined s = [])
     \<and> (\<forall>p n. nodes s p = Some n \<and> b_is_thread_complete n \<longrightarrow> Completes p \<in> set es)
     \<and> (\<forall>p \<in> set (joined s). Completes p \<in> set es)
     \<and> (b_accept_connections s \<longleftrightarrow> \<not> stop_signal es)
     \<and> (case main_at s of
          Exited code \<Rightarrow> ps = [] \<and> code = (if b_accept_connections s then - 1 else 0)
            \<and> open_fds s = remove1 h (opened @ accepted_fds es)
        | _ \<Rightarrow> open_fds s = opened @ accepted_fds es)"

lemma main_inv_start: "main_inv h opened [] [] ((initial_server h)\<lparr>open_fds := opened\<rparr>)"
  by (simp add: main_inv_def threads_inv_def list_inv_def initial_server_def)

lemma threads_inv_fields [simp]:
  "threads_inv (s\<lparr>main_at := pc\<rparr>) ps = threads_inv s ps"
  "threads_inv (s\<lparr>b_accept_connections := b\<rparr>) ps = threads_inv s ps"
  by (simp_all add: threads_inv_def list_inv_def)

lemma threads_inv_head:
  "threads_inv s ps \<Longrightarrow> case slist_head s of None \<Rightarrow> ps = []
    | Some p \<Rightarrow> \<exists>n qs. ps = p # qs \<and> nodes s p = Some n \<and> chain (nodes s) (next_node n) qs"
  by (cases ps) (auto simp: threads_inv_def list_inv_def split: option.splits)

text \<open>Joining the head of the list.\<close>

lemma threads_inv_join:
  assumes "threads_inv s (p # qs)" and "nodes s p = Some n" and "chain (nodes s) (next_node n) qs"
  shows "threads_inv (free_node p (s\<lparr>joined := js, slist_head := next_node n\<rparr>)) qs"
proof -
  have l: "list_inv s (p # qs)" and dom: "dom (nodes s) = set (p # qs)"
    using assms(1) by (simp_all only: threads_inv_def)
  have p: "p \<notin> set qs" "distinct qs" using l by (simp_all add: list_inv_def)
  have "chain ((nodes s)(p := None)) (next_node n) qs"
    by (rule chain_frame [OF _ assms(3)]) (use p in auto)
  moreover have "dom (nodes s) - {p} = set qs" using dom p by simp
  ultimately show ?thesis using p by (simp add: threads_inv_def list_inv_def free_node_def)
qed

section \<open>Every step\<close>

lemma main_step_inv:
  assumes inv: "main_inv h opened es ps s" and step: "main_step h e s = Some (Inr s')"
  shows "\<exists>qs. main_inv h opened (es @ [e]) qs s'"
proof (cases e)
  case (Signal signo)
  with step have "s' = signal_handler signo s" "\<forall>code. main_at s \<noteq> Exited code"
    by (auto split: main_pc.splits if_splits)
  with inv show ?thesis
    by (intro exI [of _ ps]) (auto simp: main_inv_def Signal signal_handler_def split: main_pc.splits)
next
  case (Completes p)
  with step obtain n where n: "nodes s p = Some n" "s' = thread_completes p s"
    by (auto split: option.splits if_splits)
  have "threads_inv s ps" using inv by (simp add: main_inv_def)
  from threads_inv_completes [OF this, of p] have "threads_inv s' ps" by (simp add: n)
  with inv n show ?thesis
    by (intro exI [of _ ps]) (auto simp: main_inv_def Completes thread_completes_def split: main_pc.splits if_splits)
next
  case (Accepted fd addr created)
  with step have acc: "main_at s = Accepting" "fresh_client fd addr s" "s' = (accept_client fd addr created s)\<lparr>main_at := Sweeping\<rparr>"
    by (auto split: if_splits)
  have t: "threads_inv s ps" using inv by (simp add: main_inv_def)
  show ?thesis
  proof (cases "addr \<noteq> None \<and> created")
    case False
    then have "accept_client fd addr created s = s\<lparr>open_fds := open_fds s @ [fd]\<rparr>"
      by (auto simp: accept_client_def Let_def split: option.split)
    moreover have "started_threads [e] = []" using False by (cases addr; cases created) (auto simp: Accepted)
    ultimately show ?thesis using inv t
      by (intro exI [of _ ps]) (auto simp: main_inv_def acc Accepted threads_inv_def list_inv_def)
  next
    case True
    then obtain p where p: "addr = Some p" by blast
    let ?n = "\<lparr>b_is_thread_complete = False, next_node = None\<rparr>"
    have new: "s' = (slist_insert_head p ?n (s\<lparr>open_fds := open_fds s @ [fd]\<rparr>))\<lparr>main_at := Sweeping\<rparr>"
      using True by (simp add: acc accept_client_def p Let_def)
    have "p \<notin> set ps" using acc(2) t by (auto simp: fresh_client_def p threads_inv_def)
    then have "threads_inv s' (p # ps)"
      using t list_inv_insert [of "s\<lparr>open_fds := open_fds s @ [fd]\<rparr>" ps p ?n]
      by (simp add: new threads_inv_def list_inv_def slist_insert_head_def)
    moreover have none: "joined s = []" using inv acc(1) by (simp add: main_inv_def)
    have "joined s @ ps = rev (started_threads es)" using inv unfolding main_inv_def by blast
    with none have "joined s' @ p # ps = rev (started_threads (es @ [e]))" "joined s' = []"
      using True by (simp_all add: new slist_insert_head_def Accepted p)
    moreover have "Completes q \<in> set (es @ [e])" if "nodes s' q = Some n" "b_is_thread_complete n" for q n
      using inv that by (auto simp: main_inv_def new slist_insert_head_def split: if_splits)
    moreover have "b_accept_connections s' \<longleftrightarrow> \<not> stop_signal (es @ [e])" "open_fds s' = opened @ accepted_fds (es @ [e])"
      using inv acc(1) by (simp_all add: main_inv_def new slist_insert_head_def Accepted)
    moreover have "main_at s' = Sweeping" by (simp add: new)
    ultimately show ?thesis by (intro exI [of _ "p # ps"]) (simp add: main_inv_def)
  qed
next
  case Accept_failed
  with step inv show ?thesis
    by (intro exI [of _ ps]) (auto simp: main_inv_def split: if_splits main_pc.splits)
next
  case (Interrupted signo)
  with step inv show ?thesis
    by (intro exI [of _ ps]) (auto simp: main_inv_def Interrupted signal_handler_def split: if_splits main_pc.splits)
next
  case Proceed
  have t: "threads_inv s ps" using inv by (simp add: main_inv_def)
  then have l: "list_inv s ps" by (simp add: threads_inv_def)
  show ?thesis
  proof (cases "main_at s")
    case Testing
    with step inv show ?thesis
      by (intro exI [of _ ps]) (auto simp: main_inv_def Proceed test_loop_def split: if_splits)
  next
    case Sweeping
    with step inv sweep_cases [OF l] show ?thesis
      by (intro exI [of _ ps]) (auto simp: main_inv_def Proceed)
  next
    case Joining
    with step have join: "join_first h s = Some (Inr s')" by (simp add: Proceed)
    show ?thesis
    proof (cases "slist_head s")
      case None
      with threads_inv_head [OF t] join have "ps = []" "s' = s\<lparr>open_fds := remove1 h (open_fds s),
          main_at := Exited (if b_accept_connections s then - 1 else 0)\<rparr>"
        by (simp_all add: join_first_def)
      with inv Joining t show ?thesis
        by (intro exI [of _ "[]"]) (simp add: main_inv_def Proceed threads_inv_def list_inv_def)
    next
      case (Some p)
      with threads_inv_head [OF t] obtain n qs where p: "ps = p # qs" "nodes s p = Some n" "chain (nodes s) (next_node n) qs"
        by auto
      with Some join have done1: "b_is_thread_complete n" "s' = free_node p (s\<lparr>joined := joined s @ [p], slist_head := next_node n\<rparr>)"
        by (simp_all add: join_first_def split: if_splits)
      with threads_inv_join [OF t [unfolded p(1)] p(2,3)] have "threads_inv s' qs" by simp
      with inv Joining p(1,2) done1 show ?thesis
        by (intro exI [of _ qs]) (auto simp: main_inv_def Proceed free_node_def)
    qed
  qed (use step in \<open>simp_all add: Proceed\<close>)
qed

text \<open>The one fault, and where the main thread waits.\<close>

lemma main_step_fault:
  assumes inv: "main_inv h opened es ps s" and step: "main_step h e s = Some (Inl f)"
  shows "f = UseAfterFree \<and> main_at s = Sweeping \<and> (\<exists>p. Completes p \<in> set es)"
proof -
  have t: "threads_inv s ps" using inv by (simp add: main_inv_def)
  then have l: "list_inv s ps" by (simp add: threads_inv_def)
  have "e = Proceed" using step by (cases e) (auto split: main_pc.splits option.splits if_splits)
  moreover have "join_first h s \<noteq> Some (Inl f)"
    using threads_inv_head [OF t] by (auto simp: join_first_def split: option.splits)
  ultimately have "main_at s = Sweeping" "sweep (slist_head s) s = Some (Inl f)"
    using step by (auto split: main_pc.splits option.splits sum.splits)
  with sweep_cases [OF l] inv show ?thesis by (auto simp: main_inv_def)
qed

definition waits_for_thread :: "server \<Rightarrow> bool" where
  "waits_for_thread s \<longleftrightarrow> main_at s = Joining
     \<and> (\<exists>p n. slist_head s = Some p \<and> nodes s p = Some n \<and> \<not> b_is_thread_complete n)"

lemma main_proceeds:
  assumes inv: "main_inv h opened es ps s"
  shows "main_step h Proceed s = None \<longleftrightarrow> main_at s = Accepting \<or> waits_for_thread s \<or> exit_code s \<noteq> None"
proof -
  have t: "threads_inv s ps" using inv by (simp add: main_inv_def)
  then have l: "list_inv s ps" by (simp add: threads_inv_def)
  show ?thesis
    using sweep_cases [OF l] threads_inv_head [OF t]
    by (cases "main_at s") (auto simp: waits_for_thread_def exit_code_def join_first_def split: option.splits)
qed

lemma run_main_inv:
  "main_inv h opened es0 ps s0 \<Longrightarrow> run_main h es s0 = Some (Inr s) \<Longrightarrow> \<exists>qs. main_inv h opened (es0 @ es) qs s"
proof (induction es arbitrary: es0 ps s0)
  case (Cons e es)
  then obtain s1 where s1: "main_step h e s0 = Some (Inr s1)" "run_main h es s1 = Some (Inr s)"
    by (auto split: option.splits sum.splits)
  from main_step_inv [OF Cons.prems(1) s1(1)] obtain qs where "main_inv h opened (es0 @ [e]) qs s1" ..
  from Cons.IH [OF this s1(2)] show ?case by simp
qed auto

lemma run_main_fault:
  "main_inv h opened es0 ps s0 \<Longrightarrow> run_main h es s0 = Some (Inl f) \<Longrightarrow>
    f = UseAfterFree \<and> (\<exists>p. Completes p \<in> set (es0 @ es))"
proof (induction es arbitrary: es0 ps s0)
  case (Cons e es)
  show ?case
  proof (cases "main_step h e s0")
    case (Some r)
    show ?thesis
    proof (cases r)
      case (Inl f')
      with main_step_fault [OF Cons.prems(1), of e f'] Cons.prems(2) Some show ?thesis by auto
    next
      case (Inr s1)
      from main_step_inv [OF Cons.prems(1) Some [unfolded Inr]] obtain qs where "main_inv h opened (es0 @ [e]) qs s1" ..
      from Cons.IH [OF this] Cons.prems(2) Some Inr show ?thesis by simp
    qed
  qed (use Cons.prems in simp)
qed simp

section \<open>The exit\<close>

definition started :: "start_env \<Rightarrow> byte list list \<Rightarrow> bool" where
  "started E args \<longleftrightarrow> fst (bind_to_address (resolved E)) \<and> sigaction_int E \<noteq> - 1 \<and> sigaction_term E \<noteq> - 1 \<and> listen E \<noteq> - 1
     \<and> (parse_arguments args = Some False \<or> parse_arguments args = Some True \<and> daemonize_process (daemon E) = Returned True)"

lemma server_main_started:
  assumes "started E args"
  shows "\<exists>opened. server_main E args es =
    (case run_main (bound_socket E) es ((initial_server (bound_socket E))\<lparr>open_fds := opened\<rparr>) of
       None \<Rightarrow> None | Some (Inl e) \<Rightarrow> Some (Inl e) | Some (Inr s) \<Rightarrow> Some (Inr (exit_code s, False, s)))"
proof -
  obtain bound h opened where b: "bind_to_address (resolved E) = (bound, h, opened)" by (cases "bind_to_address (resolved E)")
  with assms show ?thesis
    by (intro exI [of _ "map unat opened"])
      (auto simp: started_def server_main_def assign_signal_handler_def bound_socket_def Let_def)
qed

lemma server_main_not_started:
  assumes "\<not> started E args"
  shows "\<exists>s. server_main E args es = Some (Inr (Some (if parse_arguments args = Some True \<and> fst (bind_to_address (resolved E))
          \<and> daemonize_process (daemon E) = Exit_success then 0 else - 1), parse_arguments args = None, s))
    \<and> slist_head s = None \<and> nodes s = Map.empty"
proof -
  obtain bound h opened where b: "bind_to_address (resolved E) = (bound, h, opened)" by (cases "bind_to_address (resolved E)")
  show ?thesis
  proof (cases "parse_arguments args")
    case None
    then show ?thesis by (simp add: server_main_def initial_server_def)
  next
    case (Some daemonize)
    then show ?thesis
      using assms b
      by (cases daemonize; cases "daemonize_process (daemon E)")
        (auto simp: started_def server_main_def assign_signal_handler_def initial_server_def Let_def)
  qed
qed

end
