(* ===== verification/Seek_Command.thy ===== *)
theory Seek_Command
  imports C_Library
begin

text \<open>
  The text of the seek command from the client's side, and its way to the driver: what a client
  prints is what \<open>sscanf\<close> of the service thread finds and what the driver reads from the bytes
  that the ioctl passes.
\<close>

section \<open>Decimal numbers\<close>

function digits :: "nat \<Rightarrow> byte list" where
  "digits n = (if n < 10 then [of_nat (48 + n)] else digits (n div 10) @ [of_nat (48 + n mod 10)])"
  by pat_completeness auto

termination by (relation "measure id") auto

declare digits.simps [simp del]

lemma unat_digit: "d < 10 \<Longrightarrow> unat (of_nat (48 + d) :: byte) = 48 + d"
  by (intro unat_of_nat_less) simp

lemma isdigit_digit: "d < 10 \<Longrightarrow> isdigit (of_nat (48 + d))"
  unfolding isdigit_def word_le_nat_alt by (simp only: unat_digit) simp

lemma decimal_snoc: "decimal (ds @ [c]) = 10 * decimal ds + (unat c - 48)"
  by (simp add: decimal_def)

lemma digits_props: "decimal (digits n) = n \<and> digits n \<noteq> [] \<and> list_all isdigit (digits n)"
proof (induction n rule: digits.induct)
  case (1 n)
  show ?case
  proof (cases "n < 10")
    case True
    then show ?thesis
      using unat_digit [OF True] isdigit_digit [OF True]
      by (subst (1 2 3) digits.simps) (simp add: decimal_def)
  next
    case False
    have m: "n mod 10 < 10" by simp
    from 1 [OF False] False show ?thesis
      using unat_digit [OF m] isdigit_digit [OF m]
      by (subst (1 2 3) digits.simps) (simp add: decimal_snoc)
  qed
qed

lemma isdigit_not_special:
  assumes "isdigit c"
  shows "\<not> isspace c" and "c \<noteq> 45" and "c \<noteq> 43"
proof -
  have c: "48 \<le> unat c" "unat c \<le> 57" using assms by (simp_all add: isdigit_def word_le_nat_alt)
  show "\<not> isspace c" unfolding isspace_def word_le_nat_alt using c by auto
  show "c \<noteq> 45" and "c \<noteq> 43" using c by auto
qed

text \<open>A printed number is scanned back, up to the first character that is no digit.\<close>

lemma scan_unsigned_digits:
  assumes n: "n < 2 ^ 32" and stop: "\<not> isdigit c"
  shows "scan_unsigned (digits n @ c # rest) = Some (of_nat n, c # rest)"
proof -
  obtain d ds where ds: "digits n = d # ds" and all: "list_all isdigit (d # ds)" and dec: "decimal (d # ds) = n"
    using digits_props [of n] by (cases "digits n") auto
  have d: "\<not> isspace d" "d \<noteq> 45" "d \<noteq> 43" using all isdigit_not_special [of d] by simp_all
  have all': "\<And>x. x \<in> set (d # ds) \<Longrightarrow> isdigit x" using all by (simp only: list_all_iff)
  have "takeWhile isdigit ((d # ds) @ c # rest) = d # ds" and "dropWhile isdigit ((d # ds) @ c # rest) = c # rest"
    using takeWhile_append2 [of "d # ds" isdigit "c # rest"] dropWhile_append2 [of "d # ds" isdigit "c # rest"] all' stop
    by auto
  moreover have "(ucast (of_nat n :: size_t) :: uint32_t) = of_nat n"
  proof -
    have "(ucast w :: uint32_t) = of_nat (unat w)" for w :: size_t by simp
    moreover have "unat (of_nat n :: size_t) = n" using n by (intro unat_of_nat_less) simp
    ultimately show ?thesis by metis
  qed
  ultimately show ?thesis
    using n d dec by (simp add: scan_unsigned_def ds Let_def)
qed

section \<open>The command\<close>

definition seek_text :: "aesd_seekto \<Rightarrow> byte list" where
  "seek_text q = AESDCHAR_IOCSEEKTO_CMD_STR @ [58] @ digits (unat (write_cmd q)) @ [44]
     @ digits (unat (write_cmd_offset q)) @ [newline]"

lemma unat_32_less: "unat (w :: uint32_t) < 2 ^ 32"
  using unsigned_less [of w] by simp

lemma sscanf_seek_text: "sscanf_seekto (seek_text q) junk = q"
proof -
  have "scan_unsigned (digits (unat (write_cmd q)) @ 44 # digits (unat (write_cmd_offset q)) @ [newline])
      = Some (write_cmd q, 44 # digits (unat (write_cmd_offset q)) @ [newline])"
    using scan_unsigned_digits [OF unat_32_less, of 44 "write_cmd q"] by (simp add: isdigit_def)
  moreover have "scan_unsigned (digits (unat (write_cmd_offset q)) @ [newline]) = Some (write_cmd_offset q, [newline])"
    using scan_unsigned_digits [OF unat_32_less, of newline "write_cmd_offset q" "[]"] by (simp add: isdigit_def)
  ultimately show ?thesis
    by (simp add: sscanf_seekto_def seek_text_def Let_def)
qed

end
