(* ===== verification/Socket_Properties.thy ===== *)
theory Socket_Properties
  imports Socket_Proofs Socket_Main Seek_Command
begin

text \<open>The properties of the socket server: its service threads on the driver, and its main program.\<close>

section \<open>Concrete connections\<close>

text \<open>A client that takes two bytes at a time, and a stream that writes in one piece.\<close>

definition demo_service :: service_env where
  "demo_service = \<lparr>kern = demo_kernel, conf = \<lparr>write_split = (\<lambda>bs. [bs]), read_size = 4096\<rparr>,
     send = (\<lambda>n bs. of_nat (min 2 (length bs)))\<rparr>"

definition demo_answers :: answers where
  "demo_answers = \<lparr>lock_ok = True, realloc_ok = True, realloc_junk = (\<lambda>i. 255), fopen_ok = True,
     seekto_junk = \<lparr>write_cmd = 77, write_cmd_offset = 5\<rparr>\<rparr>"

lemma demo_service_ok: "service_env_ok demo_service"
  by (simp add: service_env_ok_def demo_service_def stdio_conf_ok_def demo_kernel_serving send_serves_def)

lemma demo_service_split [simp]: "write_split (conf demo_service) x = [x]"
  by (simp add: demo_service_def)

lemma demo_round_ok: "0 \<notin> set b \<Longrightarrow> length b < 100 \<Longrightarrow> round_ok (b, demo_answers)"
  by (simp add: round_ok_def demo_answers_def)

lemma service_loop_append:
  "service_loop E (map (\<lambda>(b, a). Received b a) rs) d c = Some (Inr (d', c', False)) \<Longrightarrow>
    service_loop E (map (\<lambda>(b, a). Received b a) rs @ ys) d c = service_loop E ys d' c'"
proof (induction rs arbitrary: d c)
  case (Cons r rs)
  then show ?case
    by (cases r) (auto split: option.splits sum.splits prod.splits if_splits)
qed simp

section \<open>The service thread\<close>

text \<open>
  C3: A connection that delivers text without zero bytes and without the name of the seek
  command, in any pieces \<open>recv\<close> may cut it into, is served without fault: no write outside
  the string buffer, no null stream. On every newline everything received so far is
  written to the device and the contents of the device are sent back in full and in order,
  however \<open>send\<close> splits them; on close the thread ends with its flag set.
\<close>

theorem service_thread_refines:
  assumes E: "service_env_ok E" and inv: "driver_inv d" and rs: "list_all round_ok rs"
    and cmd: "\<not> strstr (concat (map fst rs)) AESDCHAR_IOCSEEKTO_CMD_STR"
    and size: "length (concat (map fst rs)) + length rs < 2 ^ 31"
    and room: "device_bytes (dev_abs d) + length rs * length (concat (map fst rs)) < 2 ^ 31"
  shows "\<exists>d' c'. service_thread E True (map (\<lambda>(b, a). Received b a) rs @ [Closed]) d = Some (Inr (d', c', True))
    \<and> driver_inv d' \<and> (dev_abs d', sent_back c') = spec_service (write_split (conf E)) (dev_abs d) [] (map fst rs)"
proof -
  obtain d' c' where loop: "service_loop E (map (\<lambda>(b, a). Received b a) rs) d new_conn = Some (Inr (d', c', False))"
    and d': "driver_inv d'" "dev_abs d' = fst (spec_service (write_split (conf E)) (dev_abs d) [] (map fst rs))"
      "sent_back c' = sent_back new_conn @ snd (spec_service (write_split (conf E)) (dev_abs d) [] (map fst rs))"
    using service_loop_ok [OF E inv conn_ok_new rs] cmd size room by (auto simp: new_conn_def)
  show ?thesis
    using service_loop_append [OF loop, of "[Closed]"] d'
    by (simp add: service_thread_def) (simp add: new_conn_def)
qed

theorem service_thread_refines_witness:
  "\<exists>d' c'. service_thread demo_service True
      [Received [104, 105] demo_answers, Received [10] demo_answers, Closed] initial_driver = Some (Inr (d', c', True))
    \<and> dev_abs d' = \<lparr>commands = [[104, 105, 10]], partial = []\<rparr> \<and> sent_back c' = [104, 105, 10]"
proof -
  have "\<not> strstr [104, 105, 10] AESDCHAR_IOCSEEKTO_CMD_STR"
    by (simp add: AESDCHAR_IOCSEEKTO_CMD_STR_def)
  then show ?thesis
    using service_thread_refines [OF demo_service_ok driver_inv_initial,
        of "[([104, 105], demo_answers), ([10], demo_answers)]"]
    by (simp add: demo_round_ok dev_abs_initial empty_device_def device_bytes_def contents_def spec_write_def Let_def)
      blast
qed

text \<open>
  C31: The buffer is not emptied after a line was served: a second line on the same connection
  makes the thread write the first line again, so that the device stores the first line
  and then both lines together.
\<close>

theorem second_line_repeats_first:
  assumes E: "service_env_ok E" and split: "\<And>x. write_split (conf E) x = [x]" and inv: "driver_inv d"
    and empty: "partial (dev_abs d) = []" and r: "round_ok (l1, a1)" "round_ok (l2, a2)"
    and nl: "newline \<in> set l1" "newline \<in> set l2"
    and cmd: "\<not> strstr (l1 @ l2) AESDCHAR_IOCSEEKTO_CMD_STR"
    and room: "device_bytes (dev_abs d) < 2 ^ 30"
  shows "\<exists>d' c'. service_thread E True [Received l1 a1, Received l2 a2] d = Some (Inr (d', c', False))
    \<and> commands (dev_abs d') = keep_last 10 (commands (dev_abs d) @ [l1, l1 @ l2])"
proof -
  have "length l1 < 100" "length l2 < 100" using r by (simp_all add: round_ok_def)
  then obtain d' c' where "service_loop E [Received l1 a1, Received l2 a2] d new_conn = Some (Inr (d', c', False))"
    and "dev_abs d' = fst (spec_service (write_split (conf E)) (dev_abs d) [] [l1, l2])"
    using service_loop_ok [OF E inv conn_ok_new, of "[(l1, a1), (l2, a2)]"] r cmd room
    by (auto simp: new_conn_def)
  moreover have "commands (fst (spec_service (write_split (conf E)) (dev_abs d) [] [l1, l2]))
      = keep_last 10 (commands (dev_abs d) @ [l1, l1 @ l2])"
    using nl by (simp add: split spec_write_def empty keep_last_append Let_def)
  ultimately show ?thesis by (simp add: service_thread_def)
qed

theorem second_line_repeats_first_witness:
  "\<exists>d' c'. service_thread demo_service True [Received [65, 10] demo_answers, Received [66, 10] demo_answers] initial_driver
      = Some (Inr (d', c', False))
    \<and> commands (dev_abs d') = [[65, 10], [65, 10, 66, 10]]"
proof -
  have "\<not> strstr ([65, 10] @ [66, 10]) AESDCHAR_IOCSEEKTO_CMD_STR"
    by (simp add: AESDCHAR_IOCSEEKTO_CMD_STR_def)
  from second_line_repeats_first [OF demo_service_ok demo_service_split driver_inv_initial _ _ _ _ _ this]
  show ?thesis
    by (simp add: demo_round_ok dev_abs_initial empty_device_def device_bytes_def contents_def)
qed




section \<open>The seek command of a client\<close>

text \<open>The position a seek command on a freshly opened device leads to.\<close>

definition seek_target :: "device \<Rightarrow> aesd_seekto \<Rightarrow> nat" where
  "seek_target s q =
     (let c = (if write_cmd q = 10 then 0 else unat (write_cmd q)); off = unat (write_cmd_offset q) in
      if c < length (commands s) \<and> off < length (commands s ! c)
      then sum_list (take c (map length (commands s))) + off else 0)"

lemma seek_target_le: "seek_target s q \<le> length (contents s)"
proof -
  have "sum_list (take c ls) + off \<le> sum_list ls" if "c < length ls" "off < ls ! c" for c off and ls :: "nat list"
    using sum_list_take_le [of "Suc c" ls] that by (simp add: sum_list_take_Suc)
  then show ?thesis by (auto simp: seek_target_def Let_def length_contents)
qed

lemma ioctl_on_open:
  assumes inv: "driver_inv d" and K: "serving K" and small: "length (contents (dev_abs d)) < 2 ^ 31"
  shows "\<exists>r. aesd_ioctl K d (fil open_stream) AESDCHAR_IOCSEEKTO (bytes_of_seekto q)
    = Inr (d, (fil open_stream)\<lparr>f_pos := of_nat (seek_target (dev_abs d) q)\<rparr>, r)"
proof -
  have ok: "kernel_ok K" "mutex_lock_interruptible K = 0" "snd (copy_from_user K (bytes_of_seekto x) 8) = 0" for x
    using K by (simp_all add: serving_def)
  have same: "(fil open_stream)\<lparr>f_pos := 0\<rparr> = fil open_stream" by (simp add: open_stream_def aesd_open_def)
  have main: "\<exists>r. aesd_ioctl K d (fil open_stream) AESDCHAR_IOCSEEKTO (bytes_of_seekto x)
      = Inr (d, (fil open_stream)\<lparr>f_pos := of_nat (seek_target (dev_abs d) x)\<rparr>, r)" if "write_cmd x \<noteq> 10" for x
    using aesd_ioctl_seekto [OF inv ok(1) _ ok(2,3) that small, of "fil open_stream"] that same
    by (auto simp: spec_seekto_def seek_target_def Let_def)
  show ?thesis
  proof (cases "write_cmd q = 10")
    case False
    then show ?thesis by (rule main)
  next
    case True
    then have q: "q = \<lparr>write_cmd = 10, write_cmd_offset = write_cmd_offset q\<rparr>" by simp
    have "aesd_ioctl K d (fil open_stream) AESDCHAR_IOCSEEKTO (bytes_of_seekto q)
        = aesd_ioctl K d (fil open_stream) AESDCHAR_IOCSEEKTO
            (bytes_of_seekto \<lparr>write_cmd = 0, write_cmd_offset = write_cmd_offset q\<rparr>)"
      by (subst q) (rule aesd_ioctl_ten [OF inv ok(1,3,3)])
    moreover have "seek_target (dev_abs d) \<lparr>write_cmd = 0, write_cmd_offset = write_cmd_offset q\<rparr> = seek_target (dev_abs d) q"
      using True by (simp add: seek_target_def)
    ultimately show ?thesis using main [of "\<lparr>write_cmd = 0, write_cmd_offset = write_cmd_offset q\<rparr>"] by simp
  qed
qed

text \<open>
  C21: As soon as the received text contains the name of the seek command, a newline makes the
  thread send the device a seek command with the numbers that \<open>sscanf\<close> finds at the start of
  the text (or with uninitialised ones), nothing of the text is stored, and the client gets
  the contents from the addressed byte on, or all of them if there is no such byte.
\<close>

theorem seek_command_served:
  assumes E: "service_env_ok E" and a: "fopen_ok a" and inv: "driver_inv d"
    and some: "commands (dev_abs d) \<noteq> []" and small: "length (contents (dev_abs d)) < 2 ^ 31"
    and cmd: "strstr (c_string blk) AESDCHAR_IOCSEEKTO_CMD_STR"
  shows "serve_line E a d c blk = Some (Inr (d, c\<lparr>sent_back := sent_back c
    @ drop (seek_target (dev_abs d) (sscanf_seekto (c_string blk) (seekto_junk a))) (contents (dev_abs d))\<rparr>))"
proof -
  let ?q = "sscanf_seekto (c_string blk) (seekto_junk a)"
  let ?p = "seek_target (dev_abs d) ?q"
  let ?st = "open_stream\<lparr>fil := (fil open_stream)\<lparr>f_pos := of_nat ?p\<rparr>\<rparr>"
  have Es: "stdio_conf_ok (conf E)" "serving (kern E)" "send_serves (send E)"
    using E by (simp_all add: service_env_ok_def)
  obtain r where io: "aesd_ioctl (kern E) d (fil open_stream) AESDCHAR_IOCSEEKTO (bytes_of_seekto ?q)
      = Inr (d, (fil open_stream)\<lparr>f_pos := of_nat ?p\<rparr>, r)"
    using ioctl_on_open [OF inv Es(2) small] by blast
  have p: "?p \<le> length (contents (dev_abs d))" by (rule seek_target_le)
  then have pos: "unat (of_nat ?p :: loff_t) = ?p" using small by (intro unat_of_nat_less) simp
  then have ok: "stream_ok d ?st" using inv some p by (simp add: stream_ok_def)
  have rest: "to_read d ?st = drop ?p (contents (dev_abs d))" using pos by (simp add: to_read_def)
  with small have "length (to_read d ?st) < 2 ^ 31" by simp
  from writeback_ready [OF Es ok this, of "sent_back c", unfolded rest] obtain st' where "writeback E d ?st (sent_back c)
      = Some (Inr (d, st', sent_back c @ drop ?p (contents (dev_abs d)), True))" "wbuf st' = []"
    by (elim exE conjE)
  with a cmd io show ?thesis
    by (simp add: serve_line_def store_request_def Let_def close_stream_def flush_def)
qed

text \<open>The command for byte 1 of command 0, with its newline and terminating zero.\<close>

definition demo_command :: "byte list" where
  "demo_command = AESDCHAR_IOCSEEKTO_CMD_STR @ [58, 48, 44, 49, 10, 0]"

lemma demo_command_string: "c_string demo_command = AESDCHAR_IOCSEEKTO_CMD_STR @ [58, 48, 44, 49, 10]"
  by (simp add: c_string_def demo_command_def AESDCHAR_IOCSEEKTO_CMD_STR_def)

theorem seek_command_served_witness:
  "serve_line demo_service demo_answers demo_driver new_conn demo_command
    = Some (Inr (demo_driver, new_conn\<lparr>sent_back := [105, 10]\<rparr>))"
proof -
  have "sscanf_seekto (c_string demo_command) (seekto_junk demo_answers) = \<lparr>write_cmd = 0, write_cmd_offset = 1\<rparr>"
    unfolding demo_command_string
    by (simp add: sscanf_seekto_def scan_unsigned_def isspace_def isdigit_def decimal_def demo_answers_def Let_def)
  moreover have "strstr (c_string demo_command) AESDCHAR_IOCSEEKTO_CMD_STR"
    unfolding demo_command_string strstr_iff by (metis append_Nil)
  ultimately show ?thesis
    using seek_command_served [OF demo_service_ok _ demo_driver_inv, of demo_answers demo_command new_conn]
    by (simp add: demo_driver_abs contents_def seek_target_def demo_answers_def new_conn_def)
qed

text \<open>
  C40: What a client prints as the seek command, the two numbers in decimal, is what \<open>sscanf\<close>
  finds, whatever the variable held before, and what the driver reads from the bytes the
  ioctl passes, for every pair of 32-bit numbers.
\<close>

theorem seek_command_round_trip:
  "seekto_of_bytes (bytes_of_seekto (sscanf_seekto (seek_text q) junk)) = q"
  by (simp add: sscanf_seek_text seekto_roundtrip)

section \<open>The main program\<close>

text \<open>
  C30: After any accepted connection, the loop over the thread list uses a node after freeing
  it as soon as one thread of the list is complete: it frees the node and then reads its
  \<open>next\<close> field. Without a complete thread it changes nothing.
\<close>

theorem sweep_uses_freed_node:
  assumes "list_inv s ps" and "p \<in> set ps" and "nodes s p = Some n" and "b_is_thread_complete n"
  shows "sweep (slist_head s) s = Some (Inl UseAfterFree)"
proof -
  let ?P = "\<lambda>q. \<exists>n. nodes s q = Some n \<and> b_is_thread_complete n"
  from assms(2-4) have "\<exists>q \<in> set ps. ?P q" by blast
  then obtain qs q rs where ps: "ps = qs @ q # rs" and q: "?P q" and "\<forall>x \<in> set qs. \<not> ?P x"
    by (rule split_list_first_propE)
  moreover have "chain (nodes s) (slist_head s) (qs @ q # rs)"
    using assms(1) by (simp add: list_inv_def ps)
  ultimately show ?thesis
    using sweep_faults [OF assms(1), of "[]" qs q rs "slist_head s"] by auto
qed

definition two_threads :: server where
  "two_threads = (initial_server 3)\<lparr>slist_head := Some 20,
     nodes := [20 \<mapsto> \<lparr>b_is_thread_complete = False, next_node = Some 10\<rparr>,
       10 \<mapsto> \<lparr>b_is_thread_complete = True, next_node = None\<rparr>]\<rparr>"

theorem sweep_uses_freed_node_witness: "sweep (Some 20) two_threads = Some (Inl UseAfterFree)"
  using sweep_uses_freed_node [of two_threads "[20, 10]" 10]
  by (simp add: list_inv_def two_threads_def)

text \<open>Clients, with their descriptors and nodes, that connect one after the other.\<close>

fun arrivals :: "(nat \<times> nat) list \<Rightarrow> main_event list" where
  "arrivals [] = []"
| "arrivals ((fd, p) # cs) = [Proceed, Accepted fd (Some p) True, Proceed] @ arrivals cs"

definition none_complete :: "server \<Rightarrow> bool" where
  "none_complete s \<longleftrightarrow> (\<forall>p n. nodes s p = Some n \<longrightarrow> \<not> b_is_thread_complete n)"

lemma arrivals_run:
  "threads_inv s ps \<Longrightarrow> none_complete s \<Longrightarrow> main_at s = Testing \<Longrightarrow> b_accept_connections s \<Longrightarrow>
    distinct (map snd cs @ ps) \<Longrightarrow> distinct (map fst cs) \<Longrightarrow> set (map fst cs) \<inter> set (open_fds s) = {} \<Longrightarrow>
    \<exists>s'. run_main h (arrivals cs) s = Some (Inr s') \<and> threads_inv s' (rev (map snd cs) @ ps) \<and> none_complete s'
      \<and> main_at s' = Testing \<and> b_accept_connections s' \<and> joined s' = joined s \<and> open_fds s' = open_fds s @ map fst cs"
proof (induction cs arbitrary: s ps)
  case (Cons c cs)
  obtain fd p where c: "c = (fd, p)" by (cases c)
  let ?n = "\<lparr>b_is_thread_complete = False, next_node = None\<rparr>"
  let ?s1 = "s\<lparr>main_at := Accepting\<rparr>"
  let ?s2 = "(slist_insert_head p ?n (?s1\<lparr>open_fds := open_fds s @ [fd]\<rparr>))\<lparr>main_at := Sweeping\<rparr>"
  let ?s3 = "?s2\<lparr>main_at := Testing\<rparr>"
  have p: "p \<notin> set ps" "fd \<notin> set (open_fds s)" using Cons.prems(5,7) by (auto simp: c)
  then have "nodes s p = None" using Cons.prems(1) by (auto simp: threads_inv_def)
  with p Cons.prems(3,4) have first: "main_step h Proceed s = Some (Inr ?s1)"
    "main_step h (Accepted fd (Some p) True) ?s1 = Some (Inr ?s2)"
    by (simp_all add: test_loop_def fresh_client_def accept_client_def)
  have "list_inv (?s1\<lparr>open_fds := open_fds s @ [fd]\<rparr>) ps"
    using Cons.prems(1) by (simp add: threads_inv_def list_inv_def)
  from list_inv_insert [OF this p(1), of ?n] Cons.prems(1) have inv: "threads_inv ?s2 (p # ps)"
    by (simp add: threads_inv_def list_inv_def slist_insert_head_def)
  have none: "none_complete ?s2"
    using Cons.prems(2) by (auto simp: none_complete_def slist_insert_head_def)
  have "sweep (slist_head ?s2) ?s2 = Some (Inr ?s2)"
    using sweep_nothing [of ?s2 "slist_head ?s2" "p # ps"] inv none
    unfolding threads_inv_def list_inv_def none_complete_def by blast
  then have third: "main_step h Proceed ?s2 = Some (Inr ?s3)" by simp
  have rest: "threads_inv ?s3 (p # ps)" "none_complete ?s3" "main_at ?s3 = Testing" "b_accept_connections ?s3"
    "distinct (map snd cs @ p # ps)" "distinct (map fst cs)" "set (map fst cs) \<inter> set (open_fds ?s3) = {}"
    using inv none Cons.prems(4-7) by (auto simp: none_complete_def slist_insert_head_def c)
  obtain s' where "run_main h (arrivals cs) ?s3 = Some (Inr s')" "threads_inv s' (rev (map snd cs) @ p # ps)"
    "none_complete s'" "main_at s' = Testing" "b_accept_connections s'" "joined s' = joined ?s3"
    "open_fds s' = open_fds ?s3 @ map fst cs"
    using Cons.IH [OF rest] by (elim exE conjE)
  moreover have "joined ?s3 = joined s" "open_fds ?s3 = open_fds s @ [fd]" by (simp_all add: slist_insert_head_def)
  ultimately show ?case
    using first third by (intro exI [of _ s']) (simp add: c del: main_step.simps)
qed (simp add: none_complete_def)

text \<open>While a thread is running the cleanup comes to wait for one.\<close>

lemma run_until_wait:
  "threads_inv s ps \<Longrightarrow> main_at s = Joining \<Longrightarrow> \<exists>p n. nodes s p = Some n \<and> \<not> b_is_thread_complete n \<Longrightarrow>
    \<exists>k s'. run_main h (replicate k Proceed) s = Some (Inr s') \<and> waits_for_thread s'"
proof (induction ps arbitrary: s)
  case Nil
  then show ?case by (auto simp: threads_inv_def)
next
  case (Cons p ps)
  from threads_inv_head [OF Cons.prems(1)] obtain n where n: "slist_head s = Some p" "nodes s p = Some n"
    "chain (nodes s) (next_node n) ps"
    by (auto split: option.splits)
  show ?case
  proof (cases "b_is_thread_complete n")
    case False
    with n Cons.prems(2) show ?thesis by (intro exI [of _ 0] exI [of _ s]) (simp add: waits_for_thread_def)
  next
    case True
    let ?s = "free_node p (s\<lparr>joined := joined s @ [p], slist_head := next_node n\<rparr>)"
    obtain q m where q: "nodes s q = Some m" "\<not> b_is_thread_complete m" using Cons.prems(3) by blast
    with n(2) True have "q \<noteq> p" by auto
    with q have "\<exists>q n. nodes ?s q = Some n \<and> \<not> b_is_thread_complete n"
      by (intro exI [of _ q] exI [of _ m]) (simp add: free_node_def)
    from Cons.IH [OF threads_inv_join [OF Cons.prems(1) n(2,3)] _ this] Cons.prems(2) obtain k s' where
      "run_main h (replicate k Proceed) ?s = Some (Inr s')" "waits_for_thread s'" by (auto simp: free_node_def)
    moreover have "main_step h Proceed s = Some (Inr ?s)" using n True Cons.prems(2) by (simp add: join_first_def)
    ultimately show ?thesis by (intro exI [of _ "Suc k"] exI [of _ s']) (simp del: main_step.simps)
  qed
qed

text \<open>
  C26: Clients connect, and before any of their threads completes the server is stopped:
  SIGINT or SIGTERM interrupts \<open>accept\<close> or comes before the test of the loop, or \<open>accept\<close> fails.
  Then some threads complete, in any order, before the cleanup begins. If one is still
  running, \<open>main\<close> comes to wait for a thread; if all have completed, \<open>main\<close> joins every thread exactly once, frees every node, closes the
  listening socket and returns 0 exactly when it was stopped by SIGINT or SIGTERM; but the
  descriptors of all client connections are still open.
\<close>

theorem server_stops_cleanly:
  assumes clients: "distinct (map fst clients)" "h \<notin> set (map fst clients)" "distinct (map snd clients)"
    and signo: "signo = SIGINT \<or> signo = SIGTERM"
    and stop: "stop \<in> {[Proceed, Interrupted signo], [Signal signo, Proceed], [Proceed, Accept_failed]}"
    and ended: "distinct completed" "set completed \<subseteq> set (map snd clients)"
  shows "\<exists>s. run_main h (arrivals clients @ stop @ map Completes completed) (initial_server h) = Some (Inr s)
    \<and> (if set completed \<noteq> set (map snd clients)
       then \<exists>k s'. run_main h (replicate k Proceed) s = Some (Inr s') \<and> waits_for_thread s'
       else \<exists>s'. run_main h (replicate (Suc (length clients)) Proceed) s = Some (Inr s')
         \<and> exit_code s' = Some (if stop_signal stop then 0 else - 1) \<and> joined s' = rev (map snd clients)
         \<and> slist_head s' = None \<and> nodes s' = Map.empty \<and> open_fds s' = map fst clients)"
proof -
  let ?ps = "rev (map snd clients)"
  obtain s1 where s1: "run_main h (arrivals clients) (initial_server h) = Some (Inr s1)" "threads_inv s1 ?ps"
    "none_complete s1" "main_at s1 = Testing" "b_accept_connections s1" "joined s1 = []" "open_fds s1 = h # map fst clients"
    using arrivals_run [of "initial_server h" "[]" clients h] clients
    by (auto simp: threads_inv_def list_inv_def none_complete_def initial_server_def)
  let ?s2 = "s1\<lparr>main_at := Joining, b_accept_connections := \<not> stop_signal stop\<rparr>"
  have stopped: "run_main h stop s1 = Some (Inr ?s2)"
    using stop signo s1(4,5) by (auto simp: test_loop_def signal_handler_def caught_def)
  let ?s = "?s2\<lparr>nodes := mark (set completed) (nodes s1)\<rparr>"
  have dom: "dom (nodes s1) = set (map snd clients)" using s1(2) by (simp add: threads_inv_def)
  have "\<forall>p \<in> set completed. \<exists>n. nodes ?s2 p = Some n \<and> \<not> b_is_thread_complete n"
  proof
    fix p assume "p \<in> set completed"
    then have "p \<in> dom (nodes s1)" using ended(2) dom by blast
    with s1(3) show "\<exists>n. nodes ?s2 p = Some n \<and> \<not> b_is_thread_complete n" by (auto simp: none_complete_def)
  qed
  from run_completes [OF ended(1) this, of h]
  have run: "run_main h (arrivals clients @ stop @ map Completes completed) (initial_server h) = Some (Inr ?s)"
    by (simp add: run_main_append [OF s1(1)] run_main_append [OF stopped])
  have l: "list_inv ?s ?ps" using s1(2) chain_mark by (simp add: threads_inv_def list_inv_def)
  then have t: "threads_inv ?s ?ps" using dom by (simp add: threads_inv_def)
  show ?thesis
  proof (cases "set completed = set (map snd clients)")
    case False
    then obtain p where p: "p \<in> set (map snd clients)" "p \<notin> set completed" using ended(2) by blast
    then obtain n where "nodes s1 p = Some n" using dom by blast
    with p s1(3) have "\<exists>p n. nodes ?s p = Some n \<and> \<not> b_is_thread_complete n"
      by (intro exI [of _ p] exI [of _ n]) (simp add: mark_def none_complete_def)
    from run_until_wait [OF t _ this, of h] False run show ?thesis by simp
  next
    case True
    have "\<forall>p \<in> set ?ps. \<exists>n. nodes ?s p = Some n \<and> b_is_thread_complete n"
    proof
      fix p assume "p \<in> set ?ps"
      then have "p \<in> set completed" "p \<in> dom (nodes s1)" using True dom by simp_all
      then show "\<exists>n. nodes ?s p = Some n \<and> b_is_thread_complete n" by (auto simp: mark_def)
    qed
    from run_joins [OF l this, of h] obtain s' where "run_main h (replicate (Suc (length clients)) Proceed) ?s = Some (Inr s')"
      "main_at s' = Exited (if stop_signal stop then 0 else - 1)" "slist_head s' = None" "joined s' = ?ps"
      "dom (nodes s') = {}" "open_fds s' = map fst clients"
      using s1 dom by auto
    with True run show ?thesis by (intro exI [of _ ?s]) (auto simp: exit_code_def)
  qed
qed

theorem server_stops_cleanly_witness:
  "\<exists>s s'. run_main 3 (arrivals [(4, 10), (5, 20)] @ [Proceed, Interrupted SIGTERM] @ [Completes 10, Completes 20])
      (initial_server 3) = Some (Inr s)
    \<and> run_main 3 [Proceed, Proceed, Proceed] s = Some (Inr s') \<and> exit_code s' = Some 0
    \<and> joined s' = [20, 10] \<and> open_fds s' = [4, 5]"
  using server_stops_cleanly [of "[(4, 10), (5, 20)]" 3 SIGTERM "[Proceed, Interrupted SIGTERM]" "[10, 20]"]
  by (auto simp del: run_main.simps(2) arrivals.simps simp: insert_commute)

text \<open>
  C39: Binding succeeds exactly when \<open>getaddrinfo\<close> does and one of its addresses passes all three
  calls; it then returns the socket of the first such address. The sockets of earlier
  addresses on which a later call failed are never closed, nor are any when it fails.
\<close>

theorem bind_leaves_sockets_open:
  "case bind_to_address r of (ok, h, opened) \<Rightarrow>
    (ok \<longleftrightarrow> (\<exists>as. r = Some as \<and> list_ex usable as))
    \<and> opened = (case r of None \<Rightarrow> [] | Some as \<Rightarrow>
        map socket (filter (\<lambda>a. socket a \<noteq> - 1) (takeWhile (\<lambda>a. \<not> usable a) as)) @ (if ok then [h] else []))"
proof (cases r)
  case None
  then show ?thesis by (simp add: bind_to_address_def)
next
  case (Some as)
  have "list_ex usable as \<longleftrightarrow> dropWhile (\<lambda>a. \<not> usable a) as \<noteq> []"
    by (auto simp: list_ex_iff)
  then show ?thesis
    by (cases "dropWhile (\<lambda>a. \<not> usable a) as")
      (auto simp: Some bind_to_address_def try_addresses_eq Let_def simp del: dropWhile_eq_Nil_conv)
qed






end
