(* ===== verification/Service_Threads.thy ===== *)
theory Service_Threads
  imports Socket_Proofs
begin

text \<open>
  All service threads of \<^verbatim>\<open>server/aesdsocket.c\<close> at once, on one device and one mutex. A step is one
  call by one thread: \<open>recv\<close> with the string handling that follows it, locking, \<open>fopen\<close>, one
  write to or read from the device, one \<open>send\<close>, \<open>fclose\<close>, unlocking. The scheduler is free. The
  steps of a request are related to the function \<open>serve_line\<close> that performs it in one go, and
  every run is shown to be a run of whole requests, one after the other.
\<close>

section \<open>State\<close>

text \<open>The call a thread makes next, with the locals that are live there.\<close>

datatype service_pc =
    Receiving
  | Locking answers
  | Opening answers
  | Storing answers
  | Flushing stream "byte list list"
  | Reading stream
  | Sending stream "byte list" c_int
  | Closing stream
  | Unlocking
  | Ended

text \<open>\<open>inbox\<close> lists what \<open>recv\<close> is still going to return to the thread.\<close>

record worker =
  inbox :: "recv_result list"
  vars :: conn
  at :: service_pc

record service_sys =
  shared :: driver
  mutex :: "nat option"
  workers :: "nat \<Rightarrow> worker"

section \<open>One call of a thread\<close>

text \<open>The thread frees its text and ends.\<close>

definition end_worker :: "recv_result list \<Rightarrow> conn \<Rightarrow> worker" where
  "end_worker rs c = \<lparr>inbox = rs, vars = c\<lparr>p_malloc_buf := None\<rparr>, at = Ended\<rparr>"

text \<open>
  \<open>recv\<close> and what follows it up to the next call. \<open>None\<close>: nothing has arrived yet.
\<close>

definition receive_step :: "worker \<Rightarrow> (fault + worker) option" where
  "receive_step w =
     (case inbox w of
        [] \<Rightarrow> None
      | Closed # rs \<Rightarrow> Some (Inr (end_worker rs (vars w)))
      | Failed # rs \<Rightarrow> Some (Inr (end_worker rs (vars w)))
      | Received bytes a # rs \<Rightarrow>
          (case receive_text a bytes (vars w) of
             Inl e \<Rightarrow> Some (Inl e)
           | Inr (c, None) \<Rightarrow> Some (Inr (end_worker rs c))
           | Inr (c, Some b_contains_newline) \<Rightarrow>
               Some (Inr \<lparr>inbox = rs, vars = c, at = if b_contains_newline then Locking a else Receiving\<rparr>)))"

text \<open>
  The calls between locking and unlocking. The first \<open>getline\<close> writes out what \<open>fprintf\<close> left in
  the stream, in the pieces of \<open>write_split\<close>; it reads on until it has a line or the end.
\<close>

fun request_step :: "service_env \<Rightarrow> driver \<Rightarrow> conn \<Rightarrow> service_pc \<Rightarrow> fault + driver \<times> conn \<times> service_pc" where
  "request_step E d c (Opening a) = (if fopen_ok a then Inr (d, c, Storing a) else Inl NullDeref)"
| "request_step E d c (Storing a) =
     (case p_malloc_buf c of
        None \<Rightarrow> Inl NullDeref
      | Some blk \<Rightarrow>
          (case store_request E a d (c_string blk) of
             Inl e \<Rightarrow> Inl e
           | Inr (d', st) \<Rightarrow> Inr (d', c,
               Flushing (st\<lparr>wbuf := []\<rparr>) (if wbuf st = [] then [] else write_split (conf E) (wbuf st)))))"
| "request_step E d c (Flushing st []) = Inr (d, c, Reading st)"
| "request_step E d c (Flushing st (p # ps)) =
     (case aesd_write (kern E) d (fil st) p (of_nat (length p)) of
        Inl e \<Rightarrow> Inl e
      | Inr (d', r) \<Rightarrow> Inr (d', c, if sint r < 0 then Closing st else Flushing st ps))"
| "request_step E d c (Reading st) =
     (if newline \<in> set (rbuf st) then
        let line = takeWhile (\<lambda>x. x \<noteq> newline) (rbuf st) @ [newline]
        in Inr (d, c, Sending (st\<lparr>rbuf := drop (length line) (rbuf st)\<rparr>) line 0)
      else case aesd_read (kern E) d (fil st) (read_size (conf E)) of
          Inl e \<Rightarrow> Inl e
        | Inr (d', filp', bs, r) \<Rightarrow>
            if sint r \<le> 0 then
              Inr (d', c, if rbuf st = [] then Closing (st\<lparr>fil := filp', rbuf := []\<rparr>)
                 else Sending (st\<lparr>fil := filp', rbuf := []\<rparr>) (rbuf st) 0)
            else Inr (d', c, Reading (st\<lparr>fil := filp', rbuf := rbuf st @ bs\<rparr>)))"
| "request_step E d c (Sending st line total_bytes_written) =
     (if sint total_bytes_written < int (length line) then
        let rest = drop (nat (sint total_bytes_written)) line;
            bytes_written = (ucast (send E (length (sent_back c)) rest) :: c_int)
        in if bytes_written = - 1 then Inr (d, c, Closing st)
           else Inr (d, c\<lparr>sent_back := sent_back c @ take (nat (sint bytes_written)) rest\<rparr>,
                  Sending st line (total_bytes_written + bytes_written))
      else Inr (d, c, Reading st))"
| "request_step E d c (Closing st) =
     (case close_stream (conf E) (kern E) d st of Inl e \<Rightarrow> Inl e | Inr d' \<Rightarrow> Inr (d', c, Unlocking))"
| "request_step E d c pc = Inr (d, c, pc)"

text \<open>
  The next call of thread \<open>t\<close>; \<open>None\<close> when it waits for data or for the mutex, or has ended. A
  failed \<open>pthread_mutex_lock\<close> is only logged.
\<close>

definition worker_step :: "service_env \<Rightarrow> nat \<Rightarrow> service_sys \<Rightarrow> (fault + service_sys) option" where
  "worker_step E t s =
     (let w = workers s t;
          put = (\<lambda>w' s'. Some (Inr (s'\<lparr>workers := (workers s')(t := w')\<rparr>)))
      in case at w of
        Receiving \<Rightarrow>
          (case receive_step w of None \<Rightarrow> None | Some (Inl e) \<Rightarrow> Some (Inl e) | Some (Inr w') \<Rightarrow> put w' s)
      | Locking a \<Rightarrow>
          (if \<not> lock_ok a then put (w\<lparr>at := Opening a\<rparr>) s
           else if mutex s \<noteq> None then None
           else put (w\<lparr>at := Opening a\<rparr>) (s\<lparr>mutex := Some t\<rparr>))
      | Unlocking \<Rightarrow>
          (if mutex s \<noteq> Some t then Some (Inl UnlockNotOwner)
           else put (w\<lparr>at := Receiving\<rparr>) (s\<lparr>mutex := None\<rparr>))
      | Ended \<Rightarrow> None
      | pc \<Rightarrow>
          (case request_step E (shared s) (vars w) pc of
             Inl e \<Rightarrow> Some (Inl e)
           | Inr (d', c', pc') \<Rightarrow> put (w\<lparr>vars := c', at := pc'\<rparr>) (s\<lparr>shared := d'\<rparr>)))"

text \<open>The threads start with empty locals; any number of them may be scheduled.\<close>

definition start_sys :: "driver \<Rightarrow> (nat \<Rightarrow> recv_result list) \<Rightarrow> service_sys" where
  "start_sys d scripts = \<lparr>shared = d, mutex = None,
     workers = (\<lambda>t. \<lparr>inbox = scripts t, vars = new_conn, at = Receiving\<rparr>)\<rparr>"

inductive service_reachable :: "service_env \<Rightarrow> service_sys \<Rightarrow> service_sys \<Rightarrow> bool"
  for E :: service_env and s0 :: service_sys where
  begin_run: "service_reachable E s0 s0"
| next_call: "service_reachable E s0 s \<Longrightarrow> worker_step E t s = Some (Inr s') \<Longrightarrow> service_reachable E s0 s'"

text \<open>A schedule lists the thread that moves next; a thread that has to wait is passed over.\<close>

fun run_schedule :: "service_env \<Rightarrow> nat list \<Rightarrow> service_sys \<Rightarrow> fault + service_sys" where
  "run_schedule E [] s = Inr s"
| "run_schedule E (t # ts) s =
     (case worker_step E t s of
        None \<Rightarrow> run_schedule E ts s
      | Some (Inl e) \<Rightarrow> Inl e
      | Some (Inr s') \<Rightarrow> run_schedule E ts s')"

text \<open>A thread that is not scheduled does not move.\<close>

lemma worker_step_others: "worker_step E t s = Some (Inr s') \<Longrightarrow> u \<noteq> t \<Longrightarrow> workers s' u = workers s u"
  by (cases "at (workers s t)")
    (auto simp: worker_step_def Let_def simp del: request_step.simps split: option.splits sum.splits if_splits prod.splits)

lemma run_schedule_others:
  "run_schedule E ts s = Inr s' \<Longrightarrow> u \<notin> set ts \<Longrightarrow> workers s' u = workers s u"
  by (induction ts arbitrary: s) (auto simp: worker_step_others split: option.splits sum.splits)

lemma run_schedule_reachable:
  "service_reachable E s0 s \<Longrightarrow> run_schedule E ts s = Inr s' \<Longrightarrow> service_reachable E s0 s'"
  by (induction ts arbitrary: s) (auto intro: next_call split: option.splits sum.splits)

section \<open>Whole requests\<close>

text \<open>
  The same threads with a whole round of the loop as one step: what \<open>service_loop\<close> does with the
  next result of \<open>recv\<close>.
\<close>

definition serve_next :: "service_env \<Rightarrow> nat \<Rightarrow> driver \<times> (nat \<Rightarrow> worker) \<Rightarrow>
    (fault + driver \<times> (nat \<Rightarrow> worker)) option" where
  "serve_next E t = (\<lambda>(d, ws).
     (case (case at (ws t) of Receiving \<Rightarrow> inbox (ws t) | _ \<Rightarrow> []) of
        [] \<Rightarrow> Some (Inr (d, ws))
      | Closed # rs \<Rightarrow> Some (Inr (d, ws(t := end_worker rs (vars (ws t)))))
      | Failed # rs \<Rightarrow> Some (Inr (d, ws(t := end_worker rs (vars (ws t)))))
      | Received bytes a # rs \<Rightarrow>
          (case service_round E a bytes d (vars (ws t)) of
             None \<Rightarrow> None
           | Some (Inl e) \<Rightarrow> Some (Inl e)
           | Some (Inr (d', c', go_on)) \<Rightarrow> Some (Inr (d', ws(t :=
               if go_on then \<lparr>inbox = rs, vars = c', at = Receiving\<rparr> else end_worker rs c'))))))"

fun serve_in_order :: "service_env \<Rightarrow> nat list \<Rightarrow> driver \<times> (nat \<Rightarrow> worker) \<Rightarrow>
    (fault + driver \<times> (nat \<Rightarrow> worker)) option" where
  "serve_in_order E [] x = Some (Inr x)"
| "serve_in_order E (t # ts) x =
     (case serve_next E t x of
        None \<Rightarrow> None
      | Some (Inl e) \<Rightarrow> Some (Inl e)
      | Some (Inr x') \<Rightarrow> serve_in_order E ts x')"

lemma serve_in_order_snoc:
  "serve_in_order E ts x = Some (Inr y) \<Longrightarrow> serve_in_order E (ts @ [t]) x = serve_next E t y"
  by (induction ts arbitrary: x) (auto split: option.splits sum.splits)

section \<open>What is left of a request\<close>

text \<open>The rest of a request from any of its calls on, performed in one go.\<close>

definition close_request :: "service_env \<Rightarrow> driver \<Rightarrow> stream \<Rightarrow> conn \<Rightarrow> (fault + driver \<times> conn) option" where
  "close_request E d st c =
     (case close_stream (conf E) (kern E) d st of Inl e \<Rightarrow> Some (Inl e) | Inr d' \<Rightarrow> Some (Inr (d', c)))"

definition after_writeback :: "service_env \<Rightarrow> conn \<Rightarrow> (fault + driver \<times> stream \<times> byte list \<times> bool) option \<Rightarrow>
    (fault + driver \<times> conn) option" where
  "after_writeback E c r =
     (case r of
        None \<Rightarrow> None
      | Some (Inl e) \<Rightarrow> Some (Inl e)
      | Some (Inr (d, st, sent, ok)) \<Rightarrow> close_request E d st (c\<lparr>sent_back := sent\<rparr>))"

fun finish_request :: "service_env \<Rightarrow> driver \<Rightarrow> conn \<Rightarrow> service_pc \<Rightarrow> (fault + driver \<times> conn) option" where
  "finish_request E d c (Opening a) =
     (case p_malloc_buf c of None \<Rightarrow> Some (Inl NullDeref) | Some blk \<Rightarrow> serve_line E a d c blk)"
| "finish_request E d c (Storing a) =
     (case p_malloc_buf c of
        None \<Rightarrow> Some (Inl NullDeref)
      | Some blk \<Rightarrow>
          (case store_request E a d (c_string blk) of
             Inl e \<Rightarrow> Some (Inl e)
           | Inr (d', st) \<Rightarrow> after_writeback E c (writeback E d' st (sent_back c))))"
| "finish_request E d c (Flushing st ps) =
     (case write_pieces (kern E) d (fil st) ps of
        Inl e \<Rightarrow> Some (Inl e)
      | Inr (d', ok) \<Rightarrow>
          if ok then after_writeback E c (writeback E d' st (sent_back c)) else close_request E d' st c)"
| "finish_request E d c (Reading st) = after_writeback E c (writeback E d st (sent_back c))"
| "finish_request E d c (Sending st line n0) =
     (case send_loop (send E) line n0 (sent_back c) of
        None \<Rightarrow> None
      | Some (ok, sent) \<Rightarrow>
          if ok then after_writeback E c (writeback E d st sent) else close_request E d st (c\<lparr>sent_back := sent\<rparr>))"
| "finish_request E d c (Closing st) = close_request E d st c"
| "finish_request E d c pc = Some (Inr (d, c))"

text \<open>The calls of a request; after the first call of \<open>getline\<close> nothing waits in the stream.\<close>

fun in_request :: "service_pc \<Rightarrow> bool" where
  "in_request (Opening a) = True"
| "in_request (Storing a) = True"
| "in_request (Flushing st ps) = (wbuf st = [])"
| "in_request (Reading st) = (wbuf st = [])"
| "in_request (Sending st line n0) = (wbuf st = [])"
| "in_request (Closing st) = (wbuf st = [])"
| "in_request pc = False"

lemma after_writeback_conn [simp]: "after_writeback E (c\<lparr>sent_back := x\<rparr>) r = after_writeback E c r"
  by (auto simp: after_writeback_def split: option.split sum.split)

lemma stream_written [simp]: "wbuf st = [] \<Longrightarrow> st\<lparr>wbuf := []\<rparr> = st"
  by (cases st) simp

lemma finish_opening:
  "finish_request E d c (Opening a) = (if fopen_ok a then finish_request E d c (Storing a) else Some (Inl NullDeref))"
  by (auto simp: serve_line_def after_writeback_def close_request_def split: option.splits sum.splits prod.splits)

text \<open>The first \<open>getline\<close> writes the printed text, whether or not there is any.\<close>

lemma finish_first_read:
  "after_writeback E c (writeback E d st (sent_back c)) =
    finish_request E d c (Flushing (st\<lparr>wbuf := []\<rparr>) (if wbuf st = [] then [] else write_split (conf E) (wbuf st)))"
proof (cases "wbuf st = []")
  case True
  then show ?thesis by simp
next
  case False
  let ?st = "st\<lparr>wbuf := []\<rparr>"
  have ready: "getline (conf E) (kern E) d' ?st = read_line (conf E) (kern E) d' ?st" for d'
    by (rule getline_ready) simp
  have "getline (conf E) (kern E) d st =
      (case write_pieces (kern E) d (fil st) (write_split (conf E) (wbuf st)) of
         Inl e \<Rightarrow> Some (Inl e)
       | Inr (d', ok) \<Rightarrow> if ok then getline (conf E) (kern E) d' ?st else Some (Inr (d', ?st, None)))"
    unfolding ready using False by (auto simp: getline_def flush_def split: sum.split)
  then have "writeback E d st sent =
      (case write_pieces (kern E) d (fil st) (write_split (conf E) (wbuf st)) of
         Inl e \<Rightarrow> Some (Inl e)
       | Inr (d', ok) \<Rightarrow> if ok then writeback E d' ?st sent else Some (Inr (d', ?st, sent, True)))" for sent
    by (subst (1 2) writeback.simps) (auto split: sum.split)
  with False show ?thesis by (auto simp: after_writeback_def split: sum.split)
qed

lemma finish_reading:
  assumes "wbuf st = []"
  shows "finish_request E d c (Reading st) =
    (case read_line (conf E) (kern E) d st of
       None \<Rightarrow> None
     | Some (Inl e) \<Rightarrow> Some (Inl e)
     | Some (Inr (d', st', None)) \<Rightarrow> close_request E d' st' c
     | Some (Inr (d', st', Some line)) \<Rightarrow> finish_request E d' c (Sending st' line 0))"
  using assms
  by (subst finish_request.simps, subst writeback.simps)
    (auto simp: getline_ready after_writeback_def split: option.splits sum.splits prod.splits)

lemma finish_sending:
  "finish_request E d c (Sending st line n0) =
    (if sint n0 < int (length line) then
       let rest = drop (nat (sint n0)) line; k = (ucast (send E (length (sent_back c)) rest) :: c_int)
       in if k = - 1 then close_request E d st c
          else finish_request E d (c\<lparr>sent_back := sent_back c @ take (nat (sint k)) rest\<rparr>) (Sending st line (n0 + k))
     else finish_request E d c (Reading st))"
  by (subst finish_request.simps, subst send_loop.simps) (auto simp: Let_def split: option.split)

lemma finish_reading_step:
  assumes clean: "wbuf st = []"
  shows "(case request_step E d c (Reading st) of
      Inl e \<Rightarrow> finish_request E d c (Reading st) = Some (Inl e)
    | Inr (d', c', pc') \<Rightarrow> finish_request E d c (Reading st) = finish_request E d' c' pc' \<and> in_request pc')"
proof (cases "newline \<in> set (rbuf st)")
  case True
  then have "read_line (conf E) (kern E) d st =
      (let line = takeWhile (\<lambda>x. x \<noteq> newline) (rbuf st) @ [newline]
       in Some (Inr (d, st\<lparr>rbuf := drop (length line) (rbuf st)\<rparr>, Some line)))"
    by (subst read_line.simps) (simp add: Let_def)
  with True show ?thesis
    unfolding finish_reading [OF clean] by (simp add: Let_def clean del: finish_request.simps)
next
  case False
  show ?thesis
  proof (cases "aesd_read (kern E) d (fil st) (read_size (conf E))")
    case (Inl e)
    with False have "read_line (conf E) (kern E) d st = Some (Inl e)" by (subst read_line.simps) simp
    with False Inl show ?thesis unfolding finish_reading [OF clean] by simp
  next
    case (Inr y)
    obtain d' filp' bs r where y: "y = (d', filp', bs, r)" by (cases y)
    let ?st = "st\<lparr>fil := filp', rbuf := []\<rparr>" and ?more = "st\<lparr>fil := filp', rbuf := rbuf st @ bs\<rparr>"
    have rl: "read_line (conf E) (kern E) d st =
        (if sint r \<le> 0 then Some (Inr (d', ?st, if rbuf st = [] then None else Some (rbuf st)))
         else read_line (conf E) (kern E) d' ?more)"
      using False Inr y by (subst read_line.simps) simp
    have more: "wbuf ?more = []" by (simp add: clean)
    show ?thesis
    proof (cases "sint r \<le> 0")
      case True
      with False Inr y show ?thesis
        unfolding finish_reading [OF clean] rl by (simp add: clean del: finish_request.simps(1-5))
    next
      case go_on: False
      then show ?thesis
        using False Inr y unfolding finish_reading [OF clean] rl
        by (simp add: clean finish_reading [OF more] del: finish_request.simps)
    qed
  qed
qed

lemma request_step_finish:
  "in_request pc \<Longrightarrow>
    (case request_step E d c pc of
       Inl e \<Rightarrow> finish_request E d c pc = Some (Inl e)
     | Inr (d', c', pc') \<Rightarrow> finish_request E d c pc = finish_request E d' c' pc' \<and> (in_request pc' \<or> pc' = Unlocking))"
proof (cases pc)
  case (Opening a)
  then show ?thesis by (simp add: finish_opening del: finish_request.simps(1))
next
  case (Storing a)
  then show ?thesis
    by (auto simp: finish_first_read simp del: finish_request.simps(3) split: option.split sum.split)
next
  case (Flushing st ps)
  assume "in_request pc"
  with Flushing show ?thesis by (cases ps) (auto simp: close_request_def split: sum.split)
next
  case (Reading st)
  assume "in_request pc"
  then have "wbuf st = []" by (simp add: Reading)
  from finish_reading_step [OF this, of E d c] show ?thesis
    unfolding Reading
    by (cases "request_step E d c (Reading st)") (auto simp del: finish_request.simps request_step.simps)
next
  case (Sending st line n0)
  assume "in_request pc"
  then show ?thesis
    unfolding Sending by (subst (1) finish_sending) (simp add: Let_def del: finish_request.simps(4,5))
next
  case (Closing st)
  then show ?thesis by (auto simp: close_request_def split: sum.split)
qed auto

end
