(* ===== verification/Thread_Refinement.thy ===== *)
theory Thread_Refinement
  imports Service_Threads
begin

text \<open>
  Every interleaving of the service threads is an execution of whole requests in some order:
  the simulation between the calls of \<open>Service_Threads\<close> and \<open>serve_in_order\<close>. A request takes
  effect when its thread unlocks the mutex; until then the sequential run is behind.
\<close>

section \<open>The simulation relation\<close>

text \<open>
  In the sequential run the thread still waits for the message, answered by \<open>a\<close>, that made its
  locals \<open>c\<close>.
\<close>

definition awaits :: "worker \<Rightarrow> recv_result list \<Rightarrow> answers \<Rightarrow> conn \<Rightarrow> bool" where
  "awaits w0 rs a c \<longleftrightarrow> at w0 = Receiving
     \<and> (\<exists>bytes. inbox w0 = Received bytes a # rs \<and> receive_text a bytes (vars w0) = Inr (c, Some True))"

text \<open>
  Thread \<open>t\<close> of \<open>s\<close> against its sequential state \<open>w0\<close>, on the device \<open>d0\<close> of the sequential run:
  what is left of a request is what the whole request does from \<open>d0\<close>.
\<close>

definition thread_sim :: "service_env \<Rightarrow> service_sys \<Rightarrow> driver \<Rightarrow> worker \<Rightarrow> nat \<Rightarrow> bool" where
  "thread_sim E s d0 w0 t \<longleftrightarrow>
     (if mutex s = Some t then
        (in_request (at (workers s t)) \<or> at (workers s t) = Unlocking)
          \<and> (\<exists>a c. awaits w0 (inbox (workers s t)) a c
               \<and> finish_request E d0 c (Opening a)
                  = finish_request E (shared s) (vars (workers s t)) (at (workers s t)))
      else (at (workers s t) = Receiving \<or> at (workers s t) = Ended) \<and> w0 = workers s t
        \<or> (\<exists>a. at (workers s t) = Locking a \<and> awaits w0 (inbox (workers s t)) a (vars (workers s t))))"

definition locks_ok :: "worker \<Rightarrow> bool" where
  "locks_ok w \<longleftrightarrow> (\<forall>bytes a. Received bytes a \<in> set (inbox w) \<longrightarrow> lock_ok a) \<and> (\<forall>a. at w = Locking a \<longrightarrow> lock_ok a)"

definition sim :: "service_env \<Rightarrow> service_sys \<Rightarrow> driver \<times> (nat \<Rightarrow> worker) \<Rightarrow> bool" where
  "sim E s x \<longleftrightarrow> (mutex s = None \<longrightarrow> fst x = shared s) \<and> (\<forall>t. thread_sim E s (fst x) (snd x t) t)
     \<and> (\<forall>t. locks_ok (workers s t))"

lemma simD:
  assumes "sim E s x"
  shows "mutex s = None \<Longrightarrow> fst x = shared s" and "thread_sim E s (fst x) (snd x t) t" and "locks_ok (workers s t)"
  using assms by (simp_all add: sim_def)

lemma thread_sim_receiving:
  "thread_sim E s d w0 t \<Longrightarrow> at (workers s t) = Receiving \<Longrightarrow> w0 = workers s t \<and> mutex s \<noteq> Some t"
  by (auto simp: thread_sim_def split: if_splits)

lemma thread_sim_locking:
  "thread_sim E s d w0 t \<Longrightarrow> at (workers s t) = Locking a \<Longrightarrow>
    awaits w0 (inbox (workers s t)) a (vars (workers s t)) \<and> mutex s \<noteq> Some t"
  by (auto simp: thread_sim_def split: if_splits)

lemma thread_sim_request:
  assumes "thread_sim E s d w0 t" and "in_request (at (workers s t)) \<or> at (workers s t) = Unlocking"
  shows "mutex s = Some t"
    and "\<exists>a c. awaits w0 (inbox (workers s t)) a c
      \<and> finish_request E d c (Opening a) = finish_request E (shared s) (vars (workers s t)) (at (workers s t))"
  using assms by (auto simp: thread_sim_def simp del: finish_request.simps split: if_splits)

text \<open>A thread does not notice what another one does.\<close>

lemma thread_sim_frame:
  assumes "thread_sim E s d w0 u" and "workers s' u = workers s u" and "mutex s' = Some u \<longleftrightarrow> mutex s = Some u"
    and "mutex s = Some u \<Longrightarrow> shared s' = shared s \<and> d' = d"
  shows "thread_sim E s' d' w0 u"
  using assms by (cases "mutex s = Some u") (simp_all add: thread_sim_def del: finish_request.simps)

text \<open>The step of the relation for the thread that moved.\<close>

lemma sim_update:
  assumes sim: "sim E s x" and shared: "mutex s' = None \<longrightarrow> fst x' = shared s'"
    and w: "workers s' = (workers s)(t := w)" and ok: "locks_ok w"
    and moved: "thread_sim E s' (fst x') (snd x' t) t"
    and others: "\<And>u. u \<noteq> t \<Longrightarrow> snd x' u = snd x u" "\<And>u. u \<noteq> t \<Longrightarrow> mutex s' = Some u \<longleftrightarrow> mutex s = Some u"
      "\<And>u. u \<noteq> t \<Longrightarrow> mutex s = Some u \<Longrightarrow> shared s' = shared s \<and> fst x' = fst x"
  shows "sim E s' x'"
proof -
  have "thread_sim E s' (fst x') (snd x' u) u" for u
  proof (cases "u = t")
    case False
    have "thread_sim E s' (fst x') (snd x u) u"
      by (rule thread_sim_frame [OF simD(2) [OF sim, of u]]) (use w False others(2,3) [OF False] in simp_all)
    with others(1) [OF False] show ?thesis by simp
  qed (simp add: moved)
  moreover have "locks_ok (workers s' u)" for u
    using simD(3) [OF sim, of u] ok by (simp add: w)
  ultimately show ?thesis using shared by (simp add: sim_def)
qed

section \<open>One call\<close>

text \<open>A call is no step of the sequential run, or the whole next message of its thread.\<close>

definition follows :: "service_env \<Rightarrow> nat \<Rightarrow> service_sys \<Rightarrow> driver \<times> (nat \<Rightarrow> worker) \<Rightarrow> bool" where
  "follows E t s' x \<longleftrightarrow> sim E s' x \<or> (\<exists>x'. serve_next E t x = Some (Inr x') \<and> sim E s' x')"

lemma follow_receive:
  assumes sim: "sim E s x" and pc: "at (workers s t) = Receiving"
    and step: "receive_step (workers s t) = Some (Inr w)"
  shows "follows E t (s\<lparr>workers := (workers s)(t := w)\<rparr>) x"
proof -
  obtain d ws where x: "x = (d, ws)" by (cases x)
  let ?w = "workers s t" and ?s = "s\<lparr>workers := (workers s)(t := w)\<rparr>"
  have same: "ws t = ?w" and free: "mutex s \<noteq> Some t"
    using thread_sim_receiving [OF simD(2) [OF sim, of t] pc] by (simp_all add: x)
  have shared: "mutex s = None \<longrightarrow> d = shared s" using simD(1) [OF sim] by (simp add: x)
  have locks: "locks_ok ?w" by (rule simD(3) [OF sim])
  have upd: "sim E ?s (d, ws(t := w0))" if "thread_sim E ?s d w0 t" "locks_ok w" for w0
    using that shared by (intro sim_update [OF sim, of ?s _ t w]) (simp_all add: x)
  have whole: "follows E t ?s x" if "serve_next E t x = Some (Inr (d, ws(t := w)))" "at w = Receiving \<or> at w = Ended" "locks_ok w"
    using that upd [of w] free unfolding follows_def x by (auto simp: thread_sim_def)
  show ?thesis
  proof (cases "inbox ?w")
    case Nil
    with step show ?thesis by (simp add: receive_step_def)
  next
    case (Cons r rs)
    note inbox = this
    have rest: "locks_ok \<lparr>inbox = rs, vars = c, at = pc'\<rparr>" if "\<And>a. pc' \<noteq> Locking a" for c pc'
      using locks that by (simp add: locks_ok_def inbox)
    have ending: "follows E t ?s x" if "serve_next E t x = Some (Inr (d, ws(t := end_worker rs c)))" "w = end_worker rs c" for c
      using that rest by (intro whole) (simp_all add: end_worker_def)
    show ?thesis
    proof (cases r)
      case (Received bytes a)
      show ?thesis
      proof (cases "receive_text a bytes (vars ?w)")
        case (Inl e)
        with step show ?thesis by (simp add: receive_step_def inbox Received)
      next
        case (Inr y)
        obtain c nl where y: "y = (c, nl)" by (cases y)
        note here = inbox Received Inr y
        show ?thesis
        proof (cases nl)
          case None
          with step show ?thesis
            by (intro ending [of c]) (simp_all add: receive_step_def here serve_next_def x same pc round_defs)
        next
          case (Some b)
          with step have w: "w = \<lparr>inbox = rs, vars = c, at = if b then Locking a else Receiving\<rparr>"
            by (simp add: receive_step_def here)
          show ?thesis
          proof (cases b)
            case False
            with Some rest show ?thesis
              by (intro whole) (simp_all add: serve_next_def x same pc round_defs here w)
          next
            case True
            have "locks_ok w" using locks by (auto simp: locks_ok_def here w)
            moreover have "thread_sim E ?s d ?w t"
              using True Some free pc by (simp add: thread_sim_def awaits_def here w)
            ultimately have "sim E ?s (d, ws(t := ?w))" by (rule upd [rotated])
            then show ?thesis by (simp add: follows_def x same [symmetric])
          qed
        qed
      qed
    next
      case Closed
      with step show ?thesis
        by (intro ending [of "vars ?w"]) (simp_all add: receive_step_def inbox serve_next_def x same pc)
    next
      case Failed
      with step show ?thesis
        by (intro ending [of "vars ?w"]) (simp_all add: receive_step_def inbox serve_next_def x same pc)
    qed
  qed
qed

lemma follow_lock:
  assumes sim: "sim E s x" and pc: "at (workers s t) = Locking a" and free: "mutex s = None"
  shows "sim E (s\<lparr>mutex := Some t, workers := (workers s)(t := (workers s t)\<lparr>at := Opening a\<rparr>)\<rparr>) x"
proof (rule sim_update [OF sim])
  have "awaits (snd x t) (inbox (workers s t)) a (vars (workers s t))"
    using thread_sim_locking [OF simD(2) [OF sim] pc] by blast
  moreover have "fst x = shared s" by (rule simD(1) [OF sim free])
  ultimately show "thread_sim E (s\<lparr>mutex := Some t, workers := (workers s)(t := (workers s t)\<lparr>at := Opening a\<rparr>)\<rparr>)
      (fst x) (snd x t) t"
    by (auto simp: thread_sim_def simp del: finish_request.simps)
  show "locks_ok ((workers s t)\<lparr>at := Opening a\<rparr>)"
    using simD(3) [OF sim, of t] by (simp add: locks_ok_def)
qed (simp_all add: free)

lemma follow_request:
  assumes sim: "sim E s x" and pc: "in_request (at (workers s t))"
    and step: "request_step E (shared s) (vars (workers s t)) (at (workers s t)) = Inr (d', c', pc')"
  shows "sim E (s\<lparr>shared := d', workers := (workers s)(t := (workers s t)\<lparr>vars := c', at := pc'\<rparr>)\<rparr>) x"
proof (rule sim_update [OF sim])
  let ?w = "workers s t"
  have held: "mutex s = Some t"
    and todo: "\<exists>a c. awaits (snd x t) (inbox ?w) a c
      \<and> finish_request E (fst x) c (Opening a) = finish_request E (shared s) (vars ?w) (at ?w)"
    using thread_sim_request [OF simD(2) [OF sim, of t]] pc by blast+
  have next_step: "finish_request E (shared s) (vars ?w) (at ?w) = finish_request E d' c' pc'"
    "in_request pc' \<or> pc' = Unlocking"
    using request_step_finish [OF pc, of E "shared s" "vars ?w"] step by (simp_all del: finish_request.simps)
  then show "thread_sim E (s\<lparr>shared := d', workers := (workers s)(t := ?w\<lparr>vars := c', at := pc'\<rparr>)\<rparr>)
      (fst x) (snd x t) t"
    using todo held by (simp add: thread_sim_def del: finish_request.simps)
  have "pc' \<noteq> Locking a" for a using next_step(2) by auto
  then show "locks_ok (?w\<lparr>vars := c', at := pc'\<rparr>)"
    using simD(3) [OF sim, of t] by (simp add: locks_ok_def)
  show "mutex (s\<lparr>shared := d', workers := (workers s)(t := ?w\<lparr>vars := c', at := pc'\<rparr>)\<rparr>) = None \<longrightarrow>
      fst x = shared (s\<lparr>shared := d', workers := (workers s)(t := ?w\<lparr>vars := c', at := pc'\<rparr>)\<rparr>)"
    using held by simp
  show "shared (s\<lparr>shared := d', workers := (workers s)(t := ?w\<lparr>vars := c', at := pc'\<rparr>)\<rparr>) = shared s \<and> fst x = fst x"
    if "u \<noteq> t" "mutex s = Some u" for u
    using held that by simp
qed simp_all

text \<open>What a message does to the sequential run, by the request that serves it.\<close>

lemma serve_next_request:
  assumes "awaits w0 rs a c" and "snd x t = w0"
  shows "serve_next E t x =
    (case finish_request E (fst x) c (Opening a) of
       None \<Rightarrow> None
     | Some (Inl e) \<Rightarrow> Some (Inl e)
     | Some (Inr (d', c')) \<Rightarrow> Some (Inr (d', (snd x)(t := \<lparr>inbox = rs, vars = c', at = Receiving\<rparr>))))"
  using assms
  by (cases x, auto simp: awaits_def serve_next_def round_defs split: option.splits sum.splits)

lemma follow_unlock:
  assumes sim: "sim E s x" and pc: "at (workers s t) = Unlocking"
  shows "follows E t (s\<lparr>mutex := None, workers := (workers s)(t := (workers s t)\<lparr>at := Receiving\<rparr>)\<rparr>) x"
proof -
  let ?w = "workers s t" and ?s = "s\<lparr>mutex := None, workers := (workers s)(t := (workers s t)\<lparr>at := Receiving\<rparr>)\<rparr>"
  have held: "mutex s = Some t" using thread_sim_request(1) [OF simD(2) [OF sim]] pc by blast
  obtain a c where w0: "awaits (snd x t) (inbox ?w) a c"
    and fin: "finish_request E (fst x) c (Opening a) = Some (Inr (shared s, vars ?w))"
    using thread_sim_request(2) [OF simD(2) [OF sim], of t] pc by (auto simp del: finish_request.simps(1))
  let ?x = "(shared s, (snd x)(t := \<lparr>inbox = inbox ?w, vars = vars ?w, at = Receiving\<rparr>))"
  have "serve_next E t x = Some (Inr ?x)"
    using serve_next_request [OF w0 refl, of E] fin by simp
  moreover have "sim E ?s ?x"
  proof (rule sim_update [OF sim])
    show "locks_ok (?w\<lparr>at := Receiving\<rparr>)" using simD(3) [OF sim, of t] by (simp add: locks_ok_def)
  qed (use held in \<open>auto simp: thread_sim_def\<close>)
  ultimately show ?thesis by (auto simp: follows_def)
qed

section \<open>Runs\<close>

lemma worker_step_request:
  "in_request (at (workers s t)) \<Longrightarrow> worker_step E t s =
    (case request_step E (shared s) (vars (workers s t)) (at (workers s t)) of
       Inl e \<Rightarrow> Some (Inl e)
     | Inr (d', c', pc') \<Rightarrow> Some (Inr (s\<lparr>shared := d',
         workers := (workers s)(t := (workers s t)\<lparr>vars := c', at := pc'\<rparr>)\<rparr>)))"
  by (cases "at (workers s t)") (simp_all add: worker_step_def Let_def del: request_step.simps split: sum.split prod.split)

lemma worker_step_follows:
  assumes sim: "sim E s x" and step: "worker_step E t s = Some (Inr s')"
  shows "follows E t s' x"
proof -
  have ok: "lock_ok a" if "at (workers s t) = Locking a" for a
    using simD(3) [OF sim, of t] that by (simp add: locks_ok_def)
  consider "at (workers s t) = Receiving" | a where "at (workers s t) = Locking a" | "in_request (at (workers s t))"
    | "at (workers s t) = Unlocking" | "at (workers s t) = Ended"
    using simD(2) [OF sim, of t] by (auto simp: thread_sim_def split: if_splits)
  then show ?thesis
  proof cases
    case 1
    with step obtain w where "receive_step (workers s t) = Some (Inr w)" "s' = s\<lparr>workers := (workers s)(t := w)\<rparr>"
      by (auto simp: worker_step_def split: option.splits sum.splits)
    with follow_receive [OF sim 1] show ?thesis by simp
  next
    case (2 a)
    with step ok have "mutex s = None" "s' = s\<lparr>mutex := Some t, workers := (workers s)(t := (workers s t)\<lparr>at := Opening a\<rparr>)\<rparr>"
      by (auto simp: worker_step_def split: if_splits)
    with follow_lock [OF sim 2] show ?thesis by (simp add: follows_def)
  next
    case 3
    with step obtain d' c' pc' where "request_step E (shared s) (vars (workers s t)) (at (workers s t)) = Inr (d', c', pc')"
      "s' = s\<lparr>shared := d', workers := (workers s)(t := (workers s t)\<lparr>vars := c', at := pc'\<rparr>)\<rparr>"
      by (auto simp: worker_step_request split: sum.splits prod.splits)
    with follow_request [OF sim 3] show ?thesis by (simp add: follows_def)
  next
    case 4
    with step have "s' = s\<lparr>mutex := None, workers := (workers s)(t := (workers s t)\<lparr>at := Receiving\<rparr>)\<rparr>"
      by (auto simp: worker_step_def Let_def split: if_splits)
    with follow_unlock [OF sim 4] show ?thesis by simp
  next
    case 5
    with step show ?thesis by (simp add: worker_step_def)
  qed
qed

text \<open>A fault of a call is the fault of the whole message.\<close>

lemma worker_step_fault:
  assumes sim: "sim E s x" and step: "worker_step E t s = Some (Inl e)"
  shows "serve_next E t x = Some (Inl e)"
proof -
  obtain d ws where x: "x = (d, ws)" by (cases x)
  have ok: "lock_ok a" if "at (workers s t) = Locking a" for a
    using simD(3) [OF sim, of t] that by (simp add: locks_ok_def)
  consider "at (workers s t) = Receiving" | a where "at (workers s t) = Locking a" | "in_request (at (workers s t))"
    | "at (workers s t) = Unlocking" | "at (workers s t) = Ended"
    using simD(2) [OF sim, of t] by (auto simp: thread_sim_def split: if_splits)
  then show ?thesis
  proof cases
    case 1
    with thread_sim_receiving [OF simD(2) [OF sim]] have w: "ws t = workers s t" by (simp add: x)
    have "receive_step (workers s t) = Some (Inl e)"
      using step 1 by (auto simp: worker_step_def split: option.splits sum.splits)
    with 1 w show ?thesis
      by (auto simp: serve_next_def x receive_step_def round_defs
          split: list.splits recv_result.splits sum.splits prod.splits option.splits)
  next
    case (2 a)
    with step ok show ?thesis by (auto simp: worker_step_def split: if_splits)
  next
    case 3
    obtain a c where w0: "awaits (snd x t) (inbox (workers s t)) a c"
      and fin: "finish_request E (fst x) c (Opening a) = finish_request E (shared s) (vars (workers s t)) (at (workers s t))"
      using thread_sim_request(2) [OF simD(2) [OF sim], OF disjI1, OF 3] by (elim exE conjE)
    have "request_step E (shared s) (vars (workers s t)) (at (workers s t)) = Inl e"
      using step 3 by (auto simp: worker_step_request split: sum.splits prod.splits)
    with request_step_finish [OF 3, of E "shared s" "vars (workers s t)"]
    have "finish_request E (shared s) (vars (workers s t)) (at (workers s t)) = Some (Inl e)" by simp
    then show ?thesis using serve_next_request [OF w0 refl, of E] fin by simp
  next
    case 4
    with step thread_sim_request(1) [OF simD(2) [OF sim], of t] show ?thesis
      by (simp add: worker_step_def Let_def)
  next
    case 5
    with step show ?thesis by (simp add: worker_step_def)
  qed
qed

definition locks_work :: "(nat \<Rightarrow> recv_result list) \<Rightarrow> bool" where
  "locks_work scripts \<longleftrightarrow> (\<forall>t bytes a. Received bytes a \<in> set (scripts t) \<longrightarrow> lock_ok a)"

lemma sim_start: "locks_work scripts \<Longrightarrow> sim E (start_sys d scripts) (d, workers (start_sys d scripts))"
  by (auto simp: sim_def thread_sim_def start_sys_def locks_ok_def locks_work_def)

lemma reachable_follows:
  assumes locks: "locks_work scripts"
  shows "service_reachable E (start_sys d scripts) s \<Longrightarrow>
    \<exists>ts x. serve_in_order E ts (d, workers (start_sys d scripts)) = Some (Inr x) \<and> sim E s x"
proof (induction rule: service_reachable.induct)
  case begin_run
  show ?case using sim_start [OF locks] by (intro exI [of _ "[]"]) simp
next
  case (next_call s t s')
  then obtain ts x where x: "serve_in_order E ts (d, workers (start_sys d scripts)) = Some (Inr x)" "sim E s x"
    by blast
  from worker_step_follows [OF x(2) next_call.hyps(2)] show ?case
    unfolding follows_def using x(1) serve_in_order_snoc [OF x(1), of t] by metis
qed

text \<open>Between requests nothing is left over: the state is that of the sequential run.\<close>

lemma sim_quiescent:
  assumes sim: "sim E s x" and quiet: "\<forall>t. at (workers s t) \<in> {Receiving, Ended}"
  shows "x = (shared s, workers s)"
proof -
  have idle: "mutex s \<noteq> Some t \<and> snd x t = workers s t" for t
    using simD(2) [OF sim, of t] quiet [rule_format, of t] by (auto simp: thread_sim_def split: if_splits)
  have "mutex s = None" by (rule ccontr) (use idle in auto)
  with simD(1) [OF sim] idle show ?thesis by (cases x) (auto simp: fun_eq_iff)
qed

end
