(* ===== verification/Thread_Outcomes.thy ===== *)
theory Thread_Outcomes
  imports Thread_Refinement
begin

text \<open>
  The service threads together, for clients that send ordinary text: the sequential run of
  their messages keeps the device and every connection in order, and computes what the
  specification \<open>spec_message\<close> says of the messages in the order they were served.
\<close>

section \<open>Specification\<close>

text \<open>
  A message of client \<open>t\<close>: the text received from \<open>t\<close> grows; with a newline all of it is written
  and the new contents of the device are sent to \<open>t\<close>. The state is the device, the text
  received and the text sent per client.
\<close>

definition spec_message :: "(byte list \<Rightarrow> byte list list) \<Rightarrow> nat \<times> byte list \<Rightarrow>
    device \<times> (nat \<Rightarrow> byte list) \<times> (nat \<Rightarrow> byte list) \<Rightarrow> device \<times> (nat \<Rightarrow> byte list) \<times> (nat \<Rightarrow> byte list)" where
  "spec_message split = (\<lambda>(t, b) (s, acc, out).
     if newline \<in> set b then
       let s' = fold (\<lambda>p s. spec_write s p) (split (acc t @ b)) s
       in (s', acc(t := acc t @ b), out(t := out t @ contents s'))
     else (s, acc(t := acc t @ b), out))"

definition spec_messages :: "(byte list \<Rightarrow> byte list list) \<Rightarrow> (nat \<times> byte list) list \<Rightarrow> device \<Rightarrow>
    device \<times> (nat \<Rightarrow> byte list) \<times> (nat \<Rightarrow> byte list)" where
  "spec_messages split order s = fold (spec_message split) order (s, \<lambda>t. [], \<lambda>t. [])"

text \<open>The messages of one client in a sequence of messages of many.\<close>

definition messages_of :: "nat \<Rightarrow> (nat \<times> byte list) list \<Rightarrow> byte list list" where
  "messages_of t order = map snd (filter (\<lambda>m. fst m = t) order)"

lemma messages_of_snoc: "messages_of t (order @ [(u, b)]) = messages_of t order @ (if u = t then [b] else [])"
  by (simp add: messages_of_def)

lemma spec_messages_snoc:
  "spec_messages split (order @ [m]) s = spec_message split m (spec_messages split order s)"
  by (simp add: spec_messages_def)

section \<open>Clients that send text\<close>

type_synonym clients = "nat \<Rightarrow> (byte list \<times> answers) list"

definition script :: "(byte list \<times> answers) list \<Rightarrow> recv_result list" where
  "script ms = map (\<lambda>(b, a). Received b a) ms @ [Closed]"

definition text_of :: "(byte list \<times> answers) list \<Rightarrow> byte list" where
  "text_of ms = concat (map fst ms)"

text \<open>
  Clients from \<open>n\<close> on send nothing; the bounds keep sizes within an \<open>int\<close>, as each message may
  make its client's whole text be written again.
\<close>

definition clients_ok :: "clients \<Rightarrow> nat \<Rightarrow> driver \<Rightarrow> bool" where
  "clients_ok ms n d \<longleftrightarrow> (\<forall>t. list_all (\<lambda>m. round_ok m \<and> lock_ok (snd m)) (ms t)
       \<and> \<not> strstr (text_of (ms t)) AESDCHAR_IOCSEEKTO_CMD_STR \<and> length (text_of (ms t)) + length (ms t) < 2 ^ 31)
     \<and> (\<forall>t \<ge> n. ms t = [])
     \<and> device_bytes (dev_abs d) + (\<Sum>t<n. length (ms t) * length (text_of (ms t))) < 2 ^ 31"

lemma clients_okD:
  assumes "clients_ok ms n d"
  shows "list_all (\<lambda>m. round_ok m \<and> lock_ok (snd m)) (ms t)" and "\<not> strstr (text_of (ms t)) AESDCHAR_IOCSEEKTO_CMD_STR"
    and "length (text_of (ms t)) + length (ms t) < 2 ^ 31" and "n \<le> t \<Longrightarrow> ms t = []"
    and "device_bytes (dev_abs d) + (\<Sum>t<n. length (ms t) * length (text_of (ms t))) < 2 ^ 31"
  using assms by (simp_all add: clients_ok_def)

lemma clients_locks: "clients_ok ms n d \<Longrightarrow> locks_work (\<lambda>t. script (ms t))"
proof -
  assume ms: "clients_ok ms n d"
  have "lock_ok (snd m)" if "m \<in> set (ms t)" for m t
    using clients_okD(1) [OF ms, of t] that by (auto simp: list_all_iff)
  then show ?thesis by (force simp: locks_work_def script_def)
qed

lemma text_of_take_Suc:
  "k < length ms \<Longrightarrow> text_of (take (Suc k) ms) = text_of (take k ms) @ fst (ms ! k)"
  by (simp add: text_of_def take_Suc_conv_app_nth)

lemma text_of_prefix: "\<exists>rest. text_of ms = text_of (take k ms) @ rest"
  by (metis append_take_drop_id concat_append map_append text_of_def)

section \<open>The sequential run\<close>

text \<open>Client \<open>t\<close> after its first \<open>k\<close> messages.\<close>

definition client_at :: "(byte list \<times> answers) list \<Rightarrow> nat \<Rightarrow> worker \<Rightarrow> bool" where
  "client_at ms k w \<longleftrightarrow> k \<le> length ms \<and>
     (at w = Receiving \<and> inbox w = script (drop k ms) \<and> conn_ok (vars w) (text_of (take k ms))
        \<and> unat (malloc_buf_size (vars w)) = length (text_of (take k ms)) + k
      \<or> at w = Ended \<and> k = length ms)"

text \<open>
  After the messages in \<open>order\<close>, \<open>k t\<close> of them from client \<open>t\<close>; what the remaining ones can add to
  the device still fits.
\<close>

definition seq_inv :: "service_env \<Rightarrow> clients \<Rightarrow> nat \<Rightarrow> device \<Rightarrow> (nat \<Rightarrow> nat) \<Rightarrow> (nat \<times> byte list) list \<Rightarrow>
    driver \<times> (nat \<Rightarrow> worker) \<Rightarrow> bool" where
  "seq_inv E ms n s0 k order x \<longleftrightarrow> driver_inv (fst x) \<and> (\<forall>t. client_at (ms t) (k t) (snd x t))
     \<and> (\<forall>t. messages_of t order = map fst (take (k t) (ms t)))
     \<and> spec_messages (write_split (conf E)) order s0
         = (dev_abs (fst x), \<lambda>t. text_of (take (k t) (ms t)), \<lambda>t. sent_back (vars (snd x t)))
     \<and> device_bytes (dev_abs (fst x)) + (\<Sum>t<n. (length (ms t) - k t) * length (text_of (ms t))) < 2 ^ 31"

lemma seq_inv_start:
  assumes "driver_inv d" and "clients_ok ms n d"
  shows "seq_inv E ms n (dev_abs d) (\<lambda>t. 0) [] (d, workers (start_sys d (\<lambda>t. script (ms t))))"
  using assms(1) clients_okD(5) [OF assms(2)] conn_ok_new
  by (simp add: seq_inv_def client_at_def start_sys_def messages_of_def spec_messages_def text_of_def new_conn_def)

text \<open>The next message of client \<open>t\<close>.\<close>

lemma serve_next_message:
  assumes E: "service_env_ok E" and ms: "clients_ok ms n d0" and inv: "seq_inv E ms n s0 k order (d, ws)"
    and k: "k t < length (ms t)" and here: "at (ws t) = Receiving"
  shows "\<exists>x'. serve_next E t (d, ws) = Some (Inr x')
    \<and> seq_inv E ms n s0 (k(t := Suc (k t))) (order @ [(t, fst (ms t ! k t))]) x'"
proof -
  let ?b = "fst (ms t ! k t)" and ?a = "snd (ms t ! k t)" and ?acc = "text_of (take (k t) (ms t))"
  let ?c = "vars (ws t)" and ?split = "write_split (conf E)"
  note inv' = inv [unfolded seq_inv_def fst_conv snd_conv]
  have client: "client_at (ms t) (k t) (ws t)" using inv' by blast
  have inbox: "inbox (ws t) = Received ?b ?a # script (drop (Suc (k t)) (ms t))"
    using client here k by (auto simp: client_at_def script_def Cons_nth_drop_Suc [symmetric] split_beta)
  have c: "conn_ok ?c ?acc" and mbs: "unat (malloc_buf_size ?c) = length ?acc + k t"
    using client here by (simp_all add: client_at_def)
  have r: "round_ok (?b, ?a)" using clients_okD(1) [OF ms, of t] k by (simp add: list_all_length)
  obtain rest where whole: "text_of (ms t) = (?acc @ ?b) @ rest"
    using text_of_prefix [of "ms t" "Suc (k t)"] text_of_take_Suc [OF k] by auto
  then have len: "length (?acc @ ?b) \<le> length (text_of (ms t))" by simp
  have cmd: "\<not> strstr (?acc @ ?b) AESDCHAR_IOCSEEKTO_CMD_STR"
    using clients_okD(2) [OF ms, of t] strstr_append whole by metis
  have size: "unat (malloc_buf_size ?c) + length ?b + 1 < 2 ^ 31"
    using clients_okD(3) [OF ms, of t] len k mbs by simp
  let ?pot = "\<lambda>k. \<Sum>u<n. (length (ms u) - k u) * length (text_of (ms u))"
  have t: "t < n" using clients_okD(4) [OF ms, of t] k by (cases "t < n") auto
  have pot: "?pot k = ?pot (k(t := Suc (k t))) + length (text_of (ms t))"
  proof -
    have "?pot k = (length (ms t) - k t) * length (text_of (ms t))
        + (\<Sum>u\<in>{..<n} - {t}. (length (ms u) - k u) * length (text_of (ms u)))"
      using t by (intro sum.remove) simp_all
    moreover have "?pot (k(t := Suc (k t))) = (length (ms t) - Suc (k t)) * length (text_of (ms t))
        + (\<Sum>u\<in>{..<n} - {t}. (length (ms u) - k u) * length (text_of (ms u)))"
      using t by (subst sum.remove [of _ t]) (simp_all add: sum.remove)
    moreover have "length (ms t) - k t = Suc (length (ms t) - Suc (k t))" using k by simp
    ultimately show ?thesis by simp
  qed
  have room: "device_bytes (dev_abs d) + length (?acc @ ?b) < 2 ^ 31"
    using inv' pot len by linarith
  from service_round_ok [OF E _ c r cmd size room] inv' obtain d' c' where
    round: "service_round E ?a ?b d ?c = Some (Inr (d', c', True))" "driver_inv d'" "conn_ok c' (?acc @ ?b)"
      "unat (malloc_buf_size c') = unat (malloc_buf_size ?c) + length ?b + 1"
      "if newline \<in> set ?b
       then dev_abs d' = fold (\<lambda>p s. spec_write s p) (?split (?acc @ ?b)) (dev_abs d)
         \<and> sent_back c' = sent_back ?c @ contents (dev_abs d')
       else dev_abs d' = dev_abs d \<and> sent_back c' = sent_back ?c"
    by blast
  let ?w = "\<lparr>inbox = script (drop (Suc (k t)) (ms t)), vars = c', at = Receiving\<rparr>"
  have step: "serve_next E t (d, ws) = Some (Inr (d', ws(t := ?w)))"
    by (simp add: serve_next_def here inbox round(1))
  have "concat (?split x) = x" for x using E by (simp add: service_env_ok_def stdio_conf_ok_def)
  then have bytes: "device_bytes (dev_abs d') \<le> device_bytes (dev_abs d) + length (?acc @ ?b)"
    using round(5) device_bytes_pieces [of "?split (?acc @ ?b)" "dev_abs d"] by (auto split: if_splits)
  have moved: "client_at (ms t) (Suc (k t)) ?w"
    using k round(3,4) mbs by (simp add: client_at_def text_of_take_Suc)
  have spec: "spec_messages ?split (order @ [(t, ?b)]) s0
      = (dev_abs d', \<lambda>u. text_of (take ((k(t := Suc (k t))) u) (ms u)), \<lambda>u. sent_back (vars ((ws(t := ?w)) u)))"
    using inv' round(5)
    by (auto simp: spec_messages_snoc spec_message_def Let_def text_of_take_Suc [OF k] fun_eq_iff)
  have msgs: "messages_of u (order @ [(t, ?b)]) = map fst (take ((k(t := Suc (k t))) u) (ms u))" for u
    using inv' k by (cases "u = t") (simp_all add: messages_of_snoc take_Suc_conv_app_nth)
  have fits: "device_bytes (dev_abs d') + ?pot (k(t := Suc (k t))) < 2 ^ 31"
    using inv' pot len bytes by linarith
  show ?thesis
    unfolding step seq_inv_def using round(2) moved spec msgs fits inv' by auto
qed

lemma serve_next_inv:
  assumes E: "service_env_ok E" and ms: "clients_ok ms n d0" and inv: "seq_inv E ms n s0 k order x"
  shows "\<exists>x' k' order'. serve_next E t x = Some (Inr x') \<and> seq_inv E ms n s0 k' order' x'"
proof -
  obtain d ws where x: "x = (d, ws)" by (cases x)
  have client: "client_at (ms t) (k t) (ws t)" using inv by (simp add: seq_inv_def x)
  show ?thesis
  proof (cases "at (ws t) = Receiving \<and> k t < length (ms t)")
    case True
    with serve_next_message [OF E ms inv [unfolded x], of t] show ?thesis by (auto simp: x)
  next
    case no_text: False
    show ?thesis
    proof (cases "at (ws t) = Receiving")
      case False
      then have "serve_next E t x = Some (Inr x)"
        by (cases "at (ws t)") (simp_all add: serve_next_def x)
      with inv show ?thesis by blast
    next
      case True
      with no_text client have "inbox (ws t) = [Closed]" and k: "k t = length (ms t)"
        by (auto simp: client_at_def script_def)
      with True have step: "serve_next E t x = Some (Inr (d, ws(t := end_worker [] (vars (ws t)))))"
        by (simp add: serve_next_def x)
      have "client_at (ms t) (k t) (end_worker [] (vars (ws t)))"
        using k by (simp add: client_at_def end_worker_def)
      moreover have "(\<lambda>u. sent_back (vars ((ws(t := end_worker [] (vars (ws t)))) u))) = (\<lambda>u. sent_back (vars (ws u)))"
        by (simp add: end_worker_def fun_eq_iff)
      ultimately have "seq_inv E ms n s0 k order (d, ws(t := end_worker [] (vars (ws t))))"
        using inv by (simp add: seq_inv_def x)
      with step show ?thesis by blast
    qed
  qed
qed

lemma serve_in_order_inv:
  assumes E: "service_env_ok E" and ms: "clients_ok ms n d0"
  shows "seq_inv E ms n s0 k order x \<Longrightarrow> serve_in_order E ts x = Some (Inr y) \<Longrightarrow>
    \<exists>k' order'. seq_inv E ms n s0 k' order' y"
proof (induction ts arbitrary: k order x)
  case (Cons t ts)
  from serve_next_inv [OF E ms Cons.prems(1), of t] Cons show ?case by auto
qed auto

section \<open>Every interleaving\<close>

text \<open>A reachable state against the sequential run that it implements.\<close>

lemma reachable_seq:
  assumes E: "service_env_ok E" and inv: "driver_inv d" and ms: "clients_ok ms n d"
    and s: "service_reachable E (start_sys d (\<lambda>t. script (ms t))) s"
  shows "\<exists>x k order. sim E s x \<and> seq_inv E ms n (dev_abs d) k order x"
proof -
  obtain ts x where "serve_in_order E ts (d, workers (start_sys d (\<lambda>t. script (ms t)))) = Some (Inr x)" "sim E s x"
    using reachable_follows [OF clients_locks [OF ms] s] by blast
  with serve_in_order_inv [OF E ms seq_inv_start [OF inv ms]] show ?thesis by blast
qed

lemma reachable_step_ok:
  assumes E: "service_env_ok E" and inv: "driver_inv d" and ms: "clients_ok ms n d"
    and s: "service_reachable E (start_sys d (\<lambda>t. script (ms t))) s"
  shows "worker_step E t s \<noteq> Some (Inl e)"
proof
  assume "worker_step E t s = Some (Inl e)"
  moreover obtain x k order where "sim E s x" "seq_inv E ms n (dev_abs d) k order x"
    using reachable_seq [OF assms] by blast
  ultimately show False
    using worker_step_fault [of E s x t e] serve_next_inv [OF E ms, of "dev_abs d" k order x t] by auto
qed

lemma schedule_no_fault:
  assumes E: "service_env_ok E" and inv: "driver_inv d" and ms: "clients_ok ms n d"
  shows "service_reachable E (start_sys d (\<lambda>t. script (ms t))) s \<Longrightarrow> \<exists>s'. run_schedule E ts s = Inr s'"
proof (induction ts arbitrary: s)
  case (Cons t ts)
  have "worker_step E t s \<noteq> Some (Inl e)" for e by (rule reachable_step_ok [OF E inv ms Cons.prems])
  moreover have "\<exists>s'. run_schedule E ts s1 = Inr s'" if "worker_step E t s = Some (Inr s1)" for s1
    by (rule Cons.IH, rule next_call [OF Cons.prems that])
  ultimately show ?case
    using Cons.IH [OF Cons.prems] by (auto split: option.split sum.split)
qed simp

text \<open>While the mutex is free any thread that has not ended can go on.\<close>

lemma free_moves:
  assumes sim: "sim E s x" and inv: "seq_inv E ms n s0 k order x" and free: "mutex s = None"
    and pc: "at (workers s t) \<noteq> Ended"
  shows "worker_step E t s \<noteq> None"
proof -
  note here = simD(2) [OF sim, of t]
  from here free pc consider "at (workers s t) = Receiving" | a where "at (workers s t) = Locking a"
    by (auto simp: thread_sim_def split: if_splits)
  then show ?thesis
  proof cases
    case 1
    with thread_sim_receiving [OF here] have "snd x t = workers s t" by blast
    moreover have "client_at (ms t) (k t) (snd x t)" using inv by (simp add: seq_inv_def)
    ultimately have "inbox (workers s t) \<noteq> []" using 1 by (auto simp: client_at_def script_def)
    then have "receive_step (workers s t) \<noteq> None"
      by (auto simp: receive_step_def neq_Nil_conv split: recv_result.split sum.split prod.split option.split)
    with 1 show ?thesis by (auto simp: worker_step_def split: option.split sum.split)
  next
    case 2
    with free show ?thesis by (simp add: worker_step_def Let_def)
  qed
qed

text \<open>A client without messages never enters a request.\<close>

lemma silent_quiet:
  assumes "sim E s x" and "seq_inv E ms n s0 k order x" and "ms t = []"
  shows "at (workers s t) \<in> {Receiving, Ended}"
proof -
  have "client_at (ms t) (k t) (snd x t)" using assms(2) by (simp add: seq_inv_def)
  then have "\<not> awaits (snd x t) rs a c" for rs a c
    using assms(3) by (auto simp: awaits_def client_at_def script_def)
  with simD(2) [OF assms(1), of t] show ?thesis by (auto simp: thread_sim_def split: if_splits)
qed

end
