(* ===== verification/Thread_Progress.thy ===== *)
theory Thread_Progress
  imports Thread_Outcomes
begin

text \<open>
  Progress of the service threads: the calls of a request come to the end that
  \<open>finish_request\<close> computes, so the holder of the mutex can always be run until it unlocks, and
  from every reachable state some schedule ends all threads.
\<close>

section \<open>The calls of a request\<close>

inductive request_calls :: "service_env \<Rightarrow> driver \<times> conn \<times> service_pc \<Rightarrow> driver \<times> conn \<times> service_pc \<Rightarrow> bool"
  for E :: service_env where
  no_call: "request_calls E x x"
| a_call: "in_request pc \<Longrightarrow> request_step E d c pc = Inr y \<Longrightarrow> request_calls E y z \<Longrightarrow> request_calls E (d, c, pc) z"

lemma request_calls_trans [trans]:
  "request_calls E x y \<Longrightarrow> request_calls E y z \<Longrightarrow> request_calls E x z"
  by (induction rule: request_calls.induct) (auto intro: a_call)

lemma one_call: "in_request pc \<Longrightarrow> request_step E d c pc = Inr y \<Longrightarrow> request_calls E (d, c, pc) y"
  by (rule a_call [OF _ _ no_call])

text \<open>Each loop of the code is a run of calls.\<close>

lemma send_loop_calls:
  assumes ret: "send_loop (send E) line n0 sent = Some r" and clean: "wbuf st = []"
  shows "sent_back c = sent \<Longrightarrow> request_calls E (d, c, Sending st line n0)
    (d, c\<lparr>sent_back := snd r\<rparr>, if fst r then Reading st else Closing st)"
proof -
  have "f = send E \<longrightarrow> (\<forall>c. sent_back c = sent \<longrightarrow> request_calls E (d, c, Sending st line n0)
      (d, c\<lparr>sent_back := snd r\<rparr>, if fst r then Reading st else Closing st))"
    if "send_loop f line n0 sent = Some r" for f line n0 sent r
  proof (rule send_loop.raw_induct [OF _ that], intro impI allI, goal_cases)
    case (1 loop f line n0 sent r c)
    let ?rest = "drop (nat (sint n0)) line"
    let ?k = "ucast (send E (length sent) ?rest) :: c_int"
    have here: "in_request (Sending st line n0)" using clean by simp
    show ?case
    proof (cases "sint n0 < int (length line) \<and> ?k \<noteq> - 1")
      case False
      with 1(2-4) show ?thesis by (intro one_call [OF here]) (auto simp: Let_def split: if_splits)
    next
      case True
      with 1(2,3) have "loop f line (n0 + ?k) (sent @ take (nat (sint ?k)) ?rest) = Some r"
        by (simp add: Let_def)
      from 1(1) [OF this] 1(3)
      have "request_calls E (d, c\<lparr>sent_back := sent @ take (nat (sint ?k)) ?rest\<rparr>, Sending st line (n0 + ?k))
          (d, c\<lparr>sent_back := snd r\<rparr>, if fst r then Reading st else Closing st)"
        by (auto dest: spec [of _ "c\<lparr>sent_back := sent @ take (nat (sint ?k)) ?rest\<rparr>"])
      with True 1(4) show ?thesis by (intro a_call [OF here]) (simp_all add: Let_def)
    qed
  qed
  with ret show "sent_back c = sent \<Longrightarrow> request_calls E (d, c, Sending st line n0)
    (d, c\<lparr>sent_back := snd r\<rparr>, if fst r then Reading st else Closing st)" by blast
qed

lemma read_line_calls:
  assumes ret: "read_line (conf E) (kern E) d st = Some (Inr (d', st', l))" and clean: "wbuf st = []"
  shows "wbuf st' = [] \<and> request_calls E (d, c, Reading st)
    (d', c, case l of None \<Rightarrow> Closing st' | Some line \<Rightarrow> Sending st' line 0)"
proof -
  have "C = conf E \<longrightarrow> K = kern E \<longrightarrow> wbuf st = [] \<longrightarrow> (\<forall>d' st' l. r = Inr (d', st', l) \<longrightarrow>
      wbuf st' = [] \<and> request_calls E (d, c, Reading st)
        (d', c, case l of None \<Rightarrow> Closing st' | Some line \<Rightarrow> Sending st' line 0))"
    if "read_line C K d st = Some r" for C K d st r
  proof (rule read_line.raw_induct [OF _ that], intro impI allI, goal_cases)
    case (1 loop C K d st r d' st' l)
    have here: "in_request (Reading st)" using 1(5) by simp
    show ?case
    proof (cases "newline \<in> set (rbuf st)")
      case True
      with 1 show ?thesis by (auto simp: Let_def intro!: one_call [OF here])
    next
      case more: False
      show ?thesis
      proof (cases "aesd_read K d (fil st) (read_size C)")
        case (Inl e)
        with 1 more show ?thesis by simp
      next
        case (Inr y)
        obtain d1 filp1 bs n where y: "y = (d1, filp1, bs, n)" by (cases y)
        show ?thesis
        proof (cases "sint n \<le> 0")
          case True
          with 1 more Inr y show ?thesis by (auto intro!: one_call [OF here])
        next
          case False
          let ?st = "st\<lparr>fil := filp1, rbuf := rbuf st @ bs\<rparr>"
          have "loop C K d1 ?st = Some r" using 1(2) more Inr y False by simp
          from 1(1) [OF this] 1(3-6)
          have "wbuf st' = []" and "request_calls E (d1, c, Reading ?st)
              (d', c, case l of None \<Rightarrow> Closing st' | Some line \<Rightarrow> Sending st' line 0)"
            by simp_all
          with 1(3,4) more Inr y False show ?thesis by (auto intro!: a_call [OF here])
        qed
      qed
    qed
  qed
  with ret clean show ?thesis by blast
qed

lemma writeback_calls:
  assumes ret: "writeback E d st (sent_back c) = Some (Inr (d', st', sent', ok))" and clean: "wbuf st = []"
  shows "wbuf st' = [] \<and> request_calls E (d, c, Reading st) (d', c\<lparr>sent_back := sent'\<rparr>, Closing st')"
proof -
  have "F = E \<longrightarrow> wbuf st = [] \<longrightarrow> (\<forall>c d' st' sent' ok. sent_back c = sent \<longrightarrow> r = Inr (d', st', sent', ok) \<longrightarrow>
      wbuf st' = [] \<and> request_calls E (d, c, Reading st) (d', c\<lparr>sent_back := sent'\<rparr>, Closing st'))"
    if "writeback F d st sent = Some r" for F d st sent r
  proof (rule writeback.raw_induct [OF _ that], intro impI allI, goal_cases)
    case (1 loop F d st sent r c d' st' sent' ok)
    have got: "getline (conf F) (kern F) d st = read_line (conf E) (kern E) d st"
      using 1(3,4) by (simp add: getline_ready)
    obtain d1 st1 l where line: "read_line (conf E) (kern E) d st = Some (Inr (d1, st1, l))"
      using 1(2) [unfolded got] 1(6) by (auto split: option.splits sum.splits)
    note read = read_line_calls [OF line 1(4), of c]
    show ?case
    proof (cases l)
      case None
      with 1(2) [unfolded got line] 1(5,6) read show ?thesis by auto
    next
      case (Some bs)
      obtain sok sent1 where send: "send_loop (send E) bs 0 sent = Some (sok, sent1)"
        using 1(2) [unfolded got line] 1(3,6) Some by (auto split: option.splits)
      have sends: "request_calls E (d1, c, Sending st1 bs 0)
          (d1, c\<lparr>sent_back := sent1\<rparr>, if sok then Reading st1 else Closing st1)"
        using send_loop_calls [OF send, of st1 c d1] read 1(5) by simp
      show ?thesis
      proof (cases sok)
        case False
        with 1(2) [unfolded got line] 1(3,6) Some send read sends show ?thesis
          by (auto intro: request_calls_trans)
      next
        case True
        have "loop F d1 st1 sent1 = Some r" using 1(2) [unfolded got line] 1(3) Some send True by simp
        from 1(1) [OF this] 1(3,6) read
        have "wbuf st' = [] \<and> request_calls E (d1, c\<lparr>sent_back := sent1\<rparr>, Reading st1)
            (d', c\<lparr>sent_back := sent'\<rparr>, Closing st')"
          by (auto dest: spec [of _ "c\<lparr>sent_back := sent1\<rparr>"])
        with read sends True Some show ?thesis by (auto intro: request_calls_trans)
      qed
    qed
  qed
  with ret clean show ?thesis by blast
qed

text \<open>So a whole request is a run of calls, from any of them on.\<close>

lemma close_calls:
  "close_request E d st c = Some (Inr (d', c')) \<Longrightarrow> wbuf st = [] \<Longrightarrow>
    request_calls E (d, c, Closing st) (d', c', Unlocking)"
  by (rule one_call) (auto simp: close_request_def split: sum.splits)

lemma reading_calls:
  assumes "after_writeback E c (writeback E d st (sent_back c)) = Some (Inr (d', c'))" and clean: "wbuf st = []"
  shows "request_calls E (d, c, Reading st) (d', c', Unlocking)"
proof -
  obtain d1 st1 sent1 ok where w: "writeback E d st (sent_back c) = Some (Inr (d1, st1, sent1, ok))"
    and close: "close_request E d1 st1 (c\<lparr>sent_back := sent1\<rparr>) = Some (Inr (d', c'))"
    using assms(1) by (auto simp: after_writeback_def split: option.splits sum.splits)
  from writeback_calls [OF w clean] close_calls [OF close] show ?thesis by (blast intro: request_calls_trans)
qed

lemma flushing_calls:
  assumes clean: "wbuf st = []"
  shows "finish_request E d c (Flushing st ps) = Some (Inr (d', c')) \<Longrightarrow>
    request_calls E (d, c, Flushing st ps) (d', c', Unlocking)"
proof (induction ps arbitrary: d)
  case Nil
  then show ?case using reading_calls [OF _ clean] clean by (intro a_call [OF _ _ reading_calls]) simp_all
next
  case (Cons p ps)
  have here: "in_request (Flushing st (p # ps))" using clean by simp
  obtain d1 r where w: "aesd_write (kern E) d (fil st) p (of_nat (length p)) = Inr (d1, r)"
    using Cons.prems by (auto split: sum.splits)
  show ?case
  proof (cases "sint r < 0")
    case True
    with Cons.prems w have "close_request E d1 st c = Some (Inr (d', c'))" by simp
    from close_calls [OF this clean] w True show ?thesis by (intro a_call [OF here]) simp_all
  next
    case False
    with Cons.prems w have "finish_request E d1 c (Flushing st ps) = Some (Inr (d', c'))" by simp
    from Cons.IH [OF this] w False show ?thesis by (intro a_call [OF here]) simp_all
  qed
qed

lemma finish_calls:
  assumes fin: "finish_request E d c pc = Some (Inr (d', c'))" and pc: "in_request pc"
  shows "request_calls E (d, c, pc) (d', c', Unlocking)"
proof -
  have storing: "request_calls E (d, c, Storing a) (d', c', Unlocking)"
    if st: "finish_request E d c (Storing a) = Some (Inr (d', c'))" for a
  proof -
    obtain d1 pc1 where step: "request_step E d c (Storing a) = Inr (d1, c, pc1)"
      and pc1: "\<exists>st ps. pc1 = Flushing st ps \<and> wbuf st = []"
      using st by (auto split: option.splits sum.splits prod.splits)
    have "finish_request E d1 c pc1 = Some (Inr (d', c'))"
      using request_step_finish [of "Storing a" E d c] st step by (simp del: finish_request.simps request_step.simps)
    with pc1 flushing_calls step show ?thesis by (blast intro: a_call in_request.simps(2) [THEN iffD2])
  qed
  show ?thesis
  proof (cases pc)
    case (Opening a)
    have fopen: "fopen_ok a" and st: "finish_request E d c (Storing a) = Some (Inr (d', c'))"
      using fin [unfolded Opening finish_opening] by (simp_all del: finish_request.simps split: if_splits)
    from storing [OF st] fopen show ?thesis unfolding Opening by (intro a_call) simp_all
  next
    case (Storing a)
    with fin storing show ?thesis by blast
  next
    case (Flushing st ps)
    with fin pc flushing_calls show ?thesis by simp
  next
    case (Reading st)
    with fin pc reading_calls show ?thesis by simp
  next
    case (Sending st line n0)
    obtain ok sent1 where send: "send_loop (send E) line n0 (sent_back c) = Some (ok, sent1)"
      and rest: "(if ok then after_writeback E c (writeback E d st sent1)
        else close_request E d st (c\<lparr>sent_back := sent1\<rparr>)) = Some (Inr (d', c'))"
      using fin [unfolded Sending] by (auto split: option.splits)
    have clean: "wbuf st = []" using pc Sending by simp
    have "request_calls E (d, c, pc) (d, c\<lparr>sent_back := sent1\<rparr>, if ok then Reading st else Closing st)"
      using send_loop_calls [OF send clean refl, of d] by (simp add: Sending)
    moreover have "request_calls E (d, c\<lparr>sent_back := sent1\<rparr>, if ok then Reading st else Closing st) (d', c', Unlocking)"
      using rest reading_calls [of E "c\<lparr>sent_back := sent1\<rparr>" d st d' c'] close_calls clean
      by (cases ok) simp_all
    ultimately show ?thesis by (rule request_calls_trans)
  next
    case (Closing st)
    with fin pc close_calls show ?thesis by simp
  qed (use pc in auto)
qed

section \<open>Running on\<close>

lemma run_schedule_append:
  "run_schedule E ts s = Inr s1 \<Longrightarrow> run_schedule E (ts @ us) s = run_schedule E us s1"
  by (induction ts arbitrary: s) (auto split: option.splits sum.splits)

text \<open>A thread inside a request can be run to the point where it unlocks the mutex.\<close>

lemma run_request:
  assumes "request_calls E x y"
  shows "shared s = fst x \<Longrightarrow> vars (workers s t) = fst (snd x) \<Longrightarrow> at (workers s t) = snd (snd x) \<Longrightarrow>
    \<exists>ts. run_schedule E ts s = Inr (s\<lparr>shared := fst y,
      workers := (workers s)(t := (workers s t)\<lparr>vars := fst (snd y), at := snd (snd y)\<rparr>)\<rparr>)"
  using assms
proof (induction arbitrary: s rule: request_calls.induct)
  case (no_call x)
  have "(workers s)(t := (workers s t)\<lparr>vars := fst (snd x), at := snd (snd x)\<rparr>) = workers s"
    by (simp flip: no_call)
  with no_call show ?case by (intro exI [of _ "[]"]) simp
next
  case (a_call pc d c y z)
  let ?s = "s\<lparr>shared := fst y, workers := (workers s)(t := (workers s t)\<lparr>vars := fst (snd y), at := snd (snd y)\<rparr>)\<rparr>"
  have "worker_step E t s = Some (Inr ?s)"
    using a_call by (simp add: worker_step_request split: prod.split)
  moreover
  have upd: "?s\<lparr>shared := fst z, workers := (workers ?s)(t := (workers ?s t)\<lparr>vars := fst (snd z), at := snd (snd z)\<rparr>)\<rparr>
      = s\<lparr>shared := fst z, workers := (workers s)(t := (workers s t)\<lparr>vars := fst (snd z), at := snd (snd z)\<rparr>)\<rparr>"
    by (simp add: fun_eq_iff)
  obtain ts where "run_schedule E ts ?s = Inr (s\<lparr>shared := fst z,
      workers := (workers s)(t := (workers s t)\<lparr>vars := fst (snd z), at := snd (snd z)\<rparr>)\<rparr>)"
    by (rule exE, rule a_call.IH [of ?s, unfolded upd]) (simp_all del: fun_upd_apply add: fun_upd_same)
  ultimately show ?case by (intro exI [of _ "t # ts"]) (simp del: fun_upd_apply)
qed

text \<open>
  The holder of the mutex runs until it has released it; it is then about to receive, and no
  other thread has moved.
\<close>

definition released :: "nat \<Rightarrow> service_sys \<Rightarrow> service_sys \<Rightarrow> bool" where
  "released t s s' \<longleftrightarrow> mutex s' = None \<and> at (workers s' t) = Receiving \<and> inbox (workers s' t) = inbox (workers s t)
     \<and> (\<forall>u. u \<noteq> t \<longrightarrow> workers s' u = workers s u)"

lemma run_holder:
  assumes E: "service_env_ok E" and ms: "clients_ok ms n d0"
    and sim: "sim E s x" and inv: "seq_inv E ms n s0 k order x" and held: "mutex s = Some t"
  shows "\<exists>ts s'. run_schedule E ts s = Inr s' \<and> released t s s'"
proof -
  let ?w = "workers s t"
  have here: "in_request (at ?w) \<or> at ?w = Unlocking"
    and "\<exists>a c. awaits (snd x t) (inbox ?w) a c
      \<and> finish_request E (fst x) c (Opening a) = finish_request E (shared s) (vars ?w) (at ?w)"
    using simD(2) [OF sim, of t] held by (simp_all add: thread_sim_def del: finish_request.simps)
  then obtain a c where w0: "awaits (snd x t) (inbox ?w) a c"
    and fin: "finish_request E (fst x) c (Opening a) = finish_request E (shared s) (vars ?w) (at ?w)" by blast
  obtain x' where "serve_next E t x = Some (Inr x')"
    using serve_next_inv [OF E ms inv, of t] by blast
  then obtain d' c' where todo: "finish_request E (shared s) (vars ?w) (at ?w) = Some (Inr (d', c'))"
    unfolding serve_next_request [OF w0 refl] fin by (auto split: option.splits sum.splits)
  have "request_calls E (shared s, vars ?w, at ?w) (d', c', Unlocking)"
  proof (cases "in_request (at ?w)")
    case True
    with finish_calls [OF todo] show ?thesis by blast
  next
    case False
    with here todo show ?thesis by (simp add: no_call)
  qed
  from run_request [OF this, of s t] obtain ts where
    ts: "run_schedule E ts s = Inr (s\<lparr>shared := d', workers := (workers s)(t := ?w\<lparr>vars := c', at := Unlocking\<rparr>)\<rparr>)"
    by auto
  let ?s' = "s\<lparr>shared := d', mutex := None, workers := (workers s)(t := ?w\<lparr>vars := c', at := Receiving\<rparr>)\<rparr>"
  have "run_schedule E (ts @ [t]) s = Inr ?s'"
    unfolding run_schedule_append [OF ts] by (simp add: worker_step_def held)
  moreover have "released t s ?s'" by (simp add: released_def)
  ultimately show ?thesis by blast
qed

text \<open>What a thread has still to do, counted in receptions and requests.\<close>

definition to_do :: "worker \<Rightarrow> nat" where
  "to_do w = (case at w of Ended \<Rightarrow> 0 | Receiving \<Rightarrow> 2 * length (inbox w) | _ \<Rightarrow> Suc (2 * length (inbox w)))"

lemma receive_less: "receive_step w = Some (Inr w') \<Longrightarrow> at w = Receiving \<Longrightarrow> to_do w' < to_do w"
  by (auto simp: receive_step_def to_do_def end_worker_def split: list.splits recv_result.splits sum.splits prod.splits
      option.splits if_splits)

text \<open>While the mutex is free every thread that has not ended has a run that leaves it less to do.\<close>

lemma run_one:
  assumes E: "service_env_ok E" and inv: "driver_inv d" and ms: "clients_ok ms n d"
    and reach: "service_reachable E (start_sys d (\<lambda>t. script (ms t))) s"
    and free: "mutex s = None" and pc: "at (workers s t) \<noteq> Ended"
  shows "\<exists>ts s'. run_schedule E ts s = Inr s' \<and> mutex s' = None \<and> to_do (workers s' t) < to_do (workers s t)
    \<and> (\<forall>u. u \<noteq> t \<longrightarrow> workers s' u = workers s u)"
proof -
  obtain x k order where x: "sim E s x" "seq_inv E ms n (dev_abs d) k order x"
    using reachable_seq [OF E inv ms reach] by blast
  have "worker_step E t s \<noteq> None" by (rule free_moves [OF x free pc])
  then obtain s1 where step: "worker_step E t s = Some (Inr s1)"
    using reachable_step_ok [OF E inv ms reach, of t] by (cases "worker_step E t s"; cases "the (worker_step E t s)") auto
  have reach1: "service_reachable E (start_sys d (\<lambda>t. script (ms t))) s1" by (rule next_call [OF reach step])
  note others = worker_step_others [OF step]
  consider "at (workers s t) = Receiving" | a where "at (workers s t) = Locking a" "lock_ok a"
    using simD(2) [OF x(1), of t] simD(3) [OF x(1), of t] pc free by (auto simp: thread_sim_def locks_ok_def)
  then show ?thesis
  proof cases
    case 1
    with step obtain w where w: "receive_step (workers s t) = Some (Inr w)" "s1 = s\<lparr>workers := (workers s)(t := w)\<rparr>"
      by (auto simp: worker_step_def split: option.splits sum.splits)
    with receive_less [OF w(1) 1] step free show ?thesis by (intro exI [of _ "[t]"] exI [of _ s1]) simp
  next
    case (2 a)
    with step have held: "mutex s1 = Some t" and same: "inbox (workers s1 t) = inbox (workers s t)"
      by (auto simp: worker_step_def Let_def split: if_splits)
    obtain x1 k1 order1 where x1: "sim E s1 x1" "seq_inv E ms n (dev_abs d) k1 order1 x1"
      using reachable_seq [OF E inv ms reach1] by blast
    from run_holder [OF E ms x1 held] obtain ts s' where ts: "run_schedule E ts s1 = Inr s'" "released t s1 s'" by blast
    have "to_do (workers s' t) < to_do (workers s t)"
      using ts(2) same 2 by (simp add: to_do_def released_def)
    with ts step others show ?thesis
      by (intro exI [of _ "t # ts"] exI [of _ s']) (auto simp: released_def)
  qed
qed

lemma run_rest:
  assumes E: "service_env_ok E" and inv: "driver_inv d" and ms: "clients_ok ms n d"
  shows "service_reachable E (start_sys d (\<lambda>t. script (ms t))) s \<Longrightarrow> mutex s = None \<Longrightarrow>
    \<exists>ts s'. run_schedule E ts s = Inr s' \<and> (\<forall>t < n. at (workers s' t) = Ended)"
proof (induction "\<Sum>t<n. to_do (workers s t)" arbitrary: s rule: less_induct)
  case less
  show ?case
  proof (cases "\<forall>t < n. at (workers s t) = Ended")
    case True
    then show ?thesis by (intro exI [of _ "[]"]) simp
  next
    case False
    then obtain t where t: "t < n" "at (workers s t) \<noteq> Ended" by blast
    from run_one [OF E inv ms less.prems t(2)] obtain ts s1 where
      ts: "run_schedule E ts s = Inr s1" "mutex s1 = None" "to_do (workers s1 t) < to_do (workers s t)"
        "\<forall>u. u \<noteq> t \<longrightarrow> workers s1 u = workers s u" by blast
    have "(\<Sum>u<n. to_do (workers s1 u)) < (\<Sum>u<n. to_do (workers s u))"
    proof (rule sum_strict_mono_ex1)
      show "\<forall>u\<in>{..<n}. to_do (workers s1 u) \<le> to_do (workers s u)" using ts(3,4) by (metis less_imp_le order_refl)
    qed (use t ts(3) in auto)
    from less.hyps [OF this run_schedule_reachable [OF less.prems(1) ts(1)] ts(2)] obtain us s' where
      "run_schedule E us s1 = Inr s'" "\<forall>t < n. at (workers s' t) = Ended" by blast
    with run_schedule_append [OF ts(1), of us] show ?thesis by auto
  qed
qed

lemma run_to_the_end:
  assumes E: "service_env_ok E" and inv: "driver_inv d" and ms: "clients_ok ms n d"
    and reach: "service_reachable E (start_sys d (\<lambda>t. script (ms t))) s"
  shows "\<exists>ts s'. run_schedule E ts s = Inr s' \<and> (\<forall>t < n. at (workers s' t) = Ended)"
proof (cases "mutex s")
  case None
  with run_rest [OF assms] show ?thesis by blast
next
  case (Some t)
  obtain x k order where x: "sim E s x" "seq_inv E ms n (dev_abs d) k order x"
    using reachable_seq [OF assms] by blast
  from run_holder [OF E ms x Some] obtain ts s1 where ts: "run_schedule E ts s = Inr s1" "mutex s1 = None"
    by (auto simp: released_def)
  from run_rest [OF E inv ms run_schedule_reachable [OF reach ts(1)] ts(2)] obtain us s' where
    "run_schedule E us s1 = Inr s'" "\<forall>t < n. at (workers s' t) = Ended" by blast
  with run_schedule_append [OF ts(1), of us] show ?thesis by auto
qed

text \<open>
  A thread whose \<open>pthread_mutex_lock\<close> failed makes the same calls, on whatever state the device is
  in; the mutex stays as it was, and then the thread unlocks it.
\<close>

lemma run_unlocked:
  assumes pc: "at (workers s t) = Locking a" and failed: "\<not> lock_ok a" and m: "mutex s \<noteq> Some t"
    and ret: "finish_request E (shared s) (vars (workers s t)) (Opening a) = Some (Inr (d', c'))"
  shows "\<exists>ts s'. run_schedule E ts s = Inr s' \<and> shared s' = d' \<and> vars (workers s' t) = c' \<and> mutex s' = mutex s
    \<and> (\<forall>u. u \<noteq> t \<longrightarrow> workers s' u = workers s u) \<and> worker_step E t s' = Some (Inl UnlockNotOwner)"
proof -
  let ?s = "s\<lparr>workers := (workers s)(t := (workers s t)\<lparr>at := Opening a\<rparr>)\<rparr>"
  have step: "worker_step E t s = Some (Inr ?s)" using pc failed by (simp add: worker_step_def Let_def)
  have "request_calls E (shared s, vars (workers s t), Opening a) (d', c', Unlocking)"
    by (rule finish_calls [OF ret]) simp
  from run_request [OF this, of ?s t] obtain ts s1 where ts: "run_schedule E ts ?s = Inr s1"
    and s1: "shared s1 = d'" "vars (workers s1 t) = c'" "at (workers s1 t) = Unlocking" "mutex s1 = mutex s"
      "\<forall>u. u \<noteq> t \<longrightarrow> workers s1 u = workers s u"
    by auto
  have "worker_step E t s1 = Some (Inl UnlockNotOwner)" using s1 m by (simp add: worker_step_def)
  with step ts s1 show ?thesis by (intro exI [of _ "t # ts"] exI [of _ s1]) simp
qed

end
