(* ===== verification/Thread_Service_Properties.thy ===== *)
theory Thread_Service_Properties
  imports Thread_Progress Socket_Properties
begin

text \<open>The properties of the service threads under every interleaving of their calls.\<close>

section \<open>A concrete interleaving\<close>

text \<open>
  Client 0 sends \<open>a\<close> and then its newline, client 1 one line \<open>b\<close>; the threads take turns, so
  that thread 0 finds the mutex taken while thread 1 is inside.
\<close>

definition demo_clients :: clients where
  "demo_clients = (\<lambda>t. if t = 0 then [([97], demo_answers), ([10], demo_answers)]
     else if t = 1 then [([98, 10], demo_answers)] else [])"

definition demo_schedule :: "nat list" where
  "demo_schedule = concat (replicate 45 [0, 1])"

definition demo_start :: service_sys where
  "demo_start = start_sys initial_driver (\<lambda>t. script (demo_clients t))"

fun ended :: "service_pc \<Rightarrow> bool" where
  "ended Ended = True"
| "ended pc = False"

lemma ended_iff: "ended pc \<longleftrightarrow> pc = Ended"
  by (cases pc) simp_all

definition demo_outcome :: "fault + service_sys \<Rightarrow> (bool \<times> byte list) list" where
  "demo_outcome r = (case r of Inl e \<Rightarrow> []
     | Inr s \<Rightarrow> map (\<lambda>t. (ended (at (workers s t)), sent_back (vars (workers s t)))) [0, 1])"

lemma demo_outcome_eq:
  "demo_outcome (run_schedule demo_service demo_schedule demo_start) = [(True, [98, 10, 97, 10]), (True, [98, 10])]"
  by code_simp

lemma demo_run:
  obtains s where "run_schedule demo_service demo_schedule demo_start = Inr s"
    and "\<And>t. t < 2 \<Longrightarrow> at (workers s t) = Ended" and "\<And>t. 2 \<le> t \<Longrightarrow> at (workers s t) = Receiving"
    and "sent_back (vars (workers s 0)) = [98, 10, 97, 10]" and "sent_back (vars (workers s 1)) = [98, 10]"
proof (cases "run_schedule demo_service demo_schedule demo_start")
  case (Inl e)
  with demo_outcome_eq show ?thesis by (simp add: demo_outcome_def)
next
  case (Inr s)
  note here = demo_outcome_eq [unfolded Inr demo_outcome_def]
  have "at (workers s t) = Receiving" if "2 \<le> t" for t
  proof -
    have "set demo_schedule \<subseteq> {0, 1}" by (auto simp: demo_schedule_def)
    then have "t \<notin> set demo_schedule" using that by auto
    from run_schedule_others [OF Inr this] show ?thesis by (simp add: demo_start_def start_sys_def)
  qed
  moreover have "at (workers s t) = Ended" if "t < 2" for t
    using here that by (auto simp: ended_iff less_2_cases_iff)
  ultimately show ?thesis using Inr here by (intro that) auto
qed

lemma demo_clients_ok: "clients_ok demo_clients 2 initial_driver"
proof -
  have "list_all (\<lambda>m. round_ok m \<and> lock_ok (snd m)) (demo_clients t)" for t
    by (simp add: demo_clients_def demo_round_ok) (simp add: demo_answers_def)
  moreover have "\<not> strstr (text_of (demo_clients t)) AESDCHAR_IOCSEEKTO_CMD_STR" for t
    by (simp add: demo_clients_def text_of_def AESDCHAR_IOCSEEKTO_CMD_STR_def)
  moreover have "length (text_of (demo_clients t)) + length (demo_clients t) < 2 ^ 31" for t
    by (simp add: demo_clients_def text_of_def)
  moreover have "device_bytes (dev_abs initial_driver)
      + (\<Sum>t<2. length (demo_clients t) * length (text_of (demo_clients t))) < 2 ^ 31"
  proof -
    have "{..<2} = {0, 1 :: nat}" by auto
    then show ?thesis
      by (simp add: dev_abs_initial empty_device_def device_bytes_def contents_def demo_clients_def text_of_def)
  qed
  ultimately show ?thesis by (simp add: clients_ok_def) (simp add: demo_clients_def)
qed

section \<open>Linearizability\<close>

text \<open>
  C4: However the calls of any number of service threads interleave, the device and what every
  client has received are, whenever no thread is inside a request, those of some order of
  the messages in which each message is handled from start to end before the next. This
  holds for every environment, with failing reads, writes and sends, as long as locking
  the mutex works.
\<close>

theorem service_threads_linearizable:
  assumes locks: "locks_work scripts" and run: "run_schedule E schedule (start_sys d scripts) = Inr s"
    and quiet: "\<forall>t. at (workers s t) \<in> {Receiving, Ended}"
  shows "\<exists>order. serve_in_order E order (d, workers (start_sys d scripts)) = Some (Inr (shared s, workers s))"
proof -
  have "service_reachable E (start_sys d scripts) s"
    by (rule run_schedule_reachable [OF begin_run run])
  from reachable_follows [OF locks this] obtain order x where
    "serve_in_order E order (d, workers (start_sys d scripts)) = Some (Inr x)" "sim E s x" by blast
  with sim_quiescent [OF _ quiet] show ?thesis by blast
qed

theorem service_threads_linearizable_witness:
  "\<exists>s order. run_schedule demo_service demo_schedule demo_start = Inr s
    \<and> serve_in_order demo_service order (initial_driver, workers demo_start) = Some (Inr (shared s, workers s))
    \<and> sent_back (vars (workers s 0)) = [98, 10, 97, 10]"
proof -
  obtain s where run: "run_schedule demo_service demo_schedule demo_start = Inr s"
    and at: "\<And>t. t < 2 \<Longrightarrow> at (workers s t) = Ended" "\<And>t. 2 \<le> t \<Longrightarrow> at (workers s t) = Receiving"
    and sent: "sent_back (vars (workers s 0)) = [98, 10, 97, 10]"
    using demo_run by metis
  have "\<forall>t. at (workers s t) \<in> {Receiving, Ended}" using at by (metis insertI1 insertI2 not_le)
  from service_threads_linearizable [OF clients_locks [OF demo_clients_ok] run [unfolded demo_start_def] this]
  show ?thesis using run sent unfolding demo_start_def by blast
qed

text \<open>
  C5: For clients that send ordinary text no interleaving of their threads faults, and every
  one, at whatever call it is broken off, can be continued until all threads have ended. Once
  they have, there is an order of all messages, in which every client's own messages keep
  their order, such that the device holds and every client has received exactly what the
  specification computes for the messages in that order. The specification writes all a
  client has sent so far at each of its newlines, as the code does, which never empties its
  buffer, so a client's later lines repeat its earlier ones; it replies with the device's contents right after that.
\<close>

theorem service_threads_outcome:
  assumes E: "service_env_ok E" and inv: "driver_inv d" and ms: "clients_ok ms n d"
  shows "\<exists>s. run_schedule E schedule (start_sys d (\<lambda>t. script (ms t))) = Inr s
    \<and> (\<exists>rest s'. run_schedule E rest s = Inr s' \<and> (\<forall>t < n. at (workers s' t) = Ended))
    \<and> ((\<forall>t < n. at (workers s t) = Ended) \<longrightarrow>
       (\<exists>order. (\<forall>t. messages_of t order = map fst (ms t))
          \<and> spec_messages (write_split (conf E)) order (dev_abs d)
              = (dev_abs (shared s), \<lambda>t. text_of (ms t), \<lambda>t. sent_back (vars (workers s t)))))"
proof -
  let ?s0 = "start_sys d (\<lambda>t. script (ms t))"
  obtain s where run: "run_schedule E schedule ?s0 = Inr s"
    using schedule_no_fault [OF E inv ms begin_run] by blast
  then have reach: "service_reachable E ?s0 s" by (rule run_schedule_reachable [OF begin_run])
  note ends = run_to_the_end [OF E inv ms reach]
  from reachable_seq [OF E inv ms reach] obtain x k order where x: "sim E s x" "seq_inv E ms n (dev_abs d) k order x"
    by blast
  have "\<exists>order. (\<forall>t. messages_of t order = map fst (ms t))
      \<and> spec_messages (write_split (conf E)) order (dev_abs d)
          = (dev_abs (shared s), \<lambda>t. text_of (ms t), \<lambda>t. sent_back (vars (workers s t)))"
    if all: "\<forall>t < n. at (workers s t) = Ended"
  proof -
    have silent: "ms t = []" if "\<not> t < n" for t using clients_okD(4) [OF ms, of t] that by simp
    have "\<forall>t. at (workers s t) \<in> {Receiving, Ended}"
      using all silent_quiet [OF x silent] by blast
    from sim_quiescent [OF x(1) this] have here: "x = (shared s, workers s)" .
    have "take (k t) (ms t) = ms t" for t
    proof (cases "t < n")
      case True
      have "client_at (ms t) (k t) (workers s t)" using x(2) by (simp add: seq_inv_def here)
      with all True show ?thesis by (auto simp: client_at_def)
    qed (simp add: silent)
    with x(2) show ?thesis by (auto simp: seq_inv_def here)
  qed
  with run ends show ?thesis by blast
qed

theorem service_threads_outcome_witness:
  "\<exists>s order. run_schedule demo_service demo_schedule demo_start = Inr s
    \<and> messages_of 0 order = [[97], [10]] \<and> messages_of 1 order = [[98, 10]]
    \<and> spec_messages (\<lambda>x. [x]) order empty_device
        = (dev_abs (shared s), \<lambda>t. text_of (demo_clients t), \<lambda>t. sent_back (vars (workers s t)))"
proof -
  obtain s where run: "run_schedule demo_service demo_schedule demo_start = Inr s"
    and ended: "\<And>t. t < 2 \<Longrightarrow> at (workers s t) = Ended"
    using demo_run by metis
  have "write_split (conf demo_service) = (\<lambda>x. [x])" by (simp add: fun_eq_iff)
  then obtain order where "\<forall>t. messages_of t order = map fst (demo_clients t)"
    "spec_messages (\<lambda>x. [x]) order empty_device
      = (dev_abs (shared s), \<lambda>t. text_of (demo_clients t), \<lambda>t. sent_back (vars (workers s t)))"
    using service_threads_outcome [OF demo_service_ok driver_inv_initial demo_clients_ok, of demo_schedule] run ended
    unfolding demo_start_def dev_abs_initial by auto
  with run show ?thesis by (intro exI [of _ s] exI [of _ order]) (simp add: demo_clients_def)
qed

section \<open>A lock call that fails\<close>

text \<open>Thread 1 holds the mutex; thread 0 has received a line, and its lock call fails.\<close>

definition demo_unlocked :: service_sys where
  "demo_unlocked = \<lparr>shared = initial_driver, mutex = Some 1, workers = (\<lambda>t. \<lparr>inbox = [],
     vars = new_conn\<lparr>p_malloc_buf := Some [97, 10, 0]\<rparr>,
     at = if t = 0 then Locking (demo_answers\<lparr>lock_ok := False\<rparr>) else Opening demo_answers\<rparr>)\<rparr>"

text \<open>
  C38: A thread whose lock call fails handles its text all the same, also while another thread
  holds the mutex: what it received is written to the device and the contents are sent back,
  without the mutex changing hands, and the thread then unlocks a mutex it does not hold.
\<close>

theorem failed_lock_is_ignored:
  assumes E: "service_env_ok E" and inv: "driver_inv (shared s)" and m: "mutex s \<noteq> Some t"
    and pc: "at (workers s t) = Locking a" "\<not> lock_ok a" "fopen_ok a"
    and blk: "p_malloc_buf (vars (workers s t)) = Some blk" and nl: "newline \<in> set (c_string blk)"
    and cmd: "\<not> strstr (c_string blk) AESDCHAR_IOCSEEKTO_CMD_STR"
    and room: "device_bytes (dev_abs (shared s)) + length (c_string blk) < 2 ^ 31"
  shows "\<exists>ts s'. run_schedule E ts s = Inr s'
    \<and> dev_abs (shared s') = fold (\<lambda>p s. spec_write s p) (write_split (conf E) (c_string blk)) (dev_abs (shared s))
    \<and> sent_back (vars (workers s' t)) = sent_back (vars (workers s t)) @ contents (dev_abs (shared s'))
    \<and> mutex s' = mutex s \<and> (\<forall>u. u \<noteq> t \<longrightarrow> workers s' u = workers s u)
    \<and> worker_step E t s' = Some (Inl UnlockNotOwner)"
proof -
  let ?c = "vars (workers s t)"
  obtain d' where line: "serve_line E a (shared s) ?c blk = Some (Inr (d', ?c\<lparr>sent_back := sent_back ?c @ contents (dev_abs d')\<rparr>))"
    and d': "dev_abs d' = fold (\<lambda>p s. spec_write s p) (write_split (conf E) (c_string blk)) (dev_abs (shared s))"
    using serve_line_ok [OF E pc(3) inv refl cmd room nl, of ?c] by blast
  have "finish_request E (shared s) ?c (Opening a) = Some (Inr (d', ?c\<lparr>sent_back := sent_back ?c @ contents (dev_abs d')\<rparr>))"
    using line by (simp add: blk)
  from run_unlocked [OF pc(1,2) m this] obtain ts s' where "run_schedule E ts s = Inr s'" "shared s' = d'"
    "vars (workers s' t) = ?c\<lparr>sent_back := sent_back ?c @ contents (dev_abs d')\<rparr>" "mutex s' = mutex s"
    "\<forall>u. u \<noteq> t \<longrightarrow> workers s' u = workers s u" "worker_step E t s' = Some (Inl UnlockNotOwner)"
    by (elim exE conjE)
  with d' show ?thesis by (intro exI [of _ ts] exI [of _ s']) simp
qed

theorem failed_lock_is_ignored_witness:
  "\<exists>ts s'. run_schedule demo_service ts demo_unlocked = Inr s' \<and> mutex s' = Some 1
    \<and> sent_back (vars (workers s' 0)) = [97, 10] \<and> worker_step demo_service 0 s' = Some (Inl UnlockNotOwner)"
proof -
  let ?a = "demo_answers\<lparr>lock_ok := False\<rparr>" and ?s = demo_unlocked
  have d: "shared ?s = initial_driver" and m: "mutex ?s = Some 1" and pc: "at (workers ?s 0) = Locking ?a"
    and blk: "p_malloc_buf (vars (workers ?s 0)) = Some [97, 10, 0]" and sent: "sent_back (vars (workers ?s 0)) = []"
    by (simp_all add: demo_unlocked_def new_conn_def)
  have a: "\<not> lock_ok ?a" "fopen_ok ?a" by (simp_all add: demo_answers_def)
  have str: "c_string [97, 10, 0] = [97, 10]" by (simp add: c_string_def)
  have cmd: "\<not> strstr (c_string [97, 10, 0]) AESDCHAR_IOCSEEKTO_CMD_STR"
    by (simp add: str AESDCHAR_IOCSEEKTO_CMD_STR_def)
  have room: "device_bytes (dev_abs (shared ?s)) + length (c_string [97, 10, 0]) < 2 ^ 31"
    by (simp add: d str dev_abs_initial empty_device_def device_bytes_def contents_def)
  have new: "contents (spec_write (dev_abs initial_driver) [97, 10]) = [97, 10]"
    by (simp add: dev_abs_initial empty_device_def spec_write_def contents_def)
  have inv: "driver_inv (shared ?s)" and m0: "mutex ?s \<noteq> Some 0" by (simp_all add: d m driver_inv_initial)
  have nl: "newline \<in> set (c_string [97, 10, 0])" by (simp add: str)
  obtain ts s' where "run_schedule demo_service ts ?s = Inr s'"
    "dev_abs (shared s') = fold (\<lambda>p s. spec_write s p) (write_split (conf demo_service) (c_string [97, 10, 0])) (dev_abs (shared ?s))"
    "sent_back (vars (workers s' 0)) = sent_back (vars (workers ?s 0)) @ contents (dev_abs (shared s'))"
    "mutex s' = mutex ?s" "worker_step demo_service 0 s' = Some (Inl UnlockNotOwner)"
    using failed_lock_is_ignored [OF demo_service_ok inv m0 pc a blk nl cmd room] by (elim exE conjE)
  then show ?thesis by (intro exI [of _ ts] exI [of _ s']) (simp add: sent m str d new)
qed

end
