(* ===== verification/File_Build.thy ===== *)
theory File_Build
  imports Socket_Proofs
begin

text \<open>
  The other build of \<^verbatim>\<open>server/aesdsocket.c\<close>, with \<open>USE_AESD_CHAR_DEVICE\<close> other than 1: the data is
  kept in the regular file \<^verbatim>\<open>/var/tmp/aesdsocketdata\<close>, \<open>writeback\<close> first seeks to the start, and a
  timer appends a time stamp every ten seconds. Each request and each time stamp runs under
  the mutex, so a run is a sequence of them.
\<close>

section \<open>The file\<close>

text \<open>
  \<open>quota\<close> is the size up to which the file system lets the file grow, \<open>file_send\<close> the \<open>send\<close> of the
  connection. The file itself is its contents, \<open>None\<close> when it does not exist.
\<close>

record file_env =
  quota :: nat
  file_send :: "nat \<Rightarrow> byte list \<Rightarrow> loff_t"

text \<open>\<open>fopen\<close> with mode \<^verbatim>\<open>a+\<close> creates a file that does not exist.\<close>

definition open_data_file :: "byte list option \<Rightarrow> byte list" where
  "open_data_file disk = (case disk of None \<Rightarrow> [] | Some content \<Rightarrow> content)"

text \<open>Writing out the buffer of the stream appends what fits, and succeeds if that is all.\<close>

definition append_file :: "nat \<Rightarrow> byte list \<Rightarrow> byte list \<Rightarrow> byte list \<times> bool" where
  "append_file q content bs = (content @ take (q - length content) bs, length bs \<le> q - length content)"

text \<open>\<open>getline\<close>: the next line of what is left, and the rest.\<close>

definition next_line :: "byte list \<Rightarrow> byte list \<times> byte list" where
  "next_line bs =
     (if newline \<in> set bs
      then (takeWhile (\<lambda>c. c \<noteq> newline) bs @ [newline], tl (dropWhile (\<lambda>c. c \<noteq> newline) bs))
      else (bs, []))"

lemma next_line_append: "fst (next_line bs) @ snd (next_line bs) = bs"
proof (cases "newline \<in> set bs")
  case True
  then have "dropWhile (\<lambda>c. c \<noteq> newline) bs = newline # tl (dropWhile (\<lambda>c. c \<noteq> newline) bs)"
    using hd_dropWhile [of "\<lambda>c. c \<noteq> newline" bs]
    by (metis (mono_tags, lifting) dropWhile_eq_Nil_conv list.exhaust_sel)
  with True show ?thesis
    unfolding next_line_def by (simp del: takeWhile_dropWhile_id) (metis takeWhile_dropWhile_id)
qed (simp add: next_line_def)

lemma next_line_rest: "bs \<noteq> [] \<Longrightarrow> length (snd (next_line bs)) < length bs"
  using arg_cong [OF next_line_append [of bs], of length] by (auto simp: next_line_def split: if_splits)

section \<open>writeback\<close>

text \<open>The loop over the lines from the current offset on.\<close>

function send_lines :: "(nat \<Rightarrow> byte list \<Rightarrow> loff_t) \<Rightarrow> byte list \<Rightarrow> byte list \<Rightarrow> (bool \<times> byte list) option" where
  "send_lines f left sent =
     (if left = [] then Some (True, sent)
      else case send_loop f (fst (next_line left)) 0 sent of
          None \<Rightarrow> None
        | Some (ok, sent') \<Rightarrow> if ok then send_lines f (snd (next_line left)) sent' else Some (False, sent'))"
  by pat_completeness auto

termination by (relation "measure (\<lambda>(f, left, sent). length left)") (simp_all add: next_line_rest)

declare send_lines.simps [simp del]

text \<open>
  \<open>fseek\<close> writes out the buffer \<open>wb\<close> first and fails when that fails; then nothing is sent.
\<close>

definition file_writeback :: "file_env \<Rightarrow> byte list \<Rightarrow> byte list \<Rightarrow> byte list \<Rightarrow> (byte list \<times> byte list \<times> bool) option" where
  "file_writeback F content wb sent =
     (case append_file (quota F) content wb of (content', flushed) \<Rightarrow>
        if \<not> flushed then Some (content', sent, False)
        else case send_lines (file_send F) content' sent of
            None \<Rightarrow> None
          | Some (b_status, sent') \<Rightarrow> Some (content', sent', b_status))"

section \<open>A request\<close>

text \<open>
  From \<open>open_socket_data_file\<close> to \<open>fclose\<close>. The ioctl of a seek command fails on a regular file,
  which is only logged.
\<close>

definition file_serve_line ::
    "file_env \<Rightarrow> answers \<Rightarrow> byte list option \<Rightarrow> conn \<Rightarrow> byte list \<Rightarrow> (fault + byte list option \<times> conn) option" where
  "file_serve_line F a disk c blk =
     (if \<not> fopen_ok a then Some (Inl NullDeref)
      else
        let s = c_string blk; wb = (if \<not> strstr s AESDCHAR_IOCSEEKTO_CMD_STR then s else [])
        in case file_writeback F (open_data_file disk) wb (sent_back c) of
            None \<Rightarrow> None
          | Some (content, sent, b_status) \<Rightarrow> Some (Inr (Some content, c\<lparr>sent_back := sent\<rparr>)))"

definition file_round ::
    "file_env \<Rightarrow> answers \<Rightarrow> byte list \<Rightarrow> byte list option \<Rightarrow> conn \<Rightarrow> (fault + byte list option \<times> conn \<times> bool) option" where
  "file_round F = serve_received (file_serve_line F)"

section \<open>The timer\<close>

text \<open>
  What the library answers in one callback: the text \<open>strftime\<close> makes of the local time, \<open>None\<close>
  when \<open>localtime\<close> returns a null pointer; whether \<open>fopen\<close> succeeds.
\<close>

record tick =
  local_time :: "byte list option"
  tick_fopen_ok :: bool

text \<open>The characters of \<^verbatim>\<open>timestamp:\<close>\<close>

definition timestamp_prefix :: "byte list" where
  "timestamp_prefix = [116, 105, 109, 101, 115, 116, 97, 109, 112, 58]"

definition time_stamp :: "byte list \<Rightarrow> byte list" where
  "time_stamp timestamp = timestamp_prefix @ timestamp @ [newline]"

text \<open>\<open>localtime\<close> and \<open>fopen\<close> returning null is logged, and the pointer is used all the same.\<close>

definition timer_callback :: "file_env \<Rightarrow> tick \<Rightarrow> byte list option \<Rightarrow> fault + byte list option" where
  "timer_callback F k disk =
     (case local_time k of
        None \<Rightarrow> Inl NullDeref
      | Some timestamp \<Rightarrow>
          if \<not> tick_fopen_ok k then Inl NullDeref
          else Inr (Some (fst (append_file (quota F) (open_data_file disk) (time_stamp timestamp)))))"

text \<open>
  Arming the timer in \<open>main\<close>: the seconds to the first expiry and from one to the next; a failure
  is logged and the server runs without time stamps.
\<close>

definition arm_timer :: "c_int \<Rightarrow> c_int \<Rightarrow> (nat \<times> nat) option" where
  "arm_timer timer_create timer_settime =
     (if timer_create = - 1 then None else if timer_settime = - 1 then None else Some (10, 10))"

text \<open>The file at the end of \<open>main\<close>.\<close>

definition remove_data_file :: "c_int \<Rightarrow> byte list option \<Rightarrow> byte list option" where
  "remove_data_file remove_result disk = (if remove_result = - 1 then disk else None)"

section \<open>Runs\<close>

text \<open>
  What reaches the data: a message that a thread received, or an expiry of the timer. A thread
  without \<open>conn\<close> has ended.
\<close>

datatype data_event = Message nat "byte list" answers | Expiry tick

fun serve_events ::
    "(answers \<Rightarrow> byte list \<Rightarrow> 'd \<Rightarrow> conn \<Rightarrow> (fault + 'd \<times> conn \<times> bool) option) \<Rightarrow> (tick \<Rightarrow> 'd \<Rightarrow> fault + 'd) \<Rightarrow>
      data_event list \<Rightarrow> 'd \<times> (nat \<Rightarrow> conn option) \<Rightarrow> (fault + 'd \<times> (nat \<Rightarrow> conn option)) option" where
  "serve_events round timer [] x = Some (Inr x)"
| "serve_events round timer (Expiry k # es) (d, cs) =
     (case timer k d of Inl e \<Rightarrow> Some (Inl e) | Inr d' \<Rightarrow> serve_events round timer es (d', cs))"
| "serve_events round timer (Message t b a # es) (d, cs) =
     (case cs t of
        None \<Rightarrow> serve_events round timer es (d, cs)
      | Some c \<Rightarrow>
          (case round a b d c of
             None \<Rightarrow> None
           | Some (Inl e) \<Rightarrow> Some (Inl e)
           | Some (Inr (d', c', go_on)) \<Rightarrow>
               serve_events round timer es (d', cs(t := if go_on then Some c' else None))))"

definition all_new :: "nat \<Rightarrow> conn option" where
  "all_new = (\<lambda>t. Some new_conn)"

text \<open>The two builds; the one for the device has no timer.\<close>

definition file_build :: "file_env \<Rightarrow> data_event list \<Rightarrow> byte list option \<Rightarrow>
    (fault + byte list option \<times> (nat \<Rightarrow> conn option)) option" where
  "file_build F es disk = serve_events (file_round F) (timer_callback F) es (disk, all_new)"

definition device_build :: "service_env \<Rightarrow> data_event list \<Rightarrow> driver \<Rightarrow>
    (fault + driver \<times> (nat \<Rightarrow> conn option)) option" where
  "device_build E es d = serve_events (service_round E) (\<lambda>k d. Inr d) es (d, all_new)"

section \<open>A request on a file with room\<close>

lemma send_lines_all:
  assumes f: "send_serves f"
  shows "length left < 2 ^ 31 \<Longrightarrow> send_lines f left sent = Some (True, sent @ left)"
proof (induction left arbitrary: sent rule: length_induct)
  case (1 left)
  show ?case
  proof (cases "left = []")
    case False
    let ?l = "fst (next_line left)" and ?r = "snd (next_line left)"
    have whole: "?l @ ?r = left" by (rule next_line_append)
    have "length ?l \<le> length left" "length ?r \<le> length left"
      using arg_cong [OF whole, of length] by simp_all
    then have "send_loop f ?l 0 sent = Some (True, sent @ ?l)" and "length ?r < 2 ^ 31"
      using send_loop_all [OF f, of ?l 0 sent] 1(2) by simp_all
    moreover from this 1 next_line_rest [OF False] have "send_lines f ?r (sent @ ?l) = Some (True, (sent @ ?l) @ ?r)"
      by blast
    ultimately show ?thesis
      using False whole by (subst send_lines.simps) simp
  qed (simp add: send_lines.simps)
qed

lemma file_serve_line_ok:
  assumes f: "send_serves (file_send F)" and a: "fopen_ok a" and s: "c_string blk = s"
    and cmd: "\<not> strstr s AESDCHAR_IOCSEEKTO_CMD_STR"
    and room: "length (open_data_file disk @ s) \<le> quota F" and q: "quota F < 2 ^ 31"
  shows "file_serve_line F a disk c blk
    = Some (Inr (Some (open_data_file disk @ s), c\<lparr>sent_back := sent_back c @ open_data_file disk @ s\<rparr>))"
proof -
  have "append_file (quota F) (open_data_file disk) s = (open_data_file disk @ s, True)"
    using room by (simp add: append_file_def)
  moreover have "send_lines (file_send F) (open_data_file disk @ s) (sent_back c)
      = Some (True, sent_back c @ open_data_file disk @ s)"
    using room q by (intro send_lines_all [OF f]) simp
  ultimately show ?thesis using a cmd by (simp add: file_serve_line_def file_writeback_def s Let_def)
qed

text \<open>A round, against the same facts as for the device.\<close>

lemma file_round_ok:
  assumes f: "send_serves (file_send F)" and c: "conn_ok c acc" and r: "round_ok (b, a)"
    and cmd: "\<not> strstr (acc @ b) AESDCHAR_IOCSEEKTO_CMD_STR"
    and size: "unat (malloc_buf_size c) + length b + 1 < 2 ^ 31"
    and room: "newline \<in> set b \<longrightarrow> length (open_data_file disk @ acc @ b) \<le> quota F" and q: "quota F < 2 ^ 31"
  shows "\<exists>disk' c'. file_round F a b disk c = Some (Inr (disk', c', True)) \<and> conn_ok c' (acc @ b)
    \<and> unat (malloc_buf_size c') = unat (malloc_buf_size c) + length b + 1
    \<and> (if newline \<in> set b
       then disk' = Some (open_data_file disk @ acc @ b) \<and> sent_back c' = sent_back c @ open_data_file disk'
       else disk' = disk \<and> sent_back c' = sent_back c)"
proof -
  obtain c2 rest where received: "receive_text a b c = Inr (c2, Some (newline \<in> set b))" and ok2: "conn_ok c2 (acc @ b)"
    and mbs: "unat (malloc_buf_size c2) = unat (malloc_buf_size c) + length b + 1"
    and buf: "p_malloc_buf c2 = Some ((acc @ b) @ 0 # rest)" and sent: "sent_back c2 = sent_back c"
    using receive_text_ok [OF c r size] by (elim exE conjE)
  show ?thesis
  proof (cases "newline \<in> set b")
    case False
    with received ok2 mbs sent show ?thesis by (simp add: file_round_def serve_received_def)
  next
    case True
    have "0 \<notin> set (acc @ b)" using ok2 by (simp add: conn_ok_def)
    then have str: "c_string ((acc @ b) @ 0 # rest) = acc @ b" by (rule c_string_zero)
    have "fopen_ok a" using r by (simp add: round_ok_def)
    from file_serve_line_ok [OF f this str cmd mp [OF room True] q, of c2]
    show ?thesis
      using True received buf ok2 mbs sent
      by (simp add: conn_ok_def file_round_def serve_received_def open_data_file_def)
  qed
qed

end
