(* ===== verification/File_Proofs.thy ===== *)
theory File_Proofs
  imports File_Build
begin

text \<open>
  The file build against its specification, and against the build for the device: as long as
  the device has room for all commands, both keep the same data and send the same replies.
\<close>

section \<open>Specification\<close>

text \<open>
  The state is the file's contents, and the text received from and sent to every client.
\<close>

fun spec_event :: "data_event \<Rightarrow> byte list \<times> (nat \<Rightarrow> byte list) \<times> (nat \<Rightarrow> byte list) \<Rightarrow>
    byte list \<times> (nat \<Rightarrow> byte list) \<times> (nat \<Rightarrow> byte list)" where
  "spec_event (Message t b a) (content, acc, out) =
     (if newline \<in> set b then
        (content @ acc t @ b, acc(t := acc t @ b), out(t := out t @ content @ acc t @ b))
      else (content, acc(t := acc t @ b), out))"
| "spec_event (Expiry k) (content, acc, out) =
     (case local_time k of None \<Rightarrow> (content, acc, out) | Some ts \<Rightarrow> (content @ time_stamp ts, acc, out))"

definition spec_events :: "data_event list \<Rightarrow> byte list \<times> (nat \<Rightarrow> byte list) \<times> (nat \<Rightarrow> byte list) \<Rightarrow>
    byte list \<times> (nat \<Rightarrow> byte list) \<times> (nat \<Rightarrow> byte list)" where
  "spec_events es x = fold spec_event es x"

text \<open>What the environment must do for an event to go well.\<close>

fun event_ok :: "data_event \<Rightarrow> bool" where
  "event_ok (Message t b a) = round_ok (b, a)"
| "event_ok (Expiry k) = (local_time k \<noteq> None \<and> tick_fopen_ok k)"

text \<open>A bound for what the buffers of the threads grow by.\<close>

fun load :: "data_event list \<Rightarrow> nat" where
  "load [] = 0"
| "load (Message t b a # es) = length b + 1 + load es"
| "load (Expiry k # es) = load es"

text \<open>Nothing is ever removed.\<close>

lemma spec_events_extend:
  "spec_events es (content, acc, out) = (content', acc', out') \<Longrightarrow>
    (\<exists>r. content' = content @ r) \<and> (\<exists>r. acc' t = acc t @ r) \<and> (\<exists>r. out' t = out t @ r)"
proof (induction es arbitrary: content acc out)
  case Nil
  then show ?case by (simp add: spec_events_def)
next
  case (Cons e es)
  obtain content1 acc1 out1 where one: "spec_event e (content, acc, out) = (content1, acc1, out1)"
    by (cases "spec_event e (content, acc, out)")
  with Cons.prems have "spec_events es (content1, acc1, out1) = (content', acc', out')"
    by (simp add: spec_events_def)
  from Cons.IH [OF this] one show ?case
    by (cases e) (auto split: if_splits option.splits)
qed

text \<open>The threads and the file hold what the specification says.\<close>

definition threads_hold :: "nat \<Rightarrow> (nat \<Rightarrow> conn option) \<Rightarrow> (nat \<Rightarrow> byte list) \<Rightarrow> (nat \<Rightarrow> byte list) \<Rightarrow> bool" where
  "threads_hold m cs acc out \<longleftrightarrow> (\<forall>t. \<exists>c. cs t = Some c \<and> conn_ok c (acc t) \<and> sent_back c = out t
     \<and> unat (malloc_buf_size c) + m < 2 ^ 31)"

lemma threads_hold_new: "m < 2 ^ 31 \<Longrightarrow> threads_hold m all_new (\<lambda>t. []) (\<lambda>t. [])"
  using conn_ok_new by (simp add: threads_hold_def all_new_def) (simp add: new_conn_def)

lemma threads_holdE:
  assumes "threads_hold m cs acc out"
  obtains c where "cs t = Some c" and "conn_ok c (acc t)" and "sent_back c = out t"
    and "unat (malloc_buf_size c) + m < 2 ^ 31"
  using assms by (auto simp: threads_hold_def)

lemma threads_hold_update:
  assumes "threads_hold (k + m) cs acc out" and "conn_ok c' b" and "sent_back c' = o'"
    and "unat (malloc_buf_size c') + m < 2 ^ 31"
  shows "threads_hold m (cs(t := Some c')) (acc(t := b)) (out(t := o'))"
  using assms by (fastforce simp: threads_hold_def)

section \<open>The file build\<close>

lemma file_events_ok:
  assumes f: "send_serves (file_send F)" and q: "quota F < 2 ^ 31"
  shows "spec_events es (open_data_file disk, acc, out) = (content, acc', out') \<Longrightarrow> list_all event_ok es \<Longrightarrow>
    length content \<le> quota F \<Longrightarrow> (\<And>t. \<not> strstr (acc' t) AESDCHAR_IOCSEEKTO_CMD_STR) \<Longrightarrow>
    threads_hold (load es) cs acc out \<Longrightarrow>
    \<exists>disk' cs'. serve_events (file_round F) (timer_callback F) es (disk, cs) = Some (Inr (disk', cs'))
      \<and> open_data_file disk' = content \<and> threads_hold 0 cs' acc' out'"
proof (induction es arbitrary: disk acc out cs)
  case Nil
  then show ?case by (simp add: spec_events_def)
next
  case (Cons e es)
  show ?case
  proof (cases e)
    case (Expiry k)
    with Cons.prems(2) obtain ts where ts: "local_time k = Some ts" "tick_fopen_ok k" by auto
    let ?disk = "Some (open_data_file disk @ time_stamp ts)"
    have rest: "spec_events es (open_data_file ?disk, acc, out) = (content, acc', out')"
      using Cons.prems(1) by (simp add: Expiry ts spec_events_def open_data_file_def)
    then obtain r where "content = (open_data_file disk @ time_stamp ts) @ r"
      using spec_events_extend [OF rest] by (auto simp: open_data_file_def)
    then have "length (open_data_file disk @ time_stamp ts) \<le> quota F"
      using Cons.prems(3) by simp
    then have "timer_callback F k disk = Inr ?disk"
      using ts by (simp add: timer_callback_def append_file_def)
    moreover have "list_all event_ok es" "threads_hold (load es) cs acc out"
      using Cons.prems(2,5) by (simp_all add: Expiry)
    ultimately show ?thesis
      using Cons.IH [OF rest _ Cons.prems(3,4)] by (simp add: Expiry)
  next
    case (Message t b a)
    obtain c where c: "cs t = Some c" "conn_ok c (acc t)" "sent_back c = out t"
      "unat (malloc_buf_size c) + load (e # es) < 2 ^ 31"
      using Cons.prems(5) by (rule threads_holdE)
    obtain content1 acc1 out1 where one: "spec_event e (open_data_file disk, acc, out) = (content1, acc1, out1)"
      by (cases "spec_event e (open_data_file disk, acc, out)")
    with Cons.prems(1) have rest: "spec_events es (content1, acc1, out1) = (content, acc', out')"
      by (simp add: spec_events_def)
    obtain r r' where "content = content1 @ r" and acc': "acc' t = acc1 t @ r'"
      using spec_events_extend [OF rest, of t] by blast
    then have "length content1 \<le> quota F" using Cons.prems(3) by simp
    then have room: "newline \<in> set b \<longrightarrow> length (open_data_file disk @ acc t @ b) \<le> quota F"
      using one by (auto simp: Message)
    have "acc1 t = acc t @ b" using one by (auto simp: Message split: if_splits)
    then have cmd: "\<not> strstr (acc t @ b) AESDCHAR_IOCSEEKTO_CMD_STR"
      using Cons.prems(4) [of t] acc' strstr_append by metis
    have r: "round_ok (b, a)" and size: "unat (malloc_buf_size c) + length b + 1 < 2 ^ 31"
      using Cons.prems(2) c(4) by (simp_all add: Message)
    from file_round_ok [OF f c(2) r cmd size room q]
    obtain disk' c' where round: "file_round F a b disk c = Some (Inr (disk', c', True))" "conn_ok c' (acc t @ b)"
      "unat (malloc_buf_size c') = unat (malloc_buf_size c) + length b + 1"
      "if newline \<in> set b
       then disk' = Some (open_data_file disk @ acc t @ b) \<and> sent_back c' = sent_back c @ open_data_file disk'
       else disk' = disk \<and> sent_back c' = sent_back c"
      by (elim exE conjE)
    have spec: "content1 = open_data_file disk'" "acc1 = acc(t := acc t @ b)" "out1 = out(t := sent_back c')"
      using one round(4) c(3) by (auto simp: Message open_data_file_def split: if_splits)
    have "threads_hold (load es) (cs(t := Some c')) acc1 out1"
      unfolding spec using threads_hold_update [of "length b + 1" "load es" cs acc out c'] Cons.prems(5) round(2,3) c(4)
      by (simp add: Message add.assoc)
    moreover have "list_all event_ok es" using Cons.prems(2) by simp
    ultimately show ?thesis
      using Cons.IH [OF rest [unfolded spec(1)] _ Cons.prems(3,4)] round(1) c(1) by (simp add: Message)
  qed
qed

section \<open>The two builds\<close>

lemma newline_count_le:
  "\<forall>c \<in> set cs. newline \<in> set c \<Longrightarrow> length cs \<le> length (filter (\<lambda>x. x = newline) (concat cs))"
proof (induction cs)
  case (Cons c cs)
  then have "filter (\<lambda>x. x = newline) c \<noteq> []" by (auto simp: filter_empty_conv)
  then have "1 \<le> length (filter (\<lambda>x. x = newline) c)" by (cases "filter (\<lambda>x. x = newline) c") auto
  with Cons show ?case by simp
qed simp

text \<open>Lines written to a device with room for their commands are all kept.\<close>

lemma device_keeps_lines:
  assumes s: "\<forall>c \<in> set (commands s). newline \<in> set c" "partial s = []" and ps: "concat ps = text" "text \<noteq> []" "last text = newline"
    and few: "length (filter (\<lambda>x. x = newline) (contents s @ text)) \<le> 10"
  shows "contents (fold (\<lambda>p s. spec_write s p) ps s) = contents s @ text"
    and "partial (fold (\<lambda>p s. spec_write s p) ps s) = []"
proof -
  obtain xs r where a: "assemble [] ps = (xs, r)" by (cases "assemble [] ps")
  have whole: "concat xs @ r = text" using assemble_concat [of "[]" ps] ps(1) by (simp add: a)
  have nl: "\<forall>c \<in> set xs. newline \<in> set c" "newline \<notin> set r" using assemble_newline [of "[]" ps] by (simp_all add: a)
  have "r = []"
  proof (rule ccontr)
    assume "r \<noteq> []"
    then have "last text = last r" using whole by auto
    with ps(3) last_in_set [OF \<open>r \<noteq> []\<close>] nl(2) show False by simp
  qed
  have "length (commands s @ xs) \<le> length (filter (\<lambda>x. x = newline) (concat (commands s @ xs)))"
    using s(1) nl(1) by (intro newline_count_le) auto
  also have "\<dots> \<le> 10" using few whole \<open>r = []\<close> by (simp add: contents_def)
  finally have short: "length (commands s @ xs) \<le> 10" .
  then have "fold (\<lambda>p s. spec_write s p) ps s = \<lparr>commands = commands s @ xs, partial = []\<rparr>"
    using spec_write_chunks [of s ps] s(2) a \<open>r = []\<close> by simp
  then show "contents (fold (\<lambda>p s. spec_write s p) ps s) = contents s @ text"
    and "partial (fold (\<lambda>p s. spec_write s p) ps s) = []"
    using whole \<open>r = []\<close> by (simp_all add: contents_def)
qed

lemma driver_commands_newline:
  assumes "driver_inv d" and "c \<in> set (commands (dev_abs d))"
  shows "newline \<in> set c"
  using heap_okD(1) [OF driver_invD(4) [OF assms(1)]] assms(2)
  by (auto simp: commands_dev_abs blocks_def entry_ok_def)

text \<open>The device holds exactly the contents of the file.\<close>

definition same_data :: "driver \<Rightarrow> byte list option \<Rightarrow> bool" where
  "same_data d disk \<longleftrightarrow> driver_inv d \<and> partial (dev_abs d) = [] \<and> contents (dev_abs d) = open_data_file disk"

lemma same_round:
  assumes E: "service_env_ok E" and f: "send_serves (file_send F)" and same: "same_data d disk"
    and c: "conn_ok c acc" and r: "round_ok (b, a)" and cmd: "\<not> strstr (acc @ b) AESDCHAR_IOCSEEKTO_CMD_STR"
    and size: "unat (malloc_buf_size c) + length b + 1 < 2 ^ 31"
    and room: "newline \<in> set b \<longrightarrow> length (open_data_file disk @ acc @ b) \<le> quota F" and q: "quota F < 2 ^ 31"
    and line: "newline \<in> set b \<longrightarrow> last b = newline"
    and few: "newline \<in> set b \<longrightarrow> length (filter (\<lambda>x. x = newline) (open_data_file disk @ acc @ b)) \<le> 10"
  shows "\<exists>d' disk' c'. service_round E a b d c = Some (Inr (d', c', True)) \<and> file_round F a b disk c = Some (Inr (disk', c', True))
    \<and> same_data d' disk' \<and> conn_ok c' (acc @ b) \<and> unat (malloc_buf_size c') = unat (malloc_buf_size c) + length b + 1
    \<and> (if newline \<in> set b
       then open_data_file disk' = open_data_file disk @ acc @ b \<and> sent_back c' = sent_back c @ open_data_file disk'
       else disk' = disk \<and> sent_back c' = sent_back c)"
proof -
  obtain c2 rest where received: "receive_text a b c = Inr (c2, Some (newline \<in> set b))" and ok2: "conn_ok c2 (acc @ b)"
    and mbs: "unat (malloc_buf_size c2) = unat (malloc_buf_size c) + length b + 1"
    and buf: "p_malloc_buf c2 = Some ((acc @ b) @ 0 # rest)" and sent: "sent_back c2 = sent_back c"
    using receive_text_ok [OF c r size] by (elim exE conjE)
  show ?thesis
  proof (cases "newline \<in> set b")
    case False
    with received ok2 mbs sent same show ?thesis by (simp add: file_round_def round_defs)
  next
    case True
    have "0 \<notin> set (acc @ b)" using ok2 by (simp add: conn_ok_def)
    then have str: "c_string ((acc @ b) @ 0 # rest) = acc @ b" by (rule c_string_zero)
    have a: "fopen_ok a" using r by (simp add: round_ok_def)
    have inv: "driver_inv d" and part: "partial (dev_abs d) = []" and cont: "contents (dev_abs d) = open_data_file disk"
      using same by (simp_all add: same_data_def)
    let ?c = "c2\<lparr>sent_back := sent_back c2 @ open_data_file disk @ acc @ b\<rparr>"
    have "device_bytes (dev_abs d) + length (acc @ b) < 2 ^ 31"
      using mp [OF room True] q by (simp add: device_bytes_def part cont)
    from serve_line_ok [OF E a inv str cmd this, of c2] True
    obtain d' where d': "serve_line E a d c2 ((acc @ b) @ 0 # rest)
        = Some (Inr (d', c2\<lparr>sent_back := sent_back c2 @ contents (dev_abs d')\<rparr>))" "driver_inv d'"
      "dev_abs d' = fold (\<lambda>p s. spec_write s p) (write_split (conf E) (acc @ b)) (dev_abs d)"
      by auto
    have "concat (write_split (conf E) (acc @ b)) = acc @ b"
      using E by (simp add: service_env_ok_def stdio_conf_ok_def)
    moreover have "acc @ b \<noteq> []" "last (acc @ b) = newline" using True line by (auto simp: last_append)
    moreover have "length (filter (\<lambda>x. x = newline) (contents (dev_abs d) @ acc @ b)) \<le> 10"
      using mp [OF few True] by (simp add: cont)
    ultimately have "contents (dev_abs d') = open_data_file disk @ acc @ b" "partial (dev_abs d') = []"
      using device_keeps_lines [of "dev_abs d" "write_split (conf E) (acc @ b)" "acc @ b"]
        driver_commands_newline [OF inv] part cont by (auto simp: d'(3))
    with d'(2) have "same_data d' (Some (open_data_file disk @ acc @ b))"
      and dev: "serve_line E a d c2 ((acc @ b) @ 0 # rest) = Some (Inr (d', ?c))"
      using d'(1) by (simp_all add: same_data_def open_data_file_def)
    moreover have "file_serve_line F a disk c2 ((acc @ b) @ 0 # rest) = Some (Inr (Some (open_data_file disk @ acc @ b), ?c))"
      by (rule file_serve_line_ok [OF f a str cmd mp [OF room True] q])
    ultimately show ?thesis
      using True received buf ok2 mbs sent
      by (simp add: conn_ok_def file_round_def round_defs open_data_file_def)
  qed
qed

text \<open>A message that ends with a newline if it contains one.\<close>

fun line_message :: "data_event \<Rightarrow> bool" where
  "line_message (Message t b a) = (newline \<in> set b \<longrightarrow> last b = newline)"
| "line_message (Expiry k) = False"

lemma builds_agree_run:
  assumes E: "service_env_ok E" and f: "send_serves (file_send F)" and q: "quota F < 2 ^ 31"
  shows "spec_events es (open_data_file disk, acc, out) = (content, acc', out') \<Longrightarrow> same_data d disk \<Longrightarrow>
    list_all event_ok es \<Longrightarrow> list_all line_message es \<Longrightarrow> length content \<le> quota F \<Longrightarrow>
    length (filter (\<lambda>x. x = newline) content) \<le> 10 \<Longrightarrow> (\<And>t. \<not> strstr (acc' t) AESDCHAR_IOCSEEKTO_CMD_STR) \<Longrightarrow>
    threads_hold (load es) cs acc out \<Longrightarrow>
    \<exists>d' disk' cs'. serve_events (service_round E) (\<lambda>k d. Inr d) es (d, cs) = Some (Inr (d', cs'))
      \<and> serve_events (file_round F) (timer_callback F) es (disk, cs) = Some (Inr (disk', cs'))
      \<and> same_data d' disk' \<and> open_data_file disk' = content \<and> threads_hold 0 cs' acc' out'"
proof (induction es arbitrary: d disk acc out cs)
  case Nil
  then show ?case by (simp add: spec_events_def)
next
  case (Cons e es)
  from Cons.prems(4) obtain t b a where e: "e = Message t b a" by (cases e) auto
  obtain c where c: "cs t = Some c" "conn_ok c (acc t)" "sent_back c = out t"
    "unat (malloc_buf_size c) + load (e # es) < 2 ^ 31"
    using Cons.prems(8) by (rule threads_holdE)
  obtain content1 acc1 out1 where one: "spec_event e (open_data_file disk, acc, out) = (content1, acc1, out1)"
    by (cases "spec_event e (open_data_file disk, acc, out)")
  with Cons.prems(1) have rest: "spec_events es (content1, acc1, out1) = (content, acc', out')"
    by (simp add: spec_events_def)
  obtain r r' where content: "content = content1 @ r" and acc': "acc' t = acc1 t @ r'"
    using spec_events_extend [OF rest, of t] by blast
  have room: "newline \<in> set b \<longrightarrow> length (open_data_file disk @ acc t @ b) \<le> quota F"
    and few: "newline \<in> set b \<longrightarrow> length (filter (\<lambda>x. x = newline) (open_data_file disk @ acc t @ b)) \<le> 10"
    using one content Cons.prems(5,6) by (auto simp: e)
  have "acc1 t = acc t @ b" using one by (auto simp: e split: if_splits)
  then have cmd: "\<not> strstr (acc t @ b) AESDCHAR_IOCSEEKTO_CMD_STR"
    using Cons.prems(7) [of t] acc' strstr_append by metis
  have r: "round_ok (b, a)" and size: "unat (malloc_buf_size c) + length b + 1 < 2 ^ 31"
    and line: "newline \<in> set b \<longrightarrow> last b = newline"
    using Cons.prems(3,4) c(4) by (simp_all add: e)
  from same_round [OF E f Cons.prems(2) c(2) r cmd size room q line few]
  obtain d' disk' c' where round: "service_round E a b d c = Some (Inr (d', c', True))"
    "file_round F a b disk c = Some (Inr (disk', c', True))" "same_data d' disk'" "conn_ok c' (acc t @ b)"
    "unat (malloc_buf_size c') = unat (malloc_buf_size c) + length b + 1"
    "if newline \<in> set b
     then open_data_file disk' = open_data_file disk @ acc t @ b \<and> sent_back c' = sent_back c @ open_data_file disk'
     else disk' = disk \<and> sent_back c' = sent_back c"
    by (elim exE conjE)
  have spec: "content1 = open_data_file disk'" "acc1 = acc(t := acc t @ b)" "out1 = out(t := sent_back c')"
    using one round(6) c(3) by (auto simp: e split: if_splits)
  have "threads_hold (load es) (cs(t := Some c')) acc1 out1"
    unfolding spec using threads_hold_update [of "length b + 1" "load es" cs acc out c'] Cons.prems(8) round(4,5) c(4)
    by (simp add: e add.assoc)
  moreover have "list_all event_ok es" "list_all line_message es" using Cons.prems(3,4) by simp_all
  ultimately show ?case
    using Cons.IH [OF rest [unfolded spec(1)] round(3) _ _ Cons.prems(5-7)] round(1,2) c(1) by (simp add: e)
qed

text \<open>The events that are messages; the build for the device does not notice the others.\<close>

fun is_message :: "data_event \<Rightarrow> bool" where
  "is_message (Message t b a) = True"
| "is_message (Expiry k) = False"

lemma device_build_messages: "device_build E es d = device_build E (filter is_message es) d"
proof -
  have "serve_events round (\<lambda>k d. Inr d) es (d, cs) = serve_events round (\<lambda>k d. Inr d) (filter is_message es) (d, cs)"
    for round :: "answers \<Rightarrow> byte list \<Rightarrow> driver \<Rightarrow> conn \<Rightarrow> (fault + driver \<times> conn \<times> bool) option" and cs
  proof (induction es arbitrary: d cs)
    case (Cons e es)
    then show ?case by (cases e) (auto simp del: fun_upd_apply split: option.split sum.split)
  qed simp
  then show ?thesis by (simp add: device_build_def)
qed

end
