(* ===== verification/File_Properties.thy ===== *)
theory File_Properties
  imports File_Proofs Socket_Properties
begin







end
