(* ===== verification/Autotest.thy ===== *)
theory Autotest
  imports Main
begin

text \<open>
  \<^verbatim>\<open>examples/autotest-validate\<close> and the unit test of \<^verbatim>\<open>student-test/assignment1\<close>: functions that
  return constants, the program that prints two of them, and the comparison of the third
  with the name read from the configuration file, which the test framework reads.
\<close>

definition this_function_returns_true :: bool where
  "this_function_returns_true = True"

definition this_function_returns_false :: bool where
  "this_function_returns_false = False"

definition my_username :: string where
  "my_username = ''krish0706''"

text \<open>What \<open>printf\<close> shows for a truth value.\<close>

definition truth :: "bool \<Rightarrow> string" where
  "truth b = (if b then ''true'' else ''false'')"

text \<open>The printed lines and the exit status.\<close>

definition autotest_main :: "string list \<times> int" where
  "autotest_main =
     ([''this_function_returns_true returned '' @ truth this_function_returns_true,
       ''this_function_returns_false returned '' @ truth this_function_returns_false], 0)"

definition test_validate_my_username :: "string \<Rightarrow> bool" where
  "test_validate_my_username username_from_conf_file \<longleftrightarrow> my_username = username_from_conf_file"

end
