(* ===== verification/Spec2Isabelle.thy ===== *)
theory Spec2Isabelle
  imports Ring_Properties Driver_Limits System_Properties Writer Threading_Properties Socket_Properties
    Thread_Service_Properties File_Properties Autotest
begin

text \<open>
  A verification library for the C programs of this repository: a Linux character driver
  that remembers the last ten commands written to it, the socket server that stores client
  data in it, and the small user programs of the exercises.

  \<^bold>\<open>The program\<close>

  \<^verbatim>\<open>aesd-char-driver/\<close> is a kernel module. \<^verbatim>\<open>main.c\<close> collects the bytes of successive writes in
  a kernel buffer until they contain a newline, then stores the buffer as one command in
  the circular buffer of \<^verbatim>\<open>aesd-circular-buffer.c\<close>, which holds ten entries; reads, seeks and
  the ioctl \<^verbatim>\<open>AESDCHAR_IOCSEEKTO\<close> (\<^verbatim>\<open>aesd_ioctl.h\<close>) address the stored commands laid end to end.
  \<^verbatim>\<open>server/aesdsocket.c\<close> accepts connections, starts a thread for each, writes what a client
  sends to the device when it sees a newline and sends the contents of the device back; the
  threads take turns under a mutex. Built with \<^verbatim>\<open>USE_AESD_CHAR_DEVICE\<close> 0 the same server keeps the
  data in a file to which a timer adds time stamps.
  \<^verbatim>\<open>examples/systemcalls\<close> runs programs, \<^verbatim>\<open>examples/threading\<close> starts threads that share a
  mutex, and \<^verbatim>\<open>finder-app/writer.c\<close> writes a string to a file,
  \<^verbatim>\<open>examples/autotest-validate\<close> holds three constants and \<^verbatim>\<open>student-test\<close> a test of one of them.

  \<^bold>\<open>The theories\<close>

  \<^item> \<open>AESD_Prelude\<close>: the C integer types as words of their width, the kinds of undefined
    behaviour (\<open>fault\<close>), and list and word lemmas that all components share.
  \<^item> \<open>Interfaces\<close>: the contracts between components as locales. \<open>bounded_log\<close> and \<open>indexed_log\<close>
    are what the driver asks of the circular buffer, \<open>refines\<close> is the relation of a
    stateful component to its specification. \<open>Circular_Buffer\<close> interprets the first two on
    \<open>aesd_circular_buffer_add_entry\<close> and the search, \<open>Driver_Session\<close> the third on the file
    operations.
  \<^item> \<open>Kernel_Memory\<close>: pointers, the heap of live blocks, checked loads and stores, and the kernel
    services as the parameter \<open>kernel\<close>. \<open>kernel_ok\<close> states what their documentation promises
    and is met by \<open>demo_kernel\<close> and, with no memory, by \<open>oom_kernel\<close>.
  \<^item> \<open>Circular_Buffer\<close>, \<open>Ring_Properties\<close>: \<^verbatim>\<open>aesd-circular-buffer.{h,c}\<close>. The abstraction
    \<open>ring_entries\<close> lists the entries, oldest first; \<open>ring_inv\<close> is the invariant.
  \<^item> \<open>Char_Driver\<close>: \<^verbatim>\<open>main.c\<close>, \<^verbatim>\<open>aesdchar.h\<close>, \<^verbatim>\<open>aesd_ioctl.h\<close>. One function per file operation, each
    with every early return; a step without defined result is \<open>Inl fault\<close>. The record
    \<open>driver\<close> joins the device with the memory it allocates from, \<open>module\<close> the globals, and
    \<open>aesd_fops\<close> is the table through which sessions and runs call the operations.
  \<^item> \<open>Driver_Heap\<close>: ownership of the blocks. \<open>Driver_Spec\<close>: the abstract device (a list of
    commands and an unfinished one), the invariant \<open>driver_inv\<close>, reads and writes on every
    branch. \<open>Driver_Seek\<close>: \<open>llseek\<close> and the ioctl at the C widths. \<open>Driver_Session\<close>: sequences of
    operations refine the abstract device; load and unload. \<open>Driver_Steps\<close>: the driver as a
    state machine under any answers of a well-behaved kernel. A write that runs out of memory
    frees the pending block and keeps its address, so a reachable state satisfies \<open>driver_inv\<close>
    or is \<open>stale\<close> (\<open>driver_reachable_state\<close>); where operations fault. \<open>Driver_Demo\<close>: concrete
    devices for the witnesses.
  \<^item> \<open>Driver_Properties\<close>, \<open>Driver_Limits\<close>: the properties of the driver; the second one holds
    seeking, load and unload, and the branches that break the interface.
  \<^item> \<open>System_Calls\<close>, \<open>System_Properties\<close>: \<^verbatim>\<open>systemcalls.c\<close>, with child and parent side, wait
    statuses bit by bit, and the descriptor table for the redirection.
  \<^item> \<open>Writer\<close>: \<^verbatim>\<open>writer.c\<close> on every branch.
  \<^item> \<open>Threading\<close>, \<open>Threading_Runs\<close>, \<open>Threading_Properties\<close>: \<^verbatim>\<open>threading.{h,c}\<close> as a step relation
    over all interleavings; mutual exclusion, progress, and what a thread reports.
  \<^item> \<open>C_Library\<close>: strings, \<open>sscanf\<close> and streams as the server uses them, on the driver model.
    \<open>Socket_Service\<close>: one \<open>service_thread\<close> with \<open>writeback\<close>, a round of its loop in one go.
    \<open>Socket_Proofs\<close>: it implements \<open>spec_service\<close>. \<open>Seek_Command\<close>: printing and scanning the
    seek command.
  \<^item> \<open>Service_Threads\<close>: all service threads on one device and one mutex, a step per call;
    \<open>finish_request\<close> relates the calls of a request to \<open>serve_line\<close>. \<open>Thread_Refinement\<close>: every
    run is a run of whole requests (\<open>sim\<close>). \<open>Thread_Outcomes\<close>: for clients that send text, the
    specification in that order, and no fault. \<open>Thread_Progress\<close>: the loops of the code are runs
    of calls, so every run can be continued until all threads have ended.
    \<open>Thread_Service_Properties\<close>: the properties of that.
  \<^item> \<open>Socket_Server\<close>: binding, daemonizing, the thread list, and the main thread from its accept
    loop to its return as a state machine (\<open>main_step\<close>). It has no step of its own while it waits
    in \<open>accept\<close>, or in \<open>pthread_join\<close> for a running thread; clients, failures of \<open>accept\<close>, signals
    (which interrupt \<open>accept\<close> or come between calls) and the ends of threads are its events.
    \<open>Socket_Main\<close>: \<open>main\<close> from the command line on, and the invariant \<open>main_inv\<close> over all
    events. \<open>Socket_Properties\<close>: the properties of the
    server, which span server and driver.
  \<^item> \<open>File_Build\<close>, \<open>File_Proofs\<close>, \<open>File_Properties\<close>: the build without the character device,
    \<open>open_socket_data_file\<close>, \<open>writeback\<close> and the thread on a file, \<open>timer_callback\<close>, and what
    \<open>main\<close> adds; it is compared with the build for the device, on the messages of the clients alone,
    as the device build has no timer.
  \<^item> \<open>Autotest\<close>: the exercise functions and their unit test.

  \<^bold>\<open>Modelling choices\<close>

  Code outside the repository is a parameter: the kernel's allocator and user copies, system
  calls, the buffering of \<open>stdio\<close>, \<open>send\<close>, \<open>getaddrinfo\<close>. What is relied on is a named
  hypothesis (\<open>kernel_ok\<close>, \<open>roomy\<close>, \<open>serving\<close>, \<open>chrdev_ok\<close>, \<open>open_ok\<close>, \<open>stdio_ok\<close>, \<open>stdio_conf_ok\<close>, \<open>send_ok\<close>,
  \<open>send_serves\<close>, \<open>clients_ok\<close>, \<open>locks_work\<close>, \<open>event_ok\<close>), and each has a concrete instance. \<open>roomy\<close> asks the allocator to serve a twelfth block,
  which suffices because a device never holds more than eleven (\<open>driver_blocks_bound\<close>).
  Integers are words; the bounds \<open>2 ^ 63\<close> on the bytes of a device and \<open>2 ^ 31\<close> where the code
  sums sizes in an \<open>int\<close> are hypotheses. Loops are recursions: structural, with a measure, or
  \<open>partial_function (option)\<close>, where \<open>None\<close> would be a loop that does not end; that they do
  end is proved (\<open>find_entry_ends\<close>, \<open>sum_sizes_ends\<close>, \<open>read_line_ok\<close>, \<open>send_loop_prefix\<close>,
  \<open>writeback_prefix\<close>, \<open>run_joins\<close>). No fuel is used. A file operation of the driver is
  atomic, as it runs under the device mutex. The calls of the service threads interleave
  freely; the mutex between them is a field of the state, and a lock call that fails
  (\<open>lock_ok\<close>) is followed as the code does, which goes on without the mutex. In the build for the
  file a request and a call of \<open>timer_callback\<close> are taken as one step each, as they hold that
  mutex; the file may run out of space (\<open>quota\<close>), and what does not fit is lost.

  \<^bold>\<open>Not modelled\<close>

  Log, usage and console output where no decision depends on it; the result of \<open>timer_delete\<close>,
  which is only logged; shell scripts and makefiles.
\<close>

end
